(* ===== verification/Prelude.thy ===== *)
theory Prelude
  imports Main "HOL-Library.Word" "HOL-Library.Monad_Syntax"
begin

text \<open>
  What every component shares: the machine integers of the kernel, C strings as byte lists,
  little-endian loads and stores of a packed struct's fields, and pointer-linked lists in a
  store (an address maps to a node, address 0 is NULL).

  Conventions of the whole development. A function that may commit a memory fault (a load
  or a store outside its object, a dangling or NULL pointer that is followed, an index out of
  range) returns an option, and \<^term>\<open>None\<close> is that fault; a loop over a pointer-linked
  list that never ends is \<^term>\<open>None\<close> too. A pointer argument that the code only reads is
  the list of the bytes from the pointer to the end of its object; the length the code carries
  beside it stays a separate argument.
\<close>

unbundle bit_operations_syntax

section \<open>Machine integers\<close>

type_synonym u8 = "8 word"
type_synonym u16 = "16 word"
type_synonym u32 = "32 word"
type_synonym u64 = "64 word"
type_synonym addr = "64 word"
type_synonym bytes = "u8 list"

text \<open>Facts that read a word as a natural number, and frame facts: what an operation leaves alone.\<close>

named_theorems unat_simps
named_theorems frame_simps
named_theorems inv_intros

lemma unat_u8_less [simp]: "unat (b :: u8) < 256"
  using unsigned_less [of b, where ?'a = nat] by simp

lemma unat_u16_less [simp]: "unat (w :: u16) < 65536"
  using unsigned_less [of w, where ?'a = nat] by simp

lemma unat_u32_less [simp]: "unat (w :: u32) < 4294967296"
  using unsigned_less [of w, where ?'a = nat] by simp

lemma unat_u64_less [simp]: "unat (w :: u64) < 18446744073709551616"
  using unsigned_less [of w, where ?'a = nat] by simp

lemma unat_of_nat_u64: "n < 2 ^ 64 \<Longrightarrow> unat (of_nat n :: u64) = n"
  by (simp add: unat_of_nat)

lemma unat_ucast: "unat (ucast (w :: 'a::len word) :: 'b::len word) = unat w mod 2 ^ LENGTH('b)"
  by (simp add: unsigned_ucast_eq take_bit_eq_mod)

lemma unat_ucast_8_16 [simp]: "unat (ucast (b :: u8) :: u16) = unat b"
  using unat_u8_less [of b] by (simp add: unat_ucast del: unat_u8_less)

lemma unat_ucast_8_32 [simp]: "unat (ucast (b :: u8) :: u32) = unat b"
  using unat_u8_less [of b] by (simp add: unat_ucast del: unat_u8_less)

lemma unat_ucast_16_32 [simp]: "unat (ucast (w :: u16) :: u32) = unat w"
  using unat_u16_less [of w] by (simp add: unat_ucast del: unat_u16_less)

lemma unat_ucast_16_64 [simp]: "unat (ucast (w :: u16) :: u64) = unat w"
  using unat_u16_less [of w] by (simp add: unat_ucast del: unat_u16_less)

lemma unat_ucast_32_64 [simp]: "unat (ucast (w :: u32) :: u64) = unat w"
  using unat_u32_less [of w] by (simp add: unat_ucast del: unat_u32_less)

text \<open>Clearing the low bits rounds down to a multiple of a power of two.\<close>

lemma and_not_mask_u64: "(x :: u64) AND NOT (mask k) = push_bit k (drop_bit k x)"
  by (rule bit_word_eqI) (auto simp: bit_simps)

lemma unat_align_down: "unat (push_bit k (drop_bit k (x :: u64))) = unat x div 2 ^ k * 2 ^ k"
proof (cases "k < 64")
  case True
  have lt: "unat x div 2 ^ k * 2 ^ k < 2 ^ 64"
  proof -
    have "unat x div 2 ^ k * 2 ^ k \<le> unat x" by simp
    also have "\<dots> < 18446744073709551616" by (rule unat_u64_less)
    finally show ?thesis by simp
  qed
  have "unat (push_bit k (drop_bit k x)) = unat (drop_bit k x) * 2 ^ k mod 2 ^ 64"
    by (simp only: unsigned_push_bit_eq) (simp only: take_bit_eq_mod push_bit_eq_mult, simp)
  also have "unat (drop_bit k x) = unat x div 2 ^ k"
    by (simp only: unat_drop_bit_eq) (simp only: drop_bit_eq_div)
  also have "unat x div 2 ^ k * 2 ^ k mod 2 ^ 64 = unat x div 2 ^ k * 2 ^ k"
    by (rule mod_less [OF lt])
  finally show ?thesis .
next
  case False
  then have "(2 :: nat) ^ 64 \<le> 2 ^ k" by (intro power_increasing) simp_all
  then have "unat x < 2 ^ k" by (rule order_less_le_trans [rotated]) (use unsigned_less in fastforce)
  moreover have "push_bit k (drop_bit k x) = 0"
    by (rule bit_word_eqI) (use False in \<open>auto simp: bit_simps\<close>)
  ultimately show ?thesis by simp
qed

definition byte_of_char :: "char \<Rightarrow> u8" where
  "byte_of_char c = of_nat (of_char c)"

definition str :: "string \<Rightarrow> bytes" where
  "str cs = map byte_of_char cs"

definition crlf :: bytes where
  "crlf = [13, 10]"

definition lf :: bytes where
  "lf = [10]"

lemma str_Nil [simp]: "str [] = []"
  by (simp add: str_def)

lemma length_str [simp]: "length (str cs) = length cs"
  by (simp add: str_def)

section \<open>Byte order\<close>

text \<open>
  AArch64 is little-endian: a 16-bit load at a byte pair gives the first byte the low weight.
\<close>

definition le16 :: "u8 \<Rightarrow> u8 \<Rightarrow> u16" where
  "le16 b0 b1 = ucast b0 OR push_bit 8 (ucast b1)"

definition le32 :: "u8 \<Rightarrow> u8 \<Rightarrow> u8 \<Rightarrow> u8 \<Rightarrow> u32" where
  "le32 b0 b1 b2 b3 =
     ucast b0 OR push_bit 8 (ucast b1) OR push_bit 16 (ucast b2) OR push_bit 24 (ucast b3)"

definition st16 :: "u16 \<Rightarrow> bytes" where
  "st16 w = [ucast w, ucast (drop_bit 8 w)]"

definition st32 :: "u32 \<Rightarrow> bytes" where
  "st32 w = [ucast w, ucast (drop_bit 8 w), ucast (drop_bit 16 w), ucast (drop_bit 24 w)]"

lemma length_st16 [simp]: "length (st16 w) = 2"
  by (simp add: st16_def)

lemma length_st32 [simp]: "length (st32 w) = 4"
  by (simp add: st32_def)

lemma le16_st16 [simp]: "le16 (ucast w) (ucast (drop_bit 8 w)) = w"
  unfolding le16_def by (rule bit_word_eqI) (auto simp: bit_simps)

lemma le32_st32 [simp]:
  "le32 (ucast w) (ucast (drop_bit 8 w)) (ucast (drop_bit 16 w)) (ucast (drop_bit 24 w)) = w"
proof (rule bit_word_eqI)
  fix n assume n: "n < LENGTH(32)"
  consider "n < 8" | "8 \<le> n" "n < 16" | "16 \<le> n" "n < 24" | "24 \<le> n" by linarith
  then show "bit (le32 (ucast w) (ucast (drop_bit 8 w)) (ucast (drop_bit 16 w))
      (ucast (drop_bit 24 w))) n = bit w n"
    using n by cases (auto simp: le32_def bit_simps dest: bit_imp_le_length)
qed

lemma st16_le16 [simp]: "st16 (le16 a b) = [a, b]"
proof -
  have "ucast (le16 a b) = a" and "ucast (drop_bit 8 (le16 a b)) = b"
    unfolding le16_def by (rule bit_word_eqI; auto simp: bit_simps dest: bit_imp_le_length)+
  then show ?thesis by (simp add: st16_def)
qed

lemma unat_le16 [unat_simps]: "unat (le16 a b) = unat a + 256 * unat b"
proof -
  have dis: "ucast a AND push_bit 8 (ucast b) = (0 :: u16)"
    by (rule bit_word_eqI) (auto simp: bit_simps dest: bit_imp_le_length)
  have a: "unat a < 256" and b: "unat b < 256"
    by (rule unat_u8_less)+
  have pb: "push_bit 8 (ucast b :: u16) = ucast b * 256"
    by (simp add: push_bit_eq_mult)
  have "le16 a b = ucast a + push_bit 8 (ucast b)"
    unfolding le16_def by (rule disjunctive_add_eq_or [OF dis, symmetric])
  then have "unat (le16 a b) = unat (ucast a + ucast b * 256 :: u16)"
    by (simp only: pb)
  also have "\<dots> = unat a + 256 * unat b"
  proof -
    have "unat a + unat b * 256 < 65536" using a b by linarith
    then show ?thesis by (simp add: unat_word_ariths)
  qed
  finally show ?thesis .
qed

section \<open>Loads from a byte object\<close>

definition ld8 :: "bytes \<Rightarrow> nat \<Rightarrow> u8 option" where
  "ld8 d i = (if i < length d then Some (d ! i) else None)"

definition ld16 :: "bytes \<Rightarrow> nat \<Rightarrow> u16 option" where
  "ld16 d i = (if i + 1 < length d then Some (le16 (d ! i) (d ! (i + 1))) else None)"

definition ld32 :: "bytes \<Rightarrow> nat \<Rightarrow> u32 option" where
  "ld32 d i = (if i + 3 < length d
     then Some (le32 (d ! i) (d ! (i + 1)) (d ! (i + 2)) (d ! (i + 3))) else None)"

section \<open>Pointer-linked lists\<close>

text \<open>
  \<open>path nxt m p as\<close>: following the \<open>nxt\<close> fields of the store \<open>m\<close> from pointer \<open>p\<close>
  visits exactly the nodes \<open>as\<close> and ends at NULL.
\<close>

primrec path :: "('n \<Rightarrow> addr) \<Rightarrow> (addr \<rightharpoonup> 'n) \<Rightarrow> addr \<Rightarrow> addr list \<Rightarrow> bool" where
  "path nxt m p [] \<longleftrightarrow> p = 0"
| "path nxt m p (a # as) \<longleftrightarrow>
     p = a \<and> a \<noteq> 0 \<and> (case m a of None \<Rightarrow> False | Some n \<Rightarrow> path nxt m (nxt n) as)"

lemma path_Nil_iff [simp]: "path nxt m 0 as \<longleftrightarrow> as = []"
  by (cases as) auto

lemma path_nonnull: "path nxt m p as \<Longrightarrow> a \<in> set as \<Longrightarrow> a \<noteq> 0 \<and> a \<in> dom m"
  by (induction as arbitrary: p) (auto split: option.splits)

lemma path_cong:
  "(\<And>a. a \<in> set as \<Longrightarrow> map_option nxt (m a) = map_option nxt (m' a)) \<Longrightarrow>
   path nxt m p as = path nxt m' p as"
proof (induction as arbitrary: p)
  case Nil
  then show ?case by simp
next
  case (Cons a as)
  have hd: "map_option nxt (m a) = map_option nxt (m' a)" by (rule Cons.prems) simp
  have tl: "path nxt m q as = path nxt m' q as" for q
    by (rule Cons.IH) (rule Cons.prems, simp)
  show ?case
    using hd tl by (cases "m a"; cases "m' a") auto
qed

lemma path_upd_other [simp]: "u \<notin> set as \<Longrightarrow> path nxt (m(u := v)) p as = path nxt m p as"
  by (rule path_cong) auto

lemma path_upd_same:
  "m u = Some n \<Longrightarrow> nxt n' = nxt n \<Longrightarrow> path nxt (m(u \<mapsto> n')) p as = path nxt m p as"
  by (rule path_cong) auto

lemma path_unique: "path nxt m p as \<Longrightarrow> path nxt m p bs \<Longrightarrow> as = bs"
proof (induction as arbitrary: p bs)
  case Nil
  then show ?case by simp
next
  case (Cons a as)
  then show ?case by (cases bs) (auto split: option.splits)
qed

lemma path_append:
  "path nxt m p (as @ bs) \<Longrightarrow> \<exists>q. path nxt m q bs"
  by (induction as arbitrary: p) (auto split: option.splits)

lemma path_distinct: "path nxt m p as \<Longrightarrow> distinct as"
proof (induction as arbitrary: p)
  case Nil
  then show ?case by simp
next
  case (Cons a as)
  from Cons.prems obtain n where n: "m a = Some n" "path nxt m (nxt n) as"
    by (auto split: option.splits)
  have "a \<notin> set as"
  proof
    assume "a \<in> set as"
    then obtain us vs where as: "as = us @ a # vs" by (auto dest: split_list)
    with n(2) obtain q where "path nxt m q (a # vs)" using path_append by blast
    then have "path nxt m a (a # vs)" by auto
    moreover have "path nxt m a (a # as)" using Cons.prems by auto
    ultimately have "a # vs = a # as" by (rule path_unique)
    with as show False by simp
  qed
  with Cons.IH [OF n(2)] show ?case by simp
qed

text \<open>
  The loop \<open>while (cur) { if (test) return cur; cur = cur->next; }\<close>: the first node that
  passes the test, or NULL.
\<close>

partial_function (option) walk ::
  "('n \<Rightarrow> addr) \<Rightarrow> (addr \<Rightarrow> 'n \<Rightarrow> bool) \<Rightarrow> (addr \<rightharpoonup> 'n) \<Rightarrow> addr \<Rightarrow> addr option" where
  "walk nxt P m cur =
     (if cur = 0 then Some 0
      else case m cur of
        None \<Rightarrow> None
      | Some n \<Rightarrow> (if P cur n then Some cur else walk nxt P m (nxt n)))"

lemma walk_path:
  "path nxt m p as \<Longrightarrow>
   walk nxt P m p = Some (case find (\<lambda>a. P a (the (m a))) as of None \<Rightarrow> 0 | Some a \<Rightarrow> a)"
proof (induction as arbitrary: p)
  case Nil
  then show ?case by (simp add: walk.simps)
next
  case (Cons a as)
  then obtain n where "m a = Some n" "path nxt m (nxt n) as" "p = a" "a \<noteq> 0"
    by (auto split: option.splits)
  with Cons.IH [of "nxt n"] show ?case by (simp add: walk.simps [of _ _ _ a])
qed

lemma walk_path_cases:
  assumes "path nxt m p as"
  obtains (none) "walk nxt P m p = Some 0" "\<And>a. a \<in> set as \<Longrightarrow> \<not> P a (the (m a))"
  | (found) a n where "walk nxt P m p = Some a" "a \<in> set as" "a \<noteq> 0" "m a = Some n" "P a n"
proof (cases "find (\<lambda>a. P a (the (m a))) as")
  case None
  show ?thesis
  proof (intro none)
    show "walk nxt P m p = Some 0" using None walk_path [OF assms, of P] by simp
    show "\<not> P a (the (m a))" if "a \<in> set as" for a
      using None that by (auto simp: find_None_iff)
  qed
next
  case (Some a)
  then have a: "a \<in> set as" "P a (the (m a))" by (auto simp: find_Some_iff)
  with path_nonnull [OF assms a(1)] obtain n where "m a = Some n" "a \<noteq> 0" by auto
  with a Some walk_path [OF assms, of P] show ?thesis by (auto intro: found)
qed

text \<open>The loop \<open>while (cur) { acc = f(acc, *cur); cur = cur->next; }\<close>.\<close>

partial_function (option) walk_fold ::
  "('n \<Rightarrow> addr) \<Rightarrow> ('n \<Rightarrow> 'b \<Rightarrow> 'b) \<Rightarrow> (addr \<rightharpoonup> 'n) \<Rightarrow> addr \<Rightarrow> 'b \<Rightarrow> 'b option" where
  "walk_fold nxt f m cur acc =
     (if cur = 0 then Some acc
      else case m cur of
        None \<Rightarrow> None
      | Some n \<Rightarrow> walk_fold nxt f m (nxt n) (f n acc))"

lemma walk_fold_path:
  "path nxt m p as \<Longrightarrow> walk_fold nxt f m p acc = Some (fold f (map (\<lambda>a. the (m a)) as) acc)"
proof (induction as arbitrary: p acc)
  case Nil
  then show ?case by (simp add: walk_fold.simps)
next
  case (Cons a as)
  then obtain n where "m a = Some n" "path nxt m (nxt n) as" "p = a" "a \<noteq> 0"
    by (auto split: option.splits)
  with Cons.IH [of "nxt n"] show ?case by (simp add: walk_fold.simps [of _ _ _ a])
qed

end
