(* ===== verification/Uart.thy ===== *)
theory Uart
  imports Prelude
begin

text \<open>
  The PL011 console (src/AetherWebOS/src/drivers/uart.c) and the kernel mode that gates its
  debug output. The state is the bytes written to the data register so far, in order, and the
  current mode. \<open>uart_putc\<close> waits until the transmit FIFO has room; that wait is hardware
  time and is not part of the state, so every byte is accepted.
\<close>

section \<open>State\<close>

datatype kernel_mode_t = MODE_PORTAL | MODE_CONFIRM_SHUTDOWN | MODE_NET_STATS | MODE_DEBUG

record uart =
  console :: bytes
  current_mode :: kernel_mode_t

section \<open>Transmission helpers\<close>

definition uart_putc :: "u8 \<Rightarrow> uart \<Rightarrow> uart" where
  "uart_putc c u = u\<lparr>console := console u @ [c]\<rparr>"

text \<open>
  The argument of \<open>uart_puts\<close> is the memory from the string's pointer on; the loop stops at
  the terminating 0, which a list that holds only the characters leaves out.
\<close>

fun uart_puts :: "bytes \<Rightarrow> uart \<Rightarrow> uart" where
  "uart_puts [] u = u"
| "uart_puts (c # cs) u =
     (if c = 0 then u
      else uart_puts cs (uart_putc c (if c = 10 then uart_putc 13 u else u)))"

text \<open>
  The decimal printer takes a 32-bit argument (the definition in uart.c). It fills a 12-byte
  buffer with the digits from the lowest up and prints the buffer backwards.
\<close>

function dec_digits_rev :: "nat \<Rightarrow> bytes" where
  "dec_digits_rev n = (if n = 0 then [] else (of_nat (n mod 10) + 48) # dec_digits_rev (n div 10))"
  by pat_completeness auto
termination
  by (relation "measure id") auto

declare dec_digits_rev.simps [simp del]

definition uart_put_int :: "u32 \<Rightarrow> uart \<Rightarrow> uart" where
  "uart_put_int n u =
     (if n = 0 then uart_putc 48 u
      else fold uart_putc (rev (dec_digits_rev (unat n))) u)"

definition hextab :: bytes where
  "hextab = str ''0123456789ABCDEF''"

definition uart_put_hex :: "u64 \<Rightarrow> uart \<Rightarrow> uart" where
  "uart_put_hex n u =
     fold (\<lambda>i. uart_putc (hextab ! unat (drop_bit i n AND 0xF)))
       [60, 56, 52, 48, 44, 40, 36, 32, 28, 24, 20, 16, 12, 8, 4, 0] (uart_puts (str ''0x'') u)"

definition uart_print_hex16 :: "u16 \<Rightarrow> uart \<Rightarrow> uart" where
  "uart_print_hex16 val u =
     fold (\<lambda>i. uart_putc (str ''0123456789abcdef'' ! unat (drop_bit i val AND 0xF))) [12, 8, 4, 0] u"

definition uart_print_ip :: "u32 \<Rightarrow> uart \<Rightarrow> uart" where
  "uart_print_ip ip u =
     (let u = uart_put_int (drop_bit 24 ip AND 0xFF) u;
          u = uart_putc 46 u;
          u = uart_put_int (drop_bit 16 ip AND 0xFF) u;
          u = uart_putc 46 u;
          u = uart_put_int (drop_bit 8 ip AND 0xFF) u;
          u = uart_putc 46 u
      in uart_put_int (ip AND 0xFF) u)"

definition uart_put_hex_byte :: "u8 \<Rightarrow> uart \<Rightarrow> uart" where
  "uart_put_hex_byte b u =
     uart_putc (hextab ! unat (b AND 0xF)) (uart_putc (hextab ! unat (drop_bit 4 b AND 0xF)) u)"

text \<open>Debug output reaches the console only in the debug mode.\<close>

definition uart_debugps :: "bytes \<Rightarrow> uart \<Rightarrow> uart" where
  "uart_debugps s u = (if current_mode u \<noteq> MODE_DEBUG then u else uart_puts s u)"

definition uart_debugpc :: "u8 \<Rightarrow> uart \<Rightarrow> uart" where
  "uart_debugpc c u = (if current_mode u \<noteq> MODE_DEBUG then u else uart_putc c u)"

section \<open>What the output functions write\<close>

text \<open>The bytes a string puts on the wire: a carriage return goes before each line feed.\<close>

fun cooked :: "bytes \<Rightarrow> bytes" where
  "cooked [] = []"
| "cooked (c # cs) = (if c = 0 then [] else if c = 10 then 13 # 10 # cooked cs else c # cooked cs)"

lemma console_putc [simp]: "console (uart_putc c u) = console u @ [c]"
  by (simp add: uart_putc_def)

lemma mode_putc [simp]: "current_mode (uart_putc c u) = current_mode u"
  by (simp add: uart_putc_def)

lemma console_fold_putc [simp]: "console (fold uart_putc cs u) = console u @ cs"
  by (induction cs arbitrary: u) auto

lemma mode_fold_putc [simp]: "current_mode (fold uart_putc cs u) = current_mode u"
  by (induction cs arbitrary: u) auto

lemma console_puts [simp]: "console (uart_puts s u) = console u @ cooked s"
  by (induction s u rule: uart_puts.induct) auto

lemma mode_puts [simp]: "current_mode (uart_puts s u) = current_mode u"
  by (induction s u rule: uart_puts.induct) auto

lemma mode_debugps [simp]: "current_mode (uart_debugps s u) = current_mode u"
  by (simp add: uart_debugps_def)

lemma mode_debugpc [simp]: "current_mode (uart_debugpc s u) = current_mode u"
  by (simp add: uart_debugpc_def)

text \<open>Outside the debug mode the debug printers do nothing at all.\<close>

lemma debugps_quiet [simp]: "current_mode u \<noteq> MODE_DEBUG \<Longrightarrow> uart_debugps s u = u"
  by (simp add: uart_debugps_def)

lemma debugpc_quiet [simp]: "current_mode u \<noteq> MODE_DEBUG \<Longrightarrow> uart_debugpc s u = u"
  by (simp add: uart_debugpc_def)

section \<open>Decimal numerals\<close>

text \<open>The value a digit string stands for, and the printer's round trip.\<close>

definition dec_value :: "bytes \<Rightarrow> nat" where
  "dec_value ds = foldl (\<lambda>v d. 10 * v + (unat d - 48)) 0 ds"

lemma dec_value_snoc: "dec_value (ds @ [d]) = 10 * dec_value ds + (unat d - 48)"
  by (simp add: dec_value_def)

lemma digit_byte: "n < 10 \<Longrightarrow> unat (of_nat n + 48 :: u8) = n + 48"
  by (simp add: unat_word_ariths unat_of_nat)

lemma dec_value_digits: "dec_value (rev (dec_digits_rev n)) = n"
proof (induction n rule: dec_digits_rev.induct)
  case (1 n)
  show ?case
  proof (cases "n = 0")
    case True
    then show ?thesis by (simp add: dec_digits_rev.simps [of 0] dec_value_def)
  next
    case False
    then have "dec_value (rev (dec_digits_rev n)) = 10 * (n div 10) + n mod 10"
      using 1 by (simp add: dec_digits_rev.simps [of n] dec_value_snoc digit_byte)
    then show ?thesis by simp
  qed
qed

lemma dec_digits_are_digits: "d \<in> set (dec_digits_rev n) \<Longrightarrow> 48 \<le> unat d \<and> unat d \<le> 57"
proof (induction n rule: dec_digits_rev.induct)
  case (1 n)
  have "n mod 10 < 10" by simp
  with 1 show ?case
    by (auto simp: dec_digits_rev.simps [of n] digit_byte split: if_splits)
qed

text \<open>The canonical decimal text of a number, which every printer of the kernel is compared with.\<close>

definition dec_str :: "nat \<Rightarrow> bytes" where
  "dec_str n = (if n = 0 then [48] else rev (dec_digits_rev n))"

lemma dec_str_value: "dec_value (dec_str n) = n"
  by (simp add: dec_str_def dec_value_digits) (simp add: dec_value_def)

lemma dec_str_digits: "list_all (\<lambda>d. 48 \<le> unat d \<and> unat d \<le> 57) (dec_str n)"
  using dec_digits_are_digits [of _ n] by (auto simp: dec_str_def list_all_iff)

lemma dec_str_not_Nil: "dec_str n \<noteq> []"
  by (simp add: dec_str_def dec_digits_rev.simps [of n])

lemma dec_digits_last:
  "0 < n \<Longrightarrow> dec_digits_rev n \<noteq> [] \<and> last (dec_digits_rev n) \<noteq> 48"
proof (induction n rule: dec_digits_rev.induct)
  case (1 n)
  show ?case
  proof (cases "n div 10 = 0")
    case True
    with "1.prems" have n: "n mod 10 = n" "0 < n" "n < 10" by auto
    have "unat (of_nat n + 48 :: u8) \<noteq> unat (48 :: u8)"
      using n digit_byte [of n] by simp
    then have "(of_nat n + 48 :: u8) \<noteq> 48" by metis
    with True n show ?thesis by (simp add: dec_digits_rev.simps [of n] dec_digits_rev.simps [of 0])
  next
    case False
    with 1 show ?thesis by (simp add: dec_digits_rev.simps [of n])
  qed
qed

lemma dec_str_no_leading_zero: "(hd (dec_str n) = 48) = (n = 0)"
  using dec_digits_last [of n] by (auto simp: dec_str_def hd_rev)

lemma dec_digits_length: "n < 10 ^ k \<Longrightarrow> length (dec_digits_rev n) \<le> k"
proof (induction n arbitrary: k rule: dec_digits_rev.induct)
  case (1 n)
  show ?case
  proof (cases "n = 0")
    case True
    then show ?thesis by (simp add: dec_digits_rev.simps [of 0])
  next
    case False
    with "1.prems" obtain j where k: "k = Suc j" by (cases k) auto
    with "1.prems" have "n div 10 < 10 ^ j" by (simp add: div_less_iff_less_mult mult.commute)
    with False k 1 show ?thesis by (simp add: dec_digits_rev.simps [of n])
  qed
qed

lemma dec_str_length: "0 < k \<Longrightarrow> n < 10 ^ k \<Longrightarrow> length (dec_str n) \<le> k"
  using dec_digits_length [of n k] by (auto simp: dec_str_def)

lemma dec_str_nonzero: "0 \<notin> set (dec_str n)"
  using dec_str_digits [of n] by (auto simp: list_all_iff)

section \<open>Properties\<close>

text \<open>
  \<open>uart_put_int\<close> prints the decimal numeral of its argument: the bytes it adds to the
  console are digits, they denote the argument, there is no leading zero, and at most ten of
  them are needed, so the 12-byte buffer of the code is never overrun.
\<close>

lemma uart_put_int_prints_decimal:
  "\<exists>ds. console (uart_put_int n u) = console u @ ds \<and> dec_value ds = unat n
      \<and> list_all (\<lambda>d. 48 \<le> unat d \<and> unat d \<le> 57) ds
      \<and> (hd ds = 48) = (n = 0) \<and> ds \<noteq> [] \<and> length ds \<le> 10"
proof (intro exI conjI)
  show "console (uart_put_int n u) = console u @ dec_str (unat n)"
    by (simp add: uart_put_int_def dec_str_def unat_eq_0)
  have "unat n < 10 ^ 10" by (rule order_less_le_trans [OF unat_u32_less]) simp
  then show "length (dec_str (unat n)) \<le> 10" by (intro dec_str_length) simp_all
qed (simp_all add: dec_str_value dec_str_digits dec_str_no_leading_zero dec_str_not_Nil unat_eq_0)

end
