(* ===== verification/Utils.thy ===== *)
theory Utils
  imports Uart
begin

text \<open>
  The kernel's freestanding C helpers (src/AetherWebOS/src/common/utils.c): byte order
  conversion, memset and memcpy on the byte-addressed RAM, C strings in fixed buffers, the
  number printers and the minimal snprintf.
\<close>

section \<open>Byte order conversion\<close>

definition htons :: "u16 \<Rightarrow> u16" where
  "htons x = push_bit 8 (x AND 0x00FF) OR drop_bit 8 (x AND 0xFF00)"

definition ntohs :: "u16 \<Rightarrow> u16" where
  "ntohs x = htons x"

definition htonl :: "u32 \<Rightarrow> u32" where
  "htonl x = push_bit 24 (x AND 0x000000FF) OR push_bit 8 (x AND 0x0000FF00)
     OR drop_bit 8 (x AND 0x00FF0000) OR drop_bit 24 (x AND 0xFF000000)"

definition ntohl :: "u32 \<Rightarrow> u32" where
  "ntohl x = htonl x"

text \<open>The compiler's byte-swap builtins, which the ARP, IPv6 and Ethernet code calls.\<close>

definition bswap16 :: "u16 \<Rightarrow> u16" where
  "bswap16 x = le16 (ucast (drop_bit 8 x)) (ucast x)"

definition bswap32 :: "u32 \<Rightarrow> u32" where
  "bswap32 x = le32 (ucast (drop_bit 24 x)) (ucast (drop_bit 16 x)) (ucast (drop_bit 8 x)) (ucast x)"

text \<open>The bits of the byte masks, on the integers the simplifier moves them to.\<close>

lemma bit_push_mask: "bit (push_bit k (mask 8) :: int) n \<longleftrightarrow> k \<le> n \<and> n < k + 8"
  unfolding bit_push_bit_iff bit_mask_iff possible_bit_def by auto

lemma bit_masks:
  "bit (0x000000FF :: int) n \<longleftrightarrow> n < 8"
  "bit (0x0000FF00 :: int) n \<longleftrightarrow> 8 \<le> n \<and> n < 16"
  "bit (0x00FF0000 :: int) n \<longleftrightarrow> 16 \<le> n \<and> n < 24"
  "bit (0xFF000000 :: int) n \<longleftrightarrow> 24 \<le> n \<and> n < 32"
  using bit_push_mask [of 0 n] bit_push_mask [of 8 n] bit_push_mask [of 16 n] bit_push_mask [of 24 n]
  by (simp_all add: mask_eq_exp_minus_1)

text \<open>On memory bytes the conversion exchanges the order: a load of a wire field is its value.\<close>

lemma htons_le16: "htons (le16 a b) = le16 b a"
  unfolding htons_def le16_def
  by (rule bit_word_eqI) (auto simp: bit_simps bit_masks dest: bit_imp_le_length)

lemma htons_bswap16: "htons = bswap16"
proof
  fix x
  have "htons x = htons (le16 (ucast x) (ucast (drop_bit 8 x)))" by (simp only: le16_st16)
  then show "htons x = bswap16 x" by (simp only: htons_le16 bswap16_def)
qed

lemma htons_htons [simp]: "htons (htons x) = x"
proof -
  have "htons (htons x) = htons (htons (le16 (ucast x) (ucast (drop_bit 8 x))))"
    by (simp only: le16_st16)
  also have "\<dots> = le16 (ucast x) (ucast (drop_bit 8 x))" by (simp only: htons_le16)
  also have "\<dots> = x" by (rule le16_st16)
  finally show ?thesis .
qed

lemma ntohs_htons [simp]: "ntohs (htons x) = x" "htons (ntohs x) = x"
  by (simp_all add: ntohs_def)

lemma htonl_bswap32: "htonl = bswap32"
proof
  fix x
  show "htonl x = bswap32 x"
  proof (rule bit_word_eqI)
    fix n assume n: "n < LENGTH(32)"
    note bits = htonl_def bswap32_def le32_def bit_simps bit_masks
    consider "n < 8" | m where "n = m + 8" "m < 8" | m where "n = m + 16" "m < 8"
      | m where "n = m + 24" "m < 8"
    proof -
      have "n < 8 \<or> (n - 8 < 8 \<and> n = n - 8 + 8) \<or> (n - 16 < 8 \<and> n = n - 16 + 16)
          \<or> (n - 24 < 8 \<and> n = n - 24 + 24)"
        using n by auto
      then show thesis using that by blast
    qed
    then show "bit (htonl x) n = bit (bswap32 x) n"
      by cases (simp_all add: bits add.commute)
  qed
qed

lemma bswap32_le32 [simp]: "bswap32 (le32 a b c d) = le32 d c b a"
proof -
  have "ucast (drop_bit 24 (le32 a b c d)) = d" "ucast (drop_bit 16 (le32 a b c d)) = c"
    "ucast (drop_bit 8 (le32 a b c d)) = b" "ucast (le32 a b c d) = a"
    unfolding le32_def by (rule bit_word_eqI; auto simp: bit_simps dest: bit_imp_le_length)+
  then show ?thesis by (simp add: bswap32_def)
qed

lemma bswap32_bswap32 [simp]: "bswap32 (bswap32 x) = x"
proof -
  have "bswap32 (bswap32 x) =
      bswap32 (le32 (ucast (drop_bit 24 x)) (ucast (drop_bit 16 x)) (ucast (drop_bit 8 x)) (ucast x))"
    by (simp only: bswap32_def)
  also have "\<dots> = x" by (simp only: bswap32_le32 le32_st32)
  finally show ?thesis .
qed

lemma htonl_htonl [simp]: "htonl (htonl x) = x"
  by (simp add: htonl_bswap32)

section \<open>memset and memcpy\<close>

type_synonym ram = "addr \<Rightarrow> u8"

fun memset_loop :: "nat \<Rightarrow> addr \<Rightarrow> u8 \<Rightarrow> ram \<Rightarrow> ram" where
  "memset_loop 0 p c r = r"
| "memset_loop (Suc n) p c r = memset_loop n (p + 1) c (r(p := c))"

definition memset :: "addr \<Rightarrow> u8 \<Rightarrow> u64 \<Rightarrow> ram \<Rightarrow> ram" where
  "memset s c n r = memset_loop (unat n) s c r"

fun memcpy_loop :: "nat \<Rightarrow> addr \<Rightarrow> addr \<Rightarrow> ram \<Rightarrow> ram" where
  "memcpy_loop 0 d s r = r"
| "memcpy_loop (Suc n) d s r = memcpy_loop n (d + 1) (s + 1) (r(d := r s))"

definition memcpy :: "addr \<Rightarrow> addr \<Rightarrow> u64 \<Rightarrow> ram \<Rightarrow> ram" where
  "memcpy d s n r = memcpy_loop (unat n) d s r"

text \<open>Block reads and writes, the specification of both loops.\<close>

definition ram_write :: "ram \<Rightarrow> addr \<Rightarrow> bytes \<Rightarrow> ram" where
  "ram_write r a bs = (\<lambda>x. if unat (x - a) < length bs then bs ! unat (x - a) else r x)"

definition ram_read :: "ram \<Rightarrow> addr \<Rightarrow> nat \<Rightarrow> bytes" where
  "ram_read r a n = map (\<lambda>i. r (a + of_nat i)) [0..<n]"

lemma length_ram_read [simp]: "length (ram_read r a n) = n"
  by (simp add: ram_read_def)

lemma ram_write_Nil [simp]: "ram_write r a [] = r"
  by (simp add: ram_write_def)

lemma unat_diff_Suc:
  "x \<noteq> a \<Longrightarrow> unat (x - a) = Suc (unat (x - (a + 1)))" for x a :: addr
proof -
  assume "x \<noteq> a"
  then have "x - a \<noteq> 0" by simp
  then have "unat (x - a) = Suc (unat (x - a - 1))"
    using unat_minus_one [of "x - a"] by (simp add: unat_gt_0)
  then show ?thesis by (simp add: diff_diff_eq)
qed

lemma ram_write_Cons:
  assumes "length bs < 2 ^ 64 - 1"
  shows "ram_write r a (b # bs) = ram_write (r(a := b)) (a + 1) bs"
proof
  fix x :: addr
  show "ram_write r a (b # bs) x = ram_write (r(a := b)) (a + 1) bs x"
  proof (cases "x = a")
    case True
    have "unat (- 1 :: addr) = 2 ^ 64 - 1" by (simp add: unsigned_minus_1_eq_mask mask_eq_exp_minus_1)
    then show ?thesis using True assms by (simp add: ram_write_def)
  next
    case False
    then show ?thesis by (simp add: ram_write_def unat_diff_Suc)
  qed
qed

lemma ram_read_write_same:
  assumes "length bs \<le> 2 ^ 64"
  shows "ram_read (ram_write r a bs) a (length bs) = bs"
proof (rule nth_equalityI)
  fix i assume "i < length (ram_read (ram_write r a bs) a (length bs))"
  then have i: "i < length bs" by simp
  with assms have "unat (of_nat i :: addr) = i"
    by (intro unat_of_nat_u64) simp
  then show "ram_read (ram_write r a bs) a (length bs) ! i = bs ! i"
    using i by (simp add: ram_read_def ram_write_def)
qed simp

lemma memset_loop_write: "n < 2 ^ 64 \<Longrightarrow> memset_loop n p c r = ram_write r p (replicate n c)"
proof (induction n arbitrary: p r)
  case 0
  then show ?case by simp
next
  case (Suc n)
  then show ?case by (simp add: ram_write_Cons)
qed

lemma memset_write: "memset s c n r = ram_write r s (replicate (unat n) c)"
  unfolding memset_def by (rule memset_loop_write) (use unat_u64_less [of n] in simp)

lemma ram_read_Suc: "ram_read r a (Suc n) = r a # ram_read r (a + 1) n"
  by (simp add: ram_read_def upt_conv_Cons map_Suc_upt [symmetric] o_def ac_simps
      del: upt_Suc)

lemma ram_read_upd_other: "n \<le> unat (x - a) \<Longrightarrow> ram_read (r(x := v)) a n = ram_read r a n"
  for x a :: addr
proof (rule nth_equalityI)
  fix i assume n: "n \<le> unat (x - a)" and "i < length (ram_read (r(x := v)) a n)"
  then have i: "i < n" by simp
  have "a + of_nat i \<noteq> x"
  proof
    assume "a + of_nat i = x"
    then have "x - a = of_nat i" by auto
    moreover have "unat (of_nat i :: addr) \<le> i" by (simp add: unat_of_nat)
    ultimately show False using n i by simp
  qed
  then show "ram_read (r(x := v)) a n ! i = ram_read r a n ! i"
    using i by (simp add: ram_read_def)
qed simp

text \<open>
  memcpy copies forward, so it is a block copy as long as the destination does not start
  inside the source behind its first byte.
\<close>

lemma memcpy_loop_write:
  "n < 2 ^ 64 \<Longrightarrow> n \<le> unat (d - s) \<Longrightarrow> memcpy_loop n d s r = ram_write r d (ram_read r s n)"
  for d s :: addr
proof (induction n arbitrary: d s r)
  case 0
  then show ?case by (simp add: ram_read_def)
next
  case (Suc n)
  have eq: "d + 1 - (s + 1) = d - s" by simp
  have "unat (d - s) \<noteq> 0" using Suc.prems by simp
  then have ne: "d \<noteq> s" by auto
  have sep: "n \<le> unat (d - (s + 1))"
    using Suc.prems unat_diff_Suc [OF ne] by simp
  have "memcpy_loop (Suc n) d s r = ram_write (r(d := r s)) (d + 1) (ram_read (r(d := r s)) (s + 1) n)"
    using Suc.IH [of "d + 1" "s + 1"] Suc.prems by (simp add: eq)
  also have "ram_read (r(d := r s)) (s + 1) n = ram_read r (s + 1) n"
    by (rule ram_read_upd_other) (rule sep)
  also have "ram_write (r(d := r s)) (d + 1) (ram_read r (s + 1) n)
      = ram_write r d (ram_read r s (Suc n))"
    using Suc.prems by (simp add: ram_read_Suc ram_write_Cons)
  finally show ?case .
qed

end
