(* ===== verification/Cstring.thy ===== *)
theory Cstring
  imports Utils "HOL-Library.Sublist"
begin

text \<open>
  The string half of src/AetherWebOS/src/common/utils.c: C strings in fixed buffers, the number
  printers and the minimal snprintf. A buffer is the list of all the bytes of its object; a
  store past its end is the fault \<^term>\<open>None\<close>, and so is a scan that meets no terminator.
  A string that is only read is the memory from its pointer on, terminator included.
\<close>

section \<open>Single stores, and blocks of them\<close>

definition put :: "bytes \<Rightarrow> nat \<Rightarrow> u8 \<Rightarrow> bytes option" where
  "put buf i c = (if i < length buf then Some (buf[i := c]) else None)"

definition splice :: "bytes \<Rightarrow> nat \<Rightarrow> bytes \<Rightarrow> bytes" where
  "splice buf p ws = take p buf @ ws @ drop (p + length ws) buf"

lemma length_splice [simp]: "p + length ws \<le> length buf \<Longrightarrow> length (splice buf p ws) = length buf"
  by (simp add: splice_def)

lemma splice_Nil [simp]: "splice buf p [] = buf"
  by (simp add: splice_def)

lemma put_splice: "p < length buf \<Longrightarrow> put buf p c = Some (splice buf p [c])"
  by (simp add: put_def splice_def upd_conv_take_nth_drop)

lemma splice_splice_next:
  "p + length ws + length vs \<le> length buf \<Longrightarrow>
   splice (splice buf p ws) (p + length ws) vs = splice buf p (ws @ vs)"
  by (simp add: splice_def add.commute add.left_commute)

lemma splice_splice_prev:
  assumes "p + length vs + length ws \<le> length buf"
  shows "splice (splice buf (p + length vs) ws) p vs = splice buf p (vs @ ws)"
proof -
  have "take p (splice buf (p + length vs) ws) = take p buf"
    using assms by (simp add: splice_def)
  moreover have "drop (p + length vs) (splice buf (p + length vs) ws) = ws @ drop (p + length vs + length ws) buf"
    using assms by (simp add: splice_def)
  ultimately show ?thesis by (simp add: splice_def add.assoc)
qed

text \<open>The string a buffer holds.\<close>

definition cstr :: "bytes \<Rightarrow> bytes" where
  "cstr buf = takeWhile (\<lambda>c. c \<noteq> 0) buf"

lemma cstr_append_0 [simp]: "0 \<notin> set s \<Longrightarrow> cstr (s @ 0 # r) = s"
  by (induction s) (auto simp: cstr_def)

lemma cstr_no_0: "0 \<notin> set (cstr buf)"
  by (auto simp: cstr_def dest: set_takeWhileD)

lemma take_length_cstr: "take (length (cstr buf)) buf = cstr buf"
  by (simp add: cstr_def takeWhile_eq_take [symmetric])

lemma cstr_splice_end:
  "0 \<notin> set ws \<Longrightarrow> cstr (splice buf (length (cstr buf)) (ws @ [0])) = cstr buf @ ws"
proof -
  assume ws: "0 \<notin> set ws"
  have "splice buf (length (cstr buf)) (ws @ [0])
      = (cstr buf @ ws) @ 0 # drop (length (cstr buf) + length (ws @ [0])) buf"
    by (simp add: splice_def take_length_cstr)
  then show ?thesis using ws cstr_no_0 [of buf] by (metis cstr_append_0 Un_iff set_append)
qed

section \<open>str\_len, str\_clear, str\_append\<close>

fun str_len_loop :: "bytes \<Rightarrow> u32 \<Rightarrow> u32 option" where
  "str_len_loop [] len = None"
| "str_len_loop (c # cs) len = (if c = 0 then Some len else str_len_loop cs (len + 1))"

definition str_len :: "bytes \<Rightarrow> u32 option" where
  "str_len s = str_len_loop s 0"

definition str_clear :: "bytes option \<Rightarrow> bytes option option" where
  "str_clear s = (case s of None \<Rightarrow> Some None | Some buf \<Rightarrow> map_option Some (put buf 0 0))"

text \<open>The scan to the terminator, and the copy that ends with one.\<close>

primrec str_end :: "bytes \<Rightarrow> nat option" where
  "str_end [] = None"
| "str_end (c # cs) = (if c = 0 then Some 0 else map_option Suc (str_end cs))"

fun str_copy :: "bytes \<Rightarrow> nat \<Rightarrow> bytes \<Rightarrow> bytes option" where
  "str_copy [] p buf = None"
| "str_copy (c # cs) p buf =
     (if c = 0 then put buf p 0
      else do { buf \<leftarrow> put buf p c; str_copy cs (p + 1) buf })"

text \<open>\<open>None\<close> as an argument is the NULL pointer, on which the code returns at once.\<close>

definition str_append :: "bytes option \<Rightarrow> bytes option \<Rightarrow> bytes option option" where
  "str_append s data =
     (case (s, data) of
        (Some buf, Some d) \<Rightarrow> do { p \<leftarrow> str_end buf; buf' \<leftarrow> str_copy d p buf; Some (Some buf') }
      | _ \<Rightarrow> Some s)"

lemma str_len_loop_terminated:
  "0 \<notin> set s \<Longrightarrow> str_len_loop (s @ 0 # r) len = Some (len + of_nat (length s))"
  by (induction s arbitrary: len) (auto simp: add.commute add.left_commute)

lemma str_end_cstr: "str_end buf = (if 0 \<in> set buf then Some (length (cstr buf)) else None)"
  by (induction buf) (auto simp: cstr_def)

lemma str_copy_splice:
  "0 \<notin> set s \<Longrightarrow> str_copy (s @ 0 # r) p buf =
     (if p + length s < length buf then Some (splice buf p (s @ [0])) else None)"
proof (induction s arbitrary: p buf)
  case Nil
  then show ?case by (simp add: put_splice) (simp add: put_def)
next
  case (Cons c s)
  show ?case
  proof (cases "p < length buf")
    case True
    then have "splice (splice buf p [c]) (p + 1) (s @ [0]) = splice buf p (c # s @ [0])"
      if "p + length (c # s) < length buf"
      using that splice_splice_next [of p "[c]" "s @ [0]" buf] by simp
    moreover have "length (splice buf p [c]) = length buf" using True by simp
    ultimately show ?thesis
      using Cons True by (auto simp: put_splice)
  next
    case False
    then show ?thesis using Cons.prems by (simp add: put_def)
  qed
qed

lemma str_append_splice:
  assumes "0 \<in> set buf" and "0 \<notin> set s"
  shows "str_append (Some buf) (Some (s @ 0 # r)) =
     (if length (cstr buf) + length s < length buf
      then Some (Some (splice buf (length (cstr buf)) (s @ [0]))) else None)"
  using assms by (simp add: str_append_def str_end_cstr str_copy_splice)

section \<open>Number printers\<close>

definition digit :: "nat \<Rightarrow> u8" where
  "digit n = of_nat (n mod 10) + 48"

text \<open>\<open>ltoa\<close>: count the digits to find the end, store the terminator, fill backwards.\<close>

function ltoa_count :: "nat \<Rightarrow> nat \<Rightarrow> nat" where
  "ltoa_count tmp p = (if tmp div 10 = 0 then p + 1 else ltoa_count (tmp div 10) (p + 1))"
  by pat_completeness auto
termination
  by (relation "measure fst") auto

function ltoa_fill :: "nat \<Rightarrow> nat \<Rightarrow> bytes \<Rightarrow> bytes option" where
  "ltoa_fill num p buf =
     (case put buf p (digit num) of
        None \<Rightarrow> None
      | Some buf \<Rightarrow>
          if num div 10 = 0 then Some buf
          else if p = 0 then None
          else ltoa_fill (num div 10) (p - 1) buf)"
  by pat_completeness auto
termination
  by (relation "measure fst") auto

declare ltoa_count.simps [simp del] ltoa_fill.simps [simp del]

definition ltoa :: "u64 \<Rightarrow> nat \<Rightarrow> bytes \<Rightarrow> (nat \<times> bytes) option" where
  "ltoa num s buf =
     (let p = ltoa_count (unat num) s
      in do { buf \<leftarrow> put buf p 0; buf \<leftarrow> ltoa_fill (unat num) (p - 1) buf; Some (p, buf) })"

lemma dec_str_step: "dec_str n = (if n div 10 = 0 then [] else dec_str (n div 10)) @ [digit n]"
  by (auto simp: dec_str_def dec_digits_rev.simps [of n] dec_digits_rev.simps [of 0] digit_def)

lemma ltoa_count_length: "ltoa_count n p = p + length (dec_str n)"
proof (induction n p rule: ltoa_count.induct)
  case (1 n p)
  then show ?case
    by (simp add: ltoa_count.simps [of n] dec_str_step [of n])
qed

lemma ltoa_fill_splice:
  "p + length (dec_str n) \<le> length buf \<Longrightarrow>
   ltoa_fill n (p + length (dec_str n) - 1) buf = Some (splice buf p (dec_str n))"
proof (induction n "p + length (dec_str n) - 1" buf rule: ltoa_fill.induct)
  case (1 n buf)
  let ?q = "p + length (dec_str n) - 1"
  have len: "length (dec_str n) = Suc (length (if n div 10 = 0 then [] else dec_str (n div 10)))"
    by (subst dec_str_step) simp
  have q: "?q < length buf" using 1 len by simp
  show ?case
  proof (cases "n div 10 = 0")
    case True
    with q len show ?thesis
      by (simp add: ltoa_fill.simps [of n] put_splice dec_str_step [of n])
  next
    case False
    let ?ds = "dec_str (n div 10)"
    have ds: "0 < length ?ds" using dec_str_not_Nil [of "n div 10"] by simp
    have len': "length (dec_str n) = Suc (length ?ds)" using len False by simp
    have q_eq: "?q = p + length ?ds" using len' by simp
    have "ltoa_fill (n div 10) (?q - 1) (splice buf ?q [digit n])
        = Some (splice (splice buf ?q [digit n]) p ?ds)"
      using "1.hyps" [of "splice buf ?q [digit n]"] q ds False by (simp add: put_splice len')
    also have "splice (splice buf ?q [digit n]) p ?ds = splice buf p (?ds @ [digit n])"
      unfolding q_eq using q q_eq by (intro splice_splice_prev) simp
    finally show ?thesis
      using q q_eq ds False by (simp add: ltoa_fill.simps [of n] put_splice dec_str_step [of n])
  qed
qed

lemma ltoa_splice:
  assumes "p + length (dec_str (unat n)) < length buf"
  shows "ltoa n p buf = Some (p + length (dec_str (unat n)), splice buf p (dec_str (unat n) @ [0]))"
proof -
  let ?ds = "dec_str (unat n)"
  let ?b = "splice buf (p + length ?ds) [0]"
  have "ltoa_fill (unat n) (p + length ?ds - 1) ?b = Some (splice ?b p ?ds)"
    by (rule ltoa_fill_splice) (use assms in simp)
  moreover have "splice ?b p ?ds = splice buf p (?ds @ [0])"
    using assms by (intro splice_splice_prev) simp
  ultimately show ?thesis
    using assms by (simp add: ltoa_def ltoa_count_length put_splice)
qed

section \<open>Telemetry JSON\<close>

text \<open>\<open>while (*k) *p++ = *k++\<close>: the key's characters go to the output, its terminator does not.\<close>

fun put_key :: "bytes \<Rightarrow> nat \<Rightarrow> bytes \<Rightarrow> (nat \<times> bytes) option" where
  "put_key [] p buf = None"
| "put_key (c # cs) p buf =
     (if c = 0 then Some (p, buf) else do { buf \<leftarrow> put buf p c; put_key cs (p + 1) buf })"

fun telemetry_loop :: "(bytes \<times> u64) list \<Rightarrow> nat \<Rightarrow> bytes \<Rightarrow> (nat \<times> bytes) option" where
  "telemetry_loop [] p buf = Some (p, buf)"
| "telemetry_loop ((k, v) # kvs) p buf =
     do { (p, buf) \<leftarrow> put_key k p buf; (p, buf) \<leftarrow> ltoa v p buf; telemetry_loop kvs p buf }"

definition telemetry_keys :: "bytes list" where
  "telemetry_keys = map str
     [''{\"rx\":'', '',\"tx\":'', '',\"err\":'', '',\"buf\":'',
      '',\"tcp_active\":'', '',\"retransmissions\":'', '',\"checksum_err\":'']"

definition mini_sprintf_telemetry ::
  "bytes \<Rightarrow> u64 \<Rightarrow> u64 \<Rightarrow> u64 \<Rightarrow> u64 \<Rightarrow> u64 \<Rightarrow> u64 \<Rightarrow> u64 \<Rightarrow> bytes option" where
  "mini_sprintf_telemetry out rx tx err buf tcp rexmit cksum =
     do { (p, out) \<leftarrow> telemetry_loop
            (zip (map (\<lambda>k. k @ [0]) telemetry_keys) [rx, tx, err, buf, tcp, rexmit, cksum]) 0 out;
          out \<leftarrow> put out p 125;
          put out (p + 1) 0 }"

definition json_text :: "(bytes \<times> u64) list \<Rightarrow> bytes" where
  "json_text kvs = concat (map (\<lambda>(k, v). k @ dec_str (unat v)) kvs)"

lemma put_key_splice:
  "0 \<notin> set k \<Longrightarrow> p + length k \<le> length buf \<Longrightarrow>
   put_key (k @ [0]) p buf = Some (p + length k, splice buf p k)"
proof (induction k arbitrary: p buf)
  case Nil
  then show ?case by simp
next
  case (Cons c k)
  then show ?case
    using splice_splice_next [of p "[c]" k buf] by (simp add: put_splice)
qed

lemma splice_prefix_cong:
  assumes "p + length (ws @ [x]) \<le> length buf" and "vs \<noteq> []"
    and "p + length ws + length vs \<le> length buf"
  shows "splice (splice buf p (ws @ [x])) (p + length ws) vs = splice buf p (ws @ vs)"
proof -
  have "take (p + length ws) (splice buf p (ws @ [x])) = take p buf @ ws"
    using assms by (simp add: splice_def)
  moreover have "drop (p + length ws + length vs) (splice buf p (ws @ [x]))
      = drop (p + length ws + length vs) buf"
    using assms by (cases vs) (auto simp: splice_def ac_simps)
  ultimately show ?thesis by (simp add: splice_def add.assoc)
qed

text \<open>
  After the loop the output holds the text so far; the byte behind it is the terminator of the
  last \<open>ltoa\<close>, which the next key or the closing brace overwrites.
\<close>

lemma telemetry_loop_splice:
  "\<forall>(k, v) \<in> set kvs. 0 \<notin> set k \<and> k \<noteq> [] \<Longrightarrow> kvs \<noteq> [] \<Longrightarrow>
   p + length (json_text kvs) < length buf \<Longrightarrow>
   telemetry_loop (map (\<lambda>(k, v). (k @ [0], v)) kvs) p buf =
     Some (p + length (json_text kvs), splice buf p (json_text kvs @ [0]))"
proof (induction kvs arbitrary: p buf)
  case Nil
  then show ?case by simp
next
  case (Cons kv kvs)
  obtain k v where kv: "kv = (k, v)" by (cases kv)
  let ?d = "dec_str (unat v)" and ?j = "json_text kvs"
  let ?b = "splice buf p ((k @ ?d) @ [0])"
  have k: "0 \<notin> set k" using Cons.prems kv by auto
  have j: "json_text (kv # kvs) = k @ ?d @ ?j" by (simp add: json_text_def kv)
  have len: "p + length k + length ?d + length ?j < length buf" using Cons.prems j by simp
  have head: "telemetry_loop (map (\<lambda>(k, v). (k @ [0], v)) (kv # kvs)) p buf
      = telemetry_loop (map (\<lambda>(k, v). (k @ [0], v)) kvs) (p + length (k @ ?d)) ?b"
    using len k splice_splice_next [of p k "?d @ [0]" buf]
    by (simp add: kv put_key_splice ltoa_splice add.assoc)
  show ?case
  proof (cases "kvs = []")
    case True
    then show ?thesis using head by (simp add: json_text_def kv)
  next
    case False
    then obtain k' v' kvs' where kvs: "kvs = (k', v') # kvs'" by (cases kvs) auto
    have "?j \<noteq> []" by (simp add: json_text_def kvs dec_str_not_Nil)
    have "telemetry_loop (map (\<lambda>(k, v). (k @ [0], v)) kvs) (p + length (k @ ?d)) ?b
        = Some (p + length (k @ ?d) + length ?j, splice ?b (p + length (k @ ?d)) (?j @ [0]))"
      by (rule Cons.IH) (use Cons.prems False len in auto)
    also have "splice ?b (p + length (k @ ?d)) (?j @ [0]) = splice buf p ((k @ ?d) @ ?j @ [0])"
      by (rule splice_prefix_cong) (use len in auto)
    finally show ?thesis using head by (simp add: j add.assoc)
  qed
qed

definition telemetry_text :: "u64 \<Rightarrow> u64 \<Rightarrow> u64 \<Rightarrow> u64 \<Rightarrow> u64 \<Rightarrow> u64 \<Rightarrow> u64 \<Rightarrow> bytes" where
  "telemetry_text rx tx err buf tcp rexmit cksum =
     json_text (zip telemetry_keys [rx, tx, err, buf, tcp, rexmit, cksum]) @ [125]"

lemmas str_eval = str_def byte_of_char_def

lemma telemetry_keys_ok: "\<forall>k \<in> set telemetry_keys. 0 \<notin> set k \<and> k \<noteq> []"
  by (simp add: telemetry_keys_def str_eval)

lemma zip_keys_terminated:
  "zip (map (\<lambda>k. k @ [0]) ks) vs = map (\<lambda>(k, v). (k @ [0], v)) (zip ks vs)"
  by (simp add: zip_map1)

lemma json_text_no_0: "\<forall>(k, v) \<in> set kvs. 0 \<notin> set k \<Longrightarrow> 0 \<notin> set (json_text kvs)"
  by (induction kvs) (auto simp: json_text_def dec_str_nonzero)

lemma mini_sprintf_telemetry_splice:
  assumes "length (telemetry_text rx tx err b tcp rexmit cksum) < length out"
  shows "mini_sprintf_telemetry out rx tx err b tcp rexmit cksum =
    Some (splice out 0 (telemetry_text rx tx err b tcp rexmit cksum @ [0]))"
proof -
  let ?kvs = "zip telemetry_keys [rx, tx, err, b, tcp, rexmit, cksum]"
  let ?t = "json_text ?kvs"
  let ?b1 = "splice out 0 (?t @ [0])"
  have len: "length ?t + 1 < length out" using assms by (simp add: telemetry_text_def)
  have kvs: "\<forall>(k, v) \<in> set ?kvs. 0 \<notin> set k \<and> k \<noteq> []"
    using telemetry_keys_ok by (auto dest: set_zip_leftD)
  have "?kvs \<noteq> []" by (simp add: telemetry_keys_def)
  then have "telemetry_loop (map (\<lambda>(k, v). (k @ [0], v)) ?kvs) 0 out = Some (length ?t, ?b1)"
    using telemetry_loop_splice [OF kvs, of 0 out] len by simp
  moreover have "splice ?b1 (length ?t) [125] = splice out 0 (?t @ [125])"
    using splice_prefix_cong [of 0 ?t 0 out "[125]"] len by simp
  moreover have "splice (splice out 0 (?t @ [125])) (length ?t + 1) [0] = splice out 0 ((?t @ [125]) @ [0])"
    using splice_splice_next [of 0 "?t @ [125]" "[0]" out] len by simp
  ultimately show ?thesis
    using len by (simp add: mini_sprintf_telemetry_def zip_keys_terminated put_splice telemetry_text_def)
qed

section \<open>str\_append\_kv\_int\<close>

text \<open>The digits are stored lowest first and the buffer is reversed in place by swaps.\<close>

definition swap_ends :: "nat \<Rightarrow> nat \<Rightarrow> bytes \<Rightarrow> bytes" where
  "swap_ends i j b = b[j := b ! (i - j - 1), i - j - 1 := b ! j]"

definition reverse_in_place :: "bytes \<Rightarrow> bytes" where
  "reverse_in_place b = fold (swap_ends (length b)) [0..<length b div 2] b"

definition kv_digits :: "u64 \<Rightarrow> bytes" where
  "kv_digits value = reverse_in_place (if value = 0 then [48] else dec_digits_rev (unat value))"

definition str_append_kv_int :: "bytes option \<Rightarrow> bytes option \<Rightarrow> u64 \<Rightarrow> bytes option option" where
  "str_append_kv_int s key value =
     do { s \<leftarrow> str_append s (Some (str ''\"'' @ [0]));
          s \<leftarrow> str_append s key;
          s \<leftarrow> str_append s (Some (str ''\":'' @ [0]));
          s \<leftarrow> str_append s (Some (kv_digits value @ [0]));
          str_append s (Some (str '','' @ [0])) }"

lemma length_fold_swap [simp]: "length (fold (swap_ends i) js b) = length b"
  by (induction js arbitrary: b) (simp_all add: swap_ends_def)

lemma fold_swap_nth:
  "2 * m \<le> length b \<Longrightarrow> k < length b \<Longrightarrow>
   fold (swap_ends (length b)) [0..<m] b ! k =
     (if k < m \<or> length b - m \<le> k then b ! (length b - 1 - k) else b ! k)"
proof (induction m arbitrary: k)
  case 0
  then show ?case by simp
next
  case (Suc m)
  let ?c = "fold (swap_ends (length b)) [0..<m] b"
  have m: "m < length b" "length b - m - 1 < length b" "m \<noteq> length b - m - 1" using Suc.prems by auto
  have cm: "?c ! m = b ! m" "?c ! (length b - m - 1) = b ! (length b - m - 1)"
    using Suc.IH [of m] Suc.IH [of "length b - m - 1"] Suc.prems m by auto
  have "fold (swap_ends (length b)) [0..<Suc m] b = swap_ends (length b) m ?c" by simp
  then have "fold (swap_ends (length b)) [0..<Suc m] b ! k =
      (if k = length b - m - 1 then b ! m else if k = m then b ! (length b - m - 1) else ?c ! k)"
    using Suc.prems m cm by (simp add: swap_ends_def nth_list_update)
  then show ?case
    using Suc.IH [of k] Suc.prems m by auto
qed

lemma reverse_in_place_rev: "reverse_in_place b = rev b"
proof (rule nth_equalityI)
  fix k assume "k < length (reverse_in_place b)"
  then have k: "k < length b" by (simp add: reverse_in_place_def)
  have mid: "b ! k = b ! (length b - 1 - k)"
    if "\<not> k < length b div 2" "\<not> length b - length b div 2 \<le> k"
  proof -
    have "length b - 1 - k = k" using that k by linarith
    then show ?thesis by simp
  qed
  show "reverse_in_place b ! k = rev b ! k"
    using fold_swap_nth [of "length b div 2" b k] k mid
    by (auto simp: reverse_in_place_def rev_nth)
qed (simp add: reverse_in_place_def)

lemma kv_digits_dec_str: "kv_digits value = dec_str (unat value)"
  by (simp add: kv_digits_def reverse_in_place_rev dec_str_def unat_eq_0)

section \<open>str\_contains\<close>

fun match_loop :: "bytes \<Rightarrow> bytes \<Rightarrow> bool" where
  "match_loop [] hs = True"
| "match_loop (n # ns) [] = False"
| "match_loop (n # ns) (h # hs) = (if h = n then match_loop ns hs else False)"

fun contains_loop :: "bytes \<Rightarrow> bytes \<Rightarrow> bool" where
  "contains_loop [] needle = False"
| "contains_loop (h # hs) needle =
     (if match_loop needle (h # hs) then True else contains_loop hs needle)"

definition str_contains :: "bytes option \<Rightarrow> bytes option \<Rightarrow> bool" where
  "str_contains haystack needle =
     (case (haystack, needle) of (Some h, Some n) \<Rightarrow> contains_loop h n | _ \<Rightarrow> False)"

lemma match_loop_prefix: "match_loop ns hs = prefix ns hs"
  by (induction ns hs rule: match_loop.induct) auto

lemma contains_loop_sublist: "contains_loop h n \<longleftrightarrow> h \<noteq> [] \<and> sublist n h"
proof (induction h)
  case Nil
  then show ?case by simp
next
  case (Cons x h)
  have "n = [] \<or> h \<noteq> [] \<or> \<not> sublist n h" by auto
  then show ?case
    using Cons by (auto simp: match_loop_prefix sublist_Cons_right)
qed

section \<open>ksnprintf\<close>

definition utoa_dec :: "u32 \<Rightarrow> bytes" where
  "utoa_dec value =
     (if value = 0 then [48]
      else let tmp = dec_digits_rev (unat value); len = length tmp
           in map (\<lambda>j. tmp ! (len - j - 1)) [0..<len])"

text \<open>One variadic argument: an unsigned or signed int, or the memory of a string.\<close>

datatype karg = UArg u32 | DArg u32 | SArg bytes

fun put_str_arg :: "bytes \<Rightarrow> nat \<Rightarrow> bytes \<Rightarrow> (nat \<times> bytes) option" where
  "put_str_arg [] r out = None"
| "put_str_arg (c # cs) r out =
     (if c \<noteq> 0 \<and> r > 0 then put_str_arg cs (r - 1) (out @ [c]) else Some (r, out))"

text \<open>
  The loop over the format: the bytes still to read, the arguments left, the room left and the
  output so far. Negating the least int overflows and is a fault; so is a format that ends with
  a percent sign, whose scan steps over the terminator.
\<close>

function ksn_loop :: "bytes \<Rightarrow> karg list \<Rightarrow> nat \<Rightarrow> bytes \<Rightarrow> bytes option" where
  "ksn_loop [] args r out = None"
| "ksn_loop (c # fmt) args r out =
     (if c = 0 \<or> r = 0 then Some out
      else if c \<noteq> 37 then ksn_loop fmt args (r - 1) (out @ [c])
      else case fmt of
        [] \<Rightarrow> None
      | d # fmt' \<Rightarrow>
          if d = 0 then None
          else if d = 117 then
            (case args of
               UArg v # args' \<Rightarrow>
                 ksn_loop fmt' args' (r - length (take r (utoa_dec v))) (out @ take r (utoa_dec v))
             | _ \<Rightarrow> None)
          else if d = 100 then
            (case args of
               DArg v # args' \<Rightarrow>
                 if sint v = - (2 ^ 31) then None
                 else
                   let neg = sint v < 0;
                       out1 = (if neg then out @ [45] else out);
                       r1 = (if neg then r - 1 else r);
                       ds = take r1 (utoa_dec (if neg then - v else v))
                   in ksn_loop fmt' args' (r1 - length ds) (out1 @ ds)
             | _ \<Rightarrow> None)
          else if d = 115 then
            (case args of
               SArg s # args' \<Rightarrow>
                 (case put_str_arg s r out of
                    None \<Rightarrow> None
                  | Some (r', out') \<Rightarrow> ksn_loop fmt' args' r' out')
             | _ \<Rightarrow> None)
          else ksn_loop fmt' args r out)"
  by pat_completeness auto
termination
  by (relation "measure (\<lambda>(fmt, _). length fmt)") auto

text \<open>
  The result is the text, which goes to \<open>out\<close> with a terminator behind it, and the return
  value is its length. A NULL or empty output returns 0 and stores nothing.
\<close>

definition ksnprintf :: "bytes option \<Rightarrow> u32 \<Rightarrow> bytes \<Rightarrow> karg list \<Rightarrow> (bytes option \<times> nat) option" where
  "ksnprintf out out_size fmt args =
     (case out of
        None \<Rightarrow> Some (None, 0)
      | Some buf \<Rightarrow>
          if out_size = 0 then Some (Some buf, 0)
          else do { text \<leftarrow> ksn_loop fmt args (unat out_size - 1) [];
                    (if length text < length buf
                     then Some (Some (splice buf 0 (text @ [0])), length text) else None) })"

lemma utoa_dec_dec_str: "utoa_dec v = dec_str (unat v)"
proof -
  have "map (\<lambda>j. tmp ! (length tmp - j - 1)) [0..<length tmp] = rev tmp" for tmp :: bytes
    by (rule nth_equalityI) (simp_all add: rev_nth)
  then show ?thesis by (simp add: utoa_dec_def dec_str_def unat_eq_0 Let_def)
qed

lemma put_str_arg_room: "put_str_arg s r out = Some (r', out') \<Longrightarrow> length out' + r' = length out + r"
  by (induction s r out rule: put_str_arg.induct) (auto split: if_splits)

lemma ksn_loop_bound: "ksn_loop fmt args r out = Some text \<Longrightarrow> length text \<le> length out + r"
proof (induction "length fmt" arbitrary: fmt args r out rule: less_induct)
  case less
  have IH: "ksn_loop f a q o' = Some text \<Longrightarrow> length f < length fmt \<Longrightarrow> length text \<le> length o' + q"
    for f a q o'
    by (rule less.hyps)
  show ?case
  proof (cases fmt)
    case Nil
    then show ?thesis using less.prems by simp
  next
    case (Cons c f)
    then show ?thesis
      using less.prems
      by (auto split: if_splits list.splits karg.splits option.splits simp: Let_def
          dest!: IH put_str_arg_room)
  qed
qed

section \<open>Properties\<close>

text \<open>
  \<open>str_append\<close> on a terminated buffer and a terminated string: when the joined text and
  its terminator fit, the buffer then holds the old text followed by the appended one, in the
  same object; when they do not fit, and only then, the code writes outside the buffer.
\<close>

lemma str_append_correct:
  assumes "0 \<in> set buf" and "0 \<notin> set s"
  shows "(str_append (Some buf) (Some (s @ 0 # r)) = None) = (length buf \<le> length (cstr buf) + length s)
    \<and> (\<forall>res. str_append (Some buf) (Some (s @ 0 # r)) = Some res \<longrightarrow>
        (\<exists>buf'. res = Some buf' \<and> cstr buf' = cstr buf @ s \<and> length buf' = length buf))"
  using assms by (auto simp: str_append_splice cstr_splice_end split: if_splits)

text \<open>
  The telemetry export writes exactly the JSON object with the seven keys and the decimal
  values of the seven counters, terminated, into any buffer that is large enough.
\<close>

lemma telemetry_json_text:
  assumes "length (telemetry_text rx tx err b tcp rexmit cksum) < length out"
  shows "\<exists>out'. mini_sprintf_telemetry out rx tx err b tcp rexmit cksum = Some out'
    \<and> cstr out' = telemetry_text rx tx err b tcp rexmit cksum \<and> length out' = length out"
proof (intro exI conjI)
  let ?t = "telemetry_text rx tx err b tcp rexmit cksum"
  show "mini_sprintf_telemetry out rx tx err b tcp rexmit cksum = Some (splice out 0 (?t @ [0]))"
    by (rule mini_sprintf_telemetry_splice [OF assms])
  have "0 \<notin> set ?t"
    using json_text_no_0 [of "zip telemetry_keys [rx, tx, err, b, tcp, rexmit, cksum]"]
      telemetry_keys_ok by (auto simp: telemetry_text_def dest: set_zip_leftD)
  then show "cstr (splice out 0 (?t @ [0])) = ?t" by (simp add: splice_def)
  show "length (splice out 0 (?t @ [0])) = length out" using assms by simp
qed

text \<open>
  \<open>ksnprintf\<close> never stores more than \<open>out_size\<close> bytes: when it returns, the text it
  produced is terminated, its length is the return value, and text and terminator fit into
  \<open>out_size\<close>; the rest of the buffer is untouched.
\<close>

lemma ksnprintf_bounded:
  assumes "ksnprintf (Some buf) out_size fmt args = Some (res, n)" and "out_size \<noteq> 0"
  shows "n + 1 \<le> unat out_size \<and> (\<exists>buf'. res = Some buf' \<and> length buf' = length buf
    \<and> n < length buf \<and> buf' ! n = 0 \<and> drop (n + 1) buf' = drop (n + 1) buf)"
proof -
  from assms obtain tx where t: "ksn_loop fmt args (unat out_size - 1) [] = Some tx"
    "length tx < length buf" "res = Some (splice buf 0 (tx @ [0]))" "n = length tx"
    by (auto simp: ksnprintf_def split: if_splits option.splits Option.bind_splits)
  have "length tx \<le> unat out_size - 1" using ksn_loop_bound [OF t(1)] by simp
  moreover have "0 < unat out_size" using assms(2) by (simp add: unat_gt_0)
  ultimately show ?thesis using t by (auto simp: splice_def nth_append)
qed

text \<open>
  The kernel's four decimal printers agree: the digits \<open>str_append_kv_int\<close> builds by
  reversing its buffer in place, the digits \<open>ksnprintf\<close> takes from \<open>utoa_dec\<close>, and what
  \<open>ltoa\<close> leaves in its buffer are the same canonical decimal text.
\<close>

lemma decimal_printers_agree:
  "kv_digits v = dec_str (unat v) \<and> utoa_dec w = dec_str (unat w)
   \<and> ltoa v 0 (replicate 21 0) =
       Some (length (dec_str (unat v)), splice (replicate 21 0) 0 (dec_str (unat v) @ [0]))"
proof -
  have "unat v < 10 ^ 20" by (rule order_less_le_trans [OF unat_u64_less]) simp
  then have "length (dec_str (unat v)) \<le> 20" by (intro dec_str_length) simp_all
  then show ?thesis
    using ltoa_splice [of 0 v "replicate 21 0"] by (simp add: kv_digits_dec_str utoa_dec_dec_str)
qed

text \<open>
  \<open>str_contains\<close> answers whether the needle occurs in the haystack, for every haystack
  that is not empty; the empty haystack contains nothing, not even the empty needle, and a NULL
  argument is never contained.
\<close>

lemma str_contains_correct:
  "str_contains h n = (\<exists>hs ns. h = Some hs \<and> n = Some ns \<and> hs \<noteq> [] \<and> sublist ns hs)"
  by (auto simp: str_contains_def contains_loop_sublist split: option.splits)

end
