(* ===== verification/Health.thy ===== *)
theory Health
  imports Cstring
begin

text \<open>
  The telemetry counters (src/AetherWebOS/include/kernel/health.h and src/kernel/health.c).
  The count of established connections walks the TCP list and is in the TCP theory.
\<close>

record net_stats =
  rx_packets :: u64
  tx_packets :: u64
  dropped_packets :: u64
  buffer_usage :: u64
  tcp_active :: u64
  retransmissions :: u64
  checksum_errors :: u64

definition net_stats_init :: net_stats where
  "net_stats_init = \<lparr>rx_packets = 0, tx_packets = 0, dropped_packets = 0, buffer_usage = 0,
     tcp_active = 0, retransmissions = 0, checksum_errors = 0\<rparr>"

definition health_report_checksum_error :: "net_stats \<Rightarrow> net_stats" where
  "health_report_checksum_error st =
     st\<lparr>checksum_errors := checksum_errors st + 1, dropped_packets := dropped_packets st + 1\<rparr>"

definition net_get_telemetry_json :: "net_stats \<Rightarrow> bytes \<Rightarrow> bytes option" where
  "net_get_telemetry_json st buffer =
     mini_sprintf_telemetry buffer (rx_packets st) (tx_packets st) (dropped_packets st)
       (buffer_usage st) (tcp_active st) (retransmissions st) (checksum_errors st)"

end
