(* ===== verification/Virtqueue.thy ===== *)
theory Virtqueue
  imports Health
begin

text \<open>
  The split virtqueue of the VirtIO driver (src/AetherWebOS/src/drivers/virtio/virtio_ring.c):
  a descriptor table whose unused entries form a free list, the available ring the driver fills
  and the used ring the device fills. The shared memory of the three is the arrays of the
  record; an index outside an array is a fault.
\<close>

section \<open>State\<close>

record virtq_desc =
  vd_addr :: u64
  vd_len :: u32
  vd_flags :: u16
  vd_next :: u16

record virtq_used_elem =
  ue_id :: u32
  ue_len :: u32

record virtqueue =
  vq_size :: u16
  queue_index :: u16
  desc_ptr :: addr
  avail_ptr :: addr
  used_ptr :: addr
  desc :: "virtq_desc list"
  avail_idx :: u16
  avail_ring :: "u16 list"
  used_idx :: u16
  used_ring :: "virtq_used_elem list"
  free_head :: u16
  num_free :: u16
  last_used_idx :: u16

definition VIRTQ_DESC_F_WRITE :: u16 where "VIRTQ_DESC_F_WRITE = 2"

text \<open>
  The driver's device structure, and the part of the device the queue code talks to: the queue
  select register, the registers of the common configuration that exist once per queue (an access
  goes to those of the selected queue), and the doorbell writes made so far.
\<close>

record virtio_pci_device =
  bus :: u32
  dev :: u32
  func :: u32
  common :: addr
  device :: addr
  isr :: addr
  notify_base :: addr
  notify_off_multiplier :: u32
  rx_vq :: bool
  tx_vq :: bool

record virtio_queue_regs =
  queue_size :: u16
  queue_enable :: u16
  queue_notify_off :: u16
  queue_desc_lo :: u32
  queue_desc_hi :: u32
  queue_avail_lo :: u32
  queue_avail_hi :: u32
  queue_used_lo :: u32
  queue_used_hi :: u32

record virtio_hw =
  queue_select :: u16
  queues :: "u16 \<Rightarrow> virtio_queue_regs"
  doorbells :: "(addr \<times> u16) list"

section \<open>Operations\<close>

definition get_phys :: "addr \<Rightarrow> u64" where
  "get_phys virt = virt"

definition virtqueue_notify :: "virtio_pci_device \<Rightarrow> u16 \<Rightarrow> virtio_hw \<Rightarrow> virtio_hw" where
  "virtqueue_notify vdev qi hw =
     (let hw = hw\<lparr>queue_select := qi\<rparr>;
          notify_off = queue_notify_off (queues hw (queue_select hw));
          notify_addr = notify_base vdev + ucast (ucast notify_off * notify_off_multiplier vdev)
      in hw\<lparr>doorbells := doorbells hw @ [(notify_addr, qi)]\<rparr>)"

text \<open>
  Initialisation lays the three areas out from \<open>p\<close> and links the descriptors. The arrays of the
  argument are the memory behind \<open>p\<close>; a queue of size 0 would store before the table.
\<close>

definition link_next :: "nat \<Rightarrow> virtq_desc list \<Rightarrow> virtq_desc list" where
  "link_next i d = d[i := (d ! i)\<lparr>vd_next := of_nat (i + 1)\<rparr>]"

definition virtqueue_init :: "virtqueue \<Rightarrow> u16 \<Rightarrow> u16 \<Rightarrow> addr \<Rightarrow> virtqueue option" where
  "virtqueue_init vq n index p =
     (let base = p;
          dp = base;
          base = base + 16 * ucast n;
          ap = base;
          base = base + (2 + 2 + 2 * ucast n + 2);
          base = (base + 3) AND NOT 3;
          up = base;
          d = fold link_next [0..<unat n - 1] (desc vq)
      in if n = 0 \<or> length (desc vq) < unat n then None
         else Some (vq\<lparr>vq_size := n, queue_index := index, desc_ptr := dp, avail_ptr := ap,
           used_ptr := up, free_head := 0, num_free := n,
           desc := d[unat n - 1 := (d ! (unat n - 1))\<lparr>vd_next := 0xFFFF\<rparr>],
           last_used_idx := 0\<rparr>))"

definition virtqueue_add_descriptor ::
  "virtqueue \<Rightarrow> u64 \<Rightarrow> u32 \<Rightarrow> u16 \<Rightarrow> net_stats \<Rightarrow> (u16 \<times> virtqueue \<times> net_stats) option" where
  "virtqueue_add_descriptor vq virt_addr len flags st =
     (if num_free vq = 0 then Some (0xFFFF, vq, st)
      else
        let head = free_head vq in
        if length (desc vq) \<le> unat head then None
        else Some (head,
          vq\<lparr>free_head := vd_next (desc vq ! unat head),
             num_free := num_free vq - 1,
             desc := (desc vq)[unat head :=
               \<lparr>vd_addr = get_phys virt_addr, vd_len = len, vd_flags = flags, vd_next = 0\<rparr>]\<rparr>,
          st\<lparr>buffer_usage := buffer_usage st + 1\<rparr>))"

text \<open>Registering a queue with the device: size, the six address halves, then enable.\<close>

definition virtio_pci_bind_queue :: "virtqueue \<Rightarrow> uart \<Rightarrow> virtio_hw \<Rightarrow> uart \<times> virtio_hw" where
  "virtio_pci_bind_queue vq u hw =
     (let hw = hw\<lparr>queue_select := queue_index vq\<rparr>;
          u = uart_puts (str ''[VIRTIO] Binding queue '') u;
          u = uart_put_int (ucast (queue_index vq)) u;
          u = uart_puts crlf u;
          q = queues hw (queue_select hw);
          q = q\<lparr>queue_size := vq_size vq\<rparr>;
          desc_phys = get_phys (desc_ptr vq);
          avail_phys = get_phys (avail_ptr vq);
          used_phys = get_phys (used_ptr vq);
          q = q\<lparr>queue_desc_lo := ucast (desc_phys AND 0xFFFFFFFF),
                queue_desc_hi := ucast (drop_bit 32 desc_phys),
                queue_avail_lo := ucast (avail_phys AND 0xFFFFFFFF),
                queue_avail_hi := ucast (drop_bit 32 avail_phys),
                queue_used_lo := ucast (used_phys AND 0xFFFFFFFF),
                queue_used_hi := ucast (drop_bit 32 used_phys),
                queue_enable := 1\<rparr>;
          hw = hw\<lparr>queues := (queues hw)(queue_select hw := q)\<rparr>;
          u = uart_puts (str ''[VIRTIO] Queue enabled'' @ crlf) u
      in (u, hw))"

text \<open>
  Publishing without the doorbell is what the RX prefill does; with it, what everything else
  does.
\<close>

definition avail_publish :: "virtqueue \<Rightarrow> u16 \<Rightarrow> virtqueue option" where
  "avail_publish vq desc_head =
     (let idx = avail_idx vq in
      if vq_size vq = 0 then None
      else
        let pos = unat idx mod unat (vq_size vq) in
        if length (avail_ring vq) \<le> pos then None
        else Some (vq\<lparr>avail_ring := (avail_ring vq)[pos := desc_head], avail_idx := idx + 1\<rparr>))"

definition virtqueue_push_available ::
  "virtio_pci_device \<Rightarrow> virtqueue \<Rightarrow> u16 \<Rightarrow> virtio_hw \<Rightarrow> (virtqueue \<times> virtio_hw) option" where
  "virtqueue_push_available vdev vq desc_head hw =
     do { vq \<leftarrow> avail_publish vq desc_head;
          Some (vq, virtqueue_notify vdev (queue_index vq) hw) }"

text \<open>
  Taking a receipt: the result is \<^term>\<open>None\<close> for the code's -1, and otherwise the descriptor
  index and the length the device wrote.
\<close>

definition virtqueue_pop_used ::
  "virtqueue \<Rightarrow> net_stats \<Rightarrow> ((u16 \<times> u32) option \<times> virtqueue \<times> net_stats) option" where
  "virtqueue_pop_used vq st =
     (if last_used_idx vq = used_idx vq then Some (None, vq, st)
      else if vq_size vq = 0 then None
      else
        let pos = unat (last_used_idx vq) mod unat (vq_size vq) in
        if length (used_ring vq) \<le> pos then None
        else
          let receipt = used_ring vq ! pos;
              desc_id = ucast (ue_id receipt) :: u16;
              st = st\<lparr>buffer_usage := buffer_usage st - 1\<rparr>;
              st = (if queue_index vq = 0 then st\<lparr>rx_packets := rx_packets st + 1\<rparr>
                    else if queue_index vq = 1 then st\<lparr>tx_packets := tx_packets st + 1\<rparr>
                    else st)
          in if length (desc vq) \<le> unat desc_id then None
             else Some (Some (desc_id, ue_len receipt),
               vq\<lparr>last_used_idx := last_used_idx vq + 1,
                  desc := (desc vq)[unat desc_id := (desc vq ! unat desc_id)\<lparr>vd_next := free_head vq\<rparr>],
                  free_head := desc_id,
                  num_free := num_free vq + 1\<rparr>, st))"

section \<open>Well-formed queues\<close>

text \<open>The free list: from \<open>free_head\<close> along \<open>next\<close>, ending with the index 0xFFFF.\<close>

primrec chain :: "virtq_desc list \<Rightarrow> u16 \<Rightarrow> nat list \<Rightarrow> bool" where
  "chain d h [] \<longleftrightarrow> h = 0xFFFF"
| "chain d h (i # is) \<longleftrightarrow> unat h = i \<and> i < length d \<and> chain d (vd_next (d ! i)) is"

text \<open>The receipts the device has written and the driver has not yet taken, oldest first.\<close>

definition unread :: "virtqueue \<Rightarrow> virtq_used_elem list" where
  "unread vq = map (\<lambda>k. used_ring vq ! ((unat (last_used_idx vq) + k) mod unat (vq_size vq)))
     [0..<unat (used_idx vq - last_used_idx vq)]"

definition done_ids :: "virtqueue \<Rightarrow> nat list" where
  "done_ids vq = map (unat \<circ> ue_id) (unread vq)"

text \<open>
  The sizes agree (a power of two, as VirtIO demands, which is what makes the free-running
  16-bit indices wrap without a jump); the free list and the unread receipts name each
  descriptor at most once.
\<close>

definition vq_free :: "virtqueue \<Rightarrow> nat list \<Rightarrow> bool" where
  "vq_free vq fs \<longleftrightarrow>
     0 < vq_size vq \<and> unat (vq_size vq) dvd 65536 \<and> unat (vq_size vq) \<le> 32768
     \<and> length (desc vq) = unat (vq_size vq) \<and> length (avail_ring vq) = unat (vq_size vq)
     \<and> length (used_ring vq) = unat (vq_size vq)
     \<and> chain (desc vq) (free_head vq) fs \<and> unat (num_free vq) = length fs
     \<and> distinct (fs @ done_ids vq) \<and> set (done_ids vq) \<subseteq> {0..<unat (vq_size vq)}"

definition vq_inv :: "virtqueue \<Rightarrow> bool" where
  "vq_inv vq \<longleftrightarrow> (\<exists>fs. vq_free vq fs)"

lemma chain_bound: "chain d h is \<Longrightarrow> set is \<subseteq> {0..<length d}"
  by (induction "is" arbitrary: h) auto

lemma chain_upd_other:
  "i \<notin> set is \<Longrightarrow> chain (d[i := e]) h is = chain d h is"
  by (induction "is" arbitrary: h) auto

lemma chain_unique: "chain d h is \<Longrightarrow> chain d h js \<Longrightarrow> length d \<le> 65535 \<Longrightarrow> is = js"
proof (induction "is" arbitrary: h js)
  case Nil
  then show ?case by (cases js) auto
next
  case (Cons i is')
  then show ?case by (cases js) auto
qed

lemma vq_free_unique: "vq_free vq fs \<Longrightarrow> vq_free vq gs \<Longrightarrow> fs = gs"
  by (auto simp: vq_free_def intro!: chain_unique)

text \<open>The descriptors in flight: not free. The device owns those without an unread receipt.\<close>

definition free_ids :: "virtqueue \<Rightarrow> nat set" where
  "free_ids vq = {i. \<exists>fs. vq_free vq fs \<and> i \<in> set fs}"

definition in_flight :: "virtqueue \<Rightarrow> nat set" where
  "in_flight vq = {0..<unat (vq_size vq)} - free_ids vq"

definition device_ids :: "virtqueue \<Rightarrow> nat set" where
  "device_ids vq = in_flight vq - set (done_ids vq)"

lemma free_ids_eq: "vq_free vq fs \<Longrightarrow> free_ids vq = set fs"
  using vq_free_unique by (auto simp: free_ids_def)

section \<open>Each operation on a well-formed queue\<close>

lemma vq_free_bound: "vq_free vq fs \<Longrightarrow> i \<in> set fs \<Longrightarrow> i < unat (vq_size vq)"
  unfolding vq_free_def using chain_bound by fastforce

lemma vq_free_size:
  assumes "vq_free vq fs"
  shows "vq_size vq \<noteq> 0" "0 < unat (vq_size vq)"
proof -
  have "0 < vq_size vq" using assms unfolding vq_free_def by (rule conjunct1)
  then show "vq_size vq \<noteq> 0" by (rule order.strict_implies_not_eq [THEN not_sym])
  then show "0 < unat (vq_size vq)" by (simp add: unat_gt_0)
qed

lemma vq_free_length: "vq_free vq fs \<Longrightarrow> length fs + length (done_ids vq) \<le> unat (vq_size vq)"
proof -
  assume vf: "vq_free vq fs"
  then have "set (fs @ done_ids vq) \<subseteq> {0..<unat (vq_size vq)}"
    using vq_free_bound [OF vf] by (auto simp: vq_free_def)
  then have "card (set (fs @ done_ids vq)) \<le> card {0..<unat (vq_size vq)}"
    by (rule card_mono [rotated]) simp
  moreover have "card (set (fs @ done_ids vq)) = length (fs @ done_ids vq)"
    by (rule distinct_card) (use vf in \<open>simp add: vq_free_def\<close>)
  ultimately show ?thesis by simp
qed

lemma chain_numbered:
  assumes "\<And>k. k < n \<Longrightarrow> k + 1 < n \<Longrightarrow> vd_next (d ! k) = of_nat (k + 1)"
    and "vd_next (d ! (n - 1)) = 0xFFFF" and "n \<le> length d" and "n \<le> 65535"
  shows "m < n \<Longrightarrow> chain d (of_nat m) [m..<n]"
proof (induction "n - m" arbitrary: m)
  case 0
  then show ?case by simp
next
  case (Suc j)
  have u: "unat (of_nat m :: u16) = m" using Suc.prems assms(4) by (simp add: unat_of_nat)
  have "chain d (vd_next (d ! m)) [Suc m..<n]"
  proof (cases "Suc m < n")
    case True
    then show ?thesis using Suc.hyps(1) [of "Suc m"] Suc.hyps(2) assms(1) [of m] by simp
  next
    case False
    with Suc.prems have "m = n - 1" by simp
    then show ?thesis using assms(2) False by simp
  qed
  then show ?case using Suc.prems u assms(3) by (simp add: upt_conv_Cons)
qed

lemma length_link_next [simp]: "length (link_next i d) = length d"
  by (simp add: link_next_def)

lemma length_fold_link [simp]: "length (fold link_next xs d) = length d"
  by (induction xs arbitrary: d) simp_all

lemma link_next_nth:
  "i < length d \<Longrightarrow> link_next i d ! k = (if k = i then (d ! i)\<lparr>vd_next := of_nat (i + 1)\<rparr> else d ! k)"
  by (simp add: link_next_def nth_list_update)

lemma fold_link_nth:
  "n \<le> length d \<Longrightarrow> k < length d \<Longrightarrow>
   fold link_next [0..<n] d ! k = (if k < n then (d ! k)\<lparr>vd_next := of_nat (k + 1)\<rparr> else d ! k)"
proof (induction n)
  case 0
  then show ?case by simp
next
  case (Suc n)
  then show ?case by (auto simp del: of_nat_add of_nat_Suc simp: link_next_nth less_Suc_eq)
qed

lemma virtqueue_init_free:
  assumes "0 < n" and "unat n dvd 65536" and "unat n \<le> 32768"
    and "length (desc vq) = unat n" and "length (avail_ring vq) = unat n"
    and "length (used_ring vq) = unat n" and "used_idx vq = 0"
  shows "\<exists>vq'. virtqueue_init vq n index p = Some vq' \<and> vq_free vq' [0..<unat n]
    \<and> vq_size vq' = n \<and> queue_index vq' = index \<and> unread vq' = []
    \<and> avail_idx vq' = avail_idx vq \<and> avail_ring vq' = avail_ring vq"
proof -
  have n: "n \<noteq> 0" "0 < unat n" using assms(1) by (auto simp: unat_gt_0)
  define d where "d = (let d = fold link_next [0..<unat n - 1] (desc vq)
    in d[unat n - 1 := (d ! (unat n - 1))\<lparr>vd_next := 0xFFFF\<rparr>])"
  have len: "length d = unat n" by (simp add: d_def Let_def assms)
  have nx: "vd_next (d ! k) = (if k = unat n - 1 then 0xFFFF else of_nat (k + 1))" if "k < unat n" for k
    using that assms n by (auto simp: d_def Let_def nth_list_update fold_link_nth)
  have "chain d (of_nat 0) [0..<unat n]"
    by (rule chain_numbered) (use nx len n assms in auto)
  then have ch: "chain d 0 [0..<unat n]" by simp
  let ?vq = "the (virtqueue_init vq n index p)"
  have "virtqueue_init vq n index p = Some ?vq" "desc ?vq = d"
    using n assms by (simp_all add: virtqueue_init_def d_def Let_def)
  moreover have "vq_size ?vq = n \<and> queue_index ?vq = index \<and> free_head ?vq = 0 \<and> num_free ?vq = n
      \<and> last_used_idx ?vq = 0 \<and> used_idx ?vq = 0 \<and> avail_idx ?vq = avail_idx vq
      \<and> avail_ring ?vq = avail_ring vq \<and> used_ring ?vq = used_ring vq"
    using n assms by (simp add: virtqueue_init_def Let_def)
  ultimately show ?thesis
    using ch len assms by (intro exI [of _ ?vq]) (simp add: vq_free_def unread_def done_ids_def)
qed

lemma add_descriptor_full:
  "num_free vq = 0 \<Longrightarrow> virtqueue_add_descriptor vq a len flags st = Some (0xFFFF, vq, st)"
  by (simp add: virtqueue_add_descriptor_def)

lemma add_descriptor_free:
  assumes "vq_free vq (i # fs)"
  shows "\<exists>vq'. virtqueue_add_descriptor vq a len flags st =
        Some (free_head vq, vq', st\<lparr>buffer_usage := buffer_usage st + 1\<rparr>)
      \<and> vq_free vq' fs \<and> unat (free_head vq) = i \<and> unread vq' = unread vq \<and> vq_size vq' = vq_size vq
      \<and> queue_index vq' = queue_index vq \<and> avail_idx vq' = avail_idx vq \<and> avail_ring vq' = avail_ring vq
      \<and> desc vq' = (desc vq)[i := \<lparr>vd_addr = a, vd_len = len, vd_flags = flags, vd_next = 0\<rparr>]"
proof -
  have i: "unat (free_head vq) = i" "i < length (desc vq)" "chain (desc vq) (vd_next (desc vq ! i)) fs"
    "i \<notin> set fs" "unat (num_free vq) = Suc (length fs)"
    using assms by (auto simp: vq_free_def)
  have nf: "num_free vq \<noteq> 0" using i(5) by auto
  have nf': "unat (num_free vq - 1) = length fs" using unat_minus_one [OF nf] i(5) by simp
  let ?e = "\<lparr>vd_addr = a, vd_len = len, vd_flags = flags, vd_next = 0\<rparr>"
  let ?vq = "vq\<lparr>free_head := vd_next (desc vq ! i), num_free := num_free vq - 1, desc := (desc vq)[i := ?e]\<rparr>"
  have un: "unread ?vq = unread vq" by (simp add: unread_def)
  have "virtqueue_add_descriptor vq a len flags st =
      Some (free_head vq, ?vq, st\<lparr>buffer_usage := buffer_usage st + 1\<rparr>)"
    using i nf by (simp add: virtqueue_add_descriptor_def Let_def get_phys_def)
  moreover have "vq_free ?vq fs"
    using assms i nf' by (simp add: vq_free_def chain_upd_other un done_ids_def)
  ultimately show ?thesis using un i by (intro exI [of _ ?vq]) simp
qed

lemma vq_free_cong:
  assumes "vq_free vq fs" and "vq_size vq' = vq_size vq" and "desc vq' = desc vq"
    and "length (avail_ring vq') = length (avail_ring vq)" and "used_ring vq' = used_ring vq"
    and "used_idx vq' = used_idx vq" and "last_used_idx vq' = last_used_idx vq"
    and "free_head vq' = free_head vq" and "num_free vq' = num_free vq"
  shows "vq_free vq' fs" and "unread vq' = unread vq"
proof -
  show un: "unread vq' = unread vq" using assms by (simp add: unread_def)
  show "vq_free vq' fs" using assms un by (simp add: vq_free_def done_ids_def)
qed

lemma avail_publish_free:
  assumes "vq_free vq fs"
  shows "\<exists>vq'. avail_publish vq i = Some vq' \<and> vq_free vq' fs \<and> unread vq' = unread vq
    \<and> vq_size vq' = vq_size vq \<and> queue_index vq' = queue_index vq \<and> desc vq' = desc vq
    \<and> free_head vq' = free_head vq \<and> num_free vq' = num_free vq
    \<and> avail_idx vq' = avail_idx vq + 1
    \<and> avail_ring vq' = (avail_ring vq)[unat (avail_idx vq) mod unat (vq_size vq) := i]"
proof -
  let ?pos = "unat (avail_idx vq) mod unat (vq_size vq)"
  let ?vq = "vq\<lparr>avail_ring := (avail_ring vq)[?pos := i], avail_idx := avail_idx vq + 1\<rparr>"
  have "0 < unat (vq_size vq)" by (rule vq_free_size [OF assms])
  moreover have "length (avail_ring vq) = unat (vq_size vq)" using assms by (simp add: vq_free_def)
  moreover have "vq_size vq \<noteq> 0" by (rule vq_free_size [OF assms])
  ultimately have "avail_publish vq i = Some ?vq"
    by (simp add: avail_publish_def Let_def not_le)
  moreover have "vq_free ?vq fs" "unread ?vq = unread vq"
    using vq_free_cong [OF assms, of ?vq] by simp_all
  ultimately show ?thesis by (intro exI [of _ ?vq]) simp
qed

lemma unread_Cons:
  assumes "vq_free vq fs" and "last_used_idx vq \<noteq> used_idx vq"
  shows "unread vq = used_ring vq ! (unat (last_used_idx vq) mod unat (vq_size vq))
    # unread (vq\<lparr>last_used_idx := last_used_idx vq + 1\<rparr>)"
proof -
  let ?n = "unat (vq_size vq)" and ?l = "last_used_idx vq"
  let ?c = "unat (used_idx vq - ?l)"
  have dvd: "?n dvd 65536" using assms(1) by (simp add: vq_free_def)
  have "used_idx vq - ?l \<noteq> 0" using assms(2) by simp
  then have c: "?c = Suc (unat (used_idx vq - (?l + 1)))"
    using unat_minus_one [of "used_idx vq - ?l"] by (simp add: unat_gt_0 diff_diff_eq)
  have wrap: "(unat (?l + 1) + k) mod ?n = (unat ?l + Suc k) mod ?n" for k
  proof -
    have "(unat (?l + 1)) mod ?n = (Suc (unat ?l) mod 65536) mod ?n"
      by (simp add: unat_word_ariths)
    also have "\<dots> = Suc (unat ?l) mod ?n" using dvd by (rule mod_mod_cancel)
    finally have "(unat (?l + 1) + k) mod ?n = (Suc (unat ?l) + k) mod ?n"
      by (metis mod_add_left_eq)
    then show ?thesis by simp
  qed
  show ?thesis
    unfolding unread_def c
    by (simp add: upt_conv_Cons map_Suc_upt [symmetric] wrap del: upt_Suc)
qed


lemma pop_used_empty:
  "unread vq = [] \<Longrightarrow> virtqueue_pop_used vq st = Some (None, vq, st)"
proof -
  assume "unread vq = []"
  then have "unat (used_idx vq - last_used_idx vq) = 0" by (simp add: unread_def)
  then have "used_idx vq - last_used_idx vq = 0" by (simp only: unat_eq_0)
  then show ?thesis by (simp add: virtqueue_pop_used_def)
qed

definition pop_stats :: "u16 \<Rightarrow> net_stats \<Rightarrow> net_stats" where
  "pop_stats qi st =
     (let st = st\<lparr>buffer_usage := buffer_usage st - 1\<rparr>
      in if qi = 0 then st\<lparr>rx_packets := rx_packets st + 1\<rparr>
         else if qi = 1 then st\<lparr>tx_packets := tx_packets st + 1\<rparr> else st)"

lemma pop_used_receipt:
  assumes vf: "vq_free vq fs" and un: "unread vq = e # es"
  shows "\<exists>vq'. virtqueue_pop_used vq st =
        Some (Some (ucast (ue_id e), ue_len e), vq', pop_stats (queue_index vq) st)
      \<and> unat (ucast (ue_id e) :: u16) = unat (ue_id e)
      \<and> vq_free vq' (unat (ue_id e) # fs) \<and> unread vq' = es
      \<and> vq_size vq' = vq_size vq \<and> queue_index vq' = queue_index vq
      \<and> avail_idx vq' = avail_idx vq \<and> avail_ring vq' = avail_ring vq
      \<and> map vd_addr (desc vq') = map vd_addr (desc vq)
      \<and> map vd_len (desc vq') = map vd_len (desc vq)"
proof -
  let ?n = "unat (vq_size vq)" and ?id = "ucast (ue_id e) :: u16"
  let ?pos = "unat (last_used_idx vq) mod ?n"
  let ?vq = "vq\<lparr>last_used_idx := last_used_idx vq + 1,
      desc := (desc vq)[unat ?id := (desc vq ! unat ?id)\<lparr>vd_next := free_head vq\<rparr>],
      free_head := ?id, num_free := num_free vq + 1\<rparr>"
  note sz = vq_free_size [OF vf]
  have ne: "last_used_idx vq \<noteq> used_idx vq" using un by (auto simp: unread_def)
  from unread_Cons [OF vf ne] un have e: "e = used_ring vq ! ?pos"
    and es: "es = unread (vq\<lparr>last_used_idx := last_used_idx vq + 1\<rparr>)" by simp_all
  have dn: "done_ids vq = unat (ue_id e) # done_ids (vq\<lparr>last_used_idx := last_used_idx vq + 1\<rparr>)"
    by (simp add: done_ids_def un es)
  have lt: "unat (ue_id e) < ?n" "unat (ue_id e) \<notin> set fs"
    using vf by (auto simp: vq_free_def dn)
  have "?n \<le> 32768" using vf by (simp add: vq_free_def)
  then have id: "unat ?id = unat (ue_id e)" using lt by (simp add: unat_ucast)
  have len: "length (desc vq) = ?n" "length (used_ring vq) = ?n" using vf by (simp_all add: vq_free_def)
  have pos: "\<not> ?n \<le> ?pos" using sz by (simp add: not_le)
  have "virtqueue_pop_used vq st = Some (Some (?id, ue_len e), ?vq, pop_stats (queue_index vq) st)"
    using ne sz(1) pos lt(1) id unfolding virtqueue_pop_used_def
    by (simp add: pop_stats_def Let_def len e [symmetric])
  moreover have un': "unread ?vq = es" by (simp add: es unread_def)
  moreover have "vq_free ?vq (unat (ue_id e) # fs)"
  proof -
    have "length fs < ?n"
      using vq_free_length [OF vf] by (simp add: dn)
    then have nf: "unat (num_free vq + 1) = Suc (length fs)"
      using vf \<open>?n \<le> 32768\<close> by (simp add: vq_free_def unat_word_ariths)
    have "done_ids ?vq = done_ids (vq\<lparr>last_used_idx := last_used_idx vq + 1\<rparr>)"
      by (simp add: done_ids_def un' es)
    then show ?thesis
      using vf lt nf id by (simp add: vq_free_def chain_upd_other dn)
  qed
  moreover have "map vd_addr (desc ?vq) = map vd_addr (desc vq)" "map vd_len (desc ?vq) = map vd_len (desc vq)"
    by (simp_all add: map_update list_update_same_conv lt len id)
  ultimately show ?thesis using id by (intro exI [of _ ?vq]) simp
qed

section \<open>The device's side\<close>

text \<open>The device completes a buffer it owns by writing a receipt and moving its index.\<close>

definition dev_complete :: "nat \<Rightarrow> u32 \<Rightarrow> virtqueue \<Rightarrow> virtqueue" where
  "dev_complete i l vq =
     vq\<lparr>used_ring := (used_ring vq)[unat (used_idx vq) mod unat (vq_size vq) :=
          \<lparr>ue_id = of_nat i, ue_len = l\<rparr>], used_idx := used_idx vq + 1\<rparr>"

lemma dev_complete_free:
  assumes vf: "vq_free vq fs" and i: "i < unat (vq_size vq)" "i \<notin> set fs" "i \<notin> set (done_ids vq)"
  shows "vq_free (dev_complete i l vq) fs"
    and "unread (dev_complete i l vq) = unread vq @ [\<lparr>ue_id = of_nat i, ue_len = l\<rparr>]"
proof -
  let ?n = "unat (vq_size vq)" and ?c = "unat (used_idx vq - last_used_idx vq)"
  let ?e = "\<lparr>ue_id = of_nat i, ue_len = l\<rparr>" and ?vq = "dev_complete i l vq"
  note sz = vq_free_size [OF vf]
  have n: "?n \<le> 32768" "?n dvd 65536" "length (used_ring vq) = ?n" using vf by (simp_all add: vq_free_def)
  have "length (i # fs @ done_ids vq) = card (set (i # fs @ done_ids vq))"
    using vf i by (intro distinct_card [symmetric]) (simp add: vq_free_def)
  also have "\<dots> \<le> card {0..<?n}"
    using vf i vq_free_bound [OF vf] by (intro card_mono) (auto simp: vq_free_def)
  finally have c: "?c < ?n" by (simp add: done_ids_def unread_def)
  have c1: "unat (used_idx vq + 1 - last_used_idx vq) = Suc ?c"
  proof -
    have "used_idx vq + 1 - last_used_idx vq = 1 + (used_idx vq - last_used_idx vq)" by simp
    then have "unat (used_idx vq + 1 - last_used_idx vq) = unat (1 + (used_idx vq - last_used_idx vq))"
      by (rule arg_cong)
    also have "\<dots> = Suc ?c mod 65536" by (simp only: unat_word_ariths) simp
    finally show ?thesis using c n by simp
  qed
  have uidx: "unat (used_idx vq) mod ?n = (unat (last_used_idx vq) + ?c) mod ?n"
  proof -
    have "unat (used_idx vq) = unat (last_used_idx vq + (used_idx vq - last_used_idx vq))" by simp
    also have "\<dots> = (unat (last_used_idx vq) + ?c) mod 65536"
      by (subst unat_word_ariths(1)) simp
    finally have "unat (used_idx vq) = (unat (last_used_idx vq) + ?c) mod 65536" .
    then show ?thesis using n(2) by (simp add: mod_mod_cancel)
  qed
  have apart: "(unat (last_used_idx vq) + k) mod ?n \<noteq> unat (used_idx vq) mod ?n" if "k < ?c" for k
  proof
    assume eq: "(unat (last_used_idx vq) + k) mod ?n = unat (used_idx vq) mod ?n"
    have "k mod ?n = ?c mod ?n"
      using eq unfolding uidx by (simp add: nat_mod_eq_iff)
    then show False using that c by simp
  qed
  show un: "unread ?vq = unread vq @ [?e]"
    using c1 sz n apart apart [THEN not_sym]
    by (simp add: unread_def dev_complete_def nth_list_update uidx [symmetric])
  have "done_ids ?vq = done_ids vq @ [i]"
    using i n by (simp add: done_ids_def un unat_of_nat)
  then show "vq_free ?vq fs"
    using vf i by (simp add: vq_free_def) (simp add: dev_complete_def)
qed

section \<open>The pool of descriptors as an interface\<close>

text \<open>
  What the drivers above rely on. A queue stands for its stack of free descriptors and its
  sequence of unread receipts; \<open>take_desc\<close> pops the stack, \<open>reap\<close> takes the oldest receipt and
  pushes its descriptor.
\<close>

locale descriptor_pool =
  fixes rep :: "'q \<Rightarrow> nat list \<Rightarrow> (nat \<times> u32) list \<Rightarrow> bool"
    and room :: "'q \<Rightarrow> nat"
    and take_desc :: "u64 \<Rightarrow> u32 \<Rightarrow> u16 \<Rightarrow> 'q \<Rightarrow> (u16 \<times> 'q) option"
    and reap :: "'q \<Rightarrow> ((u16 \<times> u32) option \<times> 'q) option"
  assumes take_some: "rep q (i # fs) ps \<Longrightarrow>
      \<exists>q'. take_desc a l f q = Some (of_nat i, q') \<and> rep q' fs ps \<and> room q' = room q"
    and take_none: "rep q [] ps \<Longrightarrow> take_desc a l f q = Some (0xFFFF, q)"
    and reap_some: "rep q fs ((i, l) # ps) \<Longrightarrow>
      \<exists>q'. reap q = Some (Some (of_nat i, l), q') \<and> rep q' (i # fs) ps \<and> room q' = room q"
    and reap_none: "rep q fs [] \<Longrightarrow> reap q = Some (None, q)"
    and rep_bound: "rep q fs ps \<Longrightarrow> distinct (fs @ map fst ps)
      \<and> set (fs @ map fst ps) \<subseteq> {0..<room q} \<and> room q \<le> 32768"
begin

text \<open>Reaping and taking again gives the same descriptor back: the pool is a stack.\<close>

lemma recycle:
  assumes "rep q fs ((i, l) # ps)"
  shows "\<exists>q1 q2. reap q = Some (Some (of_nat i, l), q1) \<and> take_desc a n f q1 = Some (of_nat i, q2)
    \<and> rep q2 fs ps \<and> room q2 = room q"
  using reap_some [OF assms] take_some by metis

lemma take_total: "rep q fs ps \<Longrightarrow> take_desc a l f q \<noteq> None"
  using take_some take_none by (cases fs) fastforce+

lemma reap_total: "rep q fs ps \<Longrightarrow> reap q \<noteq> None"
proof (cases ps)
  case (Cons p ps')
  assume "rep q fs ps"
  with Cons have "rep q fs ((fst p, snd p) # ps')" by simp
  from reap_some [OF this] show ?thesis by auto
qed (auto dest: reap_none)

text \<open>The index handed out is never the code's failure value, and never one still in use.\<close>

lemma take_fresh:
  assumes "rep q (i # fs) ps" and "take_desc a l f q = Some (h, q')"
  shows "h \<noteq> 0xFFFF" "unat h = i" "unat h \<notin> set fs" "unat h \<notin> fst ` set ps"
proof -
  have b: "i < 32768" "i \<notin> set fs" "i \<notin> fst ` set ps" using rep_bound [OF assms(1)] by auto
  have "h = of_nat i" using take_some [OF assms(1), of a l f] assms(2) by auto
  with b show h: "unat h = i" by (simp add: unat_of_nat)
  from h b show "h \<noteq> 0xFFFF" "unat h \<notin> set fs" "unat h \<notin> fst ` set ps" by auto
qed

end

definition vq_rep :: "virtqueue \<Rightarrow> nat list \<Rightarrow> (nat \<times> u32) list \<Rightarrow> bool" where
  "vq_rep vq fs ps \<longleftrightarrow> vq_free vq fs \<and> map (\<lambda>e. (unat (ue_id e), ue_len e)) (unread vq) = ps"

lemma vq_rep_free: "vq_rep vq fs ps \<Longrightarrow> vq_free vq fs"
  by (simp add: vq_rep_def)

lemma vq_rep_exists: "vq_free vq fs \<Longrightarrow> \<exists>ps. vq_rep vq fs ps"
  by (simp add: vq_rep_def)

lemma vq_rep_done: "vq_rep vq fs ps \<Longrightarrow> done_ids vq = map fst ps"
  by (auto simp: vq_rep_def done_ids_def)

lemma vq_take_some:
  assumes "vq_rep vq (i # fs) ps"
  shows "\<exists>vq'. virtqueue_add_descriptor vq a l f st =
        Some (of_nat i, vq', st\<lparr>buffer_usage := buffer_usage st + 1\<rparr>)
      \<and> vq_rep vq' fs ps \<and> vq_size vq' = vq_size vq \<and> queue_index vq' = queue_index vq
      \<and> avail_idx vq' = avail_idx vq \<and> avail_ring vq' = avail_ring vq
      \<and> desc vq' = (desc vq)[i := \<lparr>vd_addr = a, vd_len = l, vd_flags = f, vd_next = 0\<rparr>]"
proof -
  from add_descriptor_free [OF vq_rep_free [OF assms], of a l f st] obtain vq' where
    "virtqueue_add_descriptor vq a l f st =
        Some (free_head vq, vq', st\<lparr>buffer_usage := buffer_usage st + 1\<rparr>)"
    "vq_free vq' fs" "unat (free_head vq) = i" "unread vq' = unread vq" "vq_size vq' = vq_size vq"
    "queue_index vq' = queue_index vq" "avail_idx vq' = avail_idx vq" "avail_ring vq' = avail_ring vq"
    "desc vq' = (desc vq)[i := \<lparr>vd_addr = a, vd_len = l, vd_flags = f, vd_next = 0\<rparr>]" by blast
  moreover from \<open>unat (free_head vq) = i\<close> have "free_head vq = of_nat i" by auto
  ultimately show ?thesis using assms by (intro exI [of _ vq']) (simp add: vq_rep_def)
qed

lemma vq_take_none:
  assumes "vq_rep vq [] ps"
  shows "virtqueue_add_descriptor vq a l f st = Some (0xFFFF, vq, st)"
proof (rule add_descriptor_full)
  have "unat (num_free vq) = 0" using assms by (simp add: vq_rep_def vq_free_def)
  then show "num_free vq = 0" by (simp only: unat_eq_0)
qed

lemma vq_reap_some:
  assumes "vq_rep vq fs ((i, l) # ps)"
  shows "\<exists>vq'. virtqueue_pop_used vq st =
        Some (Some (of_nat i, l), vq', pop_stats (queue_index vq) st)
      \<and> vq_rep vq' (i # fs) ps \<and> vq_size vq' = vq_size vq \<and> queue_index vq' = queue_index vq
      \<and> avail_idx vq' = avail_idx vq \<and> avail_ring vq' = avail_ring vq
      \<and> map vd_addr (desc vq') = map vd_addr (desc vq)
      \<and> map vd_len (desc vq') = map vd_len (desc vq)"
proof -
  from assms obtain e es where un: "unread vq = e # es" and e: "i = unat (ue_id e)" "l = ue_len e"
    and es: "map (\<lambda>e. (unat (ue_id e), ue_len e)) es = ps"
    by (auto simp: vq_rep_def)
  from pop_used_receipt [OF vq_rep_free [OF assms] un, of st] obtain vq' where
    pop: "virtqueue_pop_used vq st =
        Some (Some (ucast (ue_id e), ue_len e), vq', pop_stats (queue_index vq) st)"
    and id: "unat (ucast (ue_id e) :: u16) = unat (ue_id e)"
    and free: "vq_free vq' (unat (ue_id e) # fs)" and un': "unread vq' = es"
    and fr: "vq_size vq' = vq_size vq" "queue_index vq' = queue_index vq"
    "avail_idx vq' = avail_idx vq" "avail_ring vq' = avail_ring vq"
    "map vd_addr (desc vq') = map vd_addr (desc vq)"
    "map vd_len (desc vq') = map vd_len (desc vq)" by blast
  have "of_nat (unat (ucast (ue_id e) :: u16)) = (ucast (ue_id e) :: u16)" by simp
  then have "(ucast (ue_id e) :: u16) = of_nat i" unfolding id e(1) by (rule sym)
  with pop have "virtqueue_pop_used vq st = Some (Some (of_nat i, l), vq', pop_stats (queue_index vq) st)"
    by (simp only: e(2))
  moreover have "vq_rep vq' (i # fs) ps" using free un' es by (simp add: vq_rep_def e(1))
  ultimately show ?thesis using fr by blast
qed

lemma vq_reap_none: "vq_rep vq fs [] \<Longrightarrow> virtqueue_pop_used vq st = Some (None, vq, st)"
  by (rule pop_used_empty) (simp add: vq_rep_def)

text \<open>The driver's operations, threaded with the counters they update, provide the interface.\<close>

interpretation pool: descriptor_pool
  "\<lambda>q. vq_rep (fst q)" "\<lambda>q. unat (vq_size (fst q))"
  "\<lambda>a l f q. map_option (\<lambda>(h, vq, st). (h, vq, st)) (virtqueue_add_descriptor (fst q) a l f (snd q))"
  "\<lambda>q. map_option (\<lambda>(r, vq, st). (r, vq, st)) (virtqueue_pop_used (fst q) (snd q))"
proof (unfold_locales, goal_cases)
  case (1 q i fs ps a l f)
  then show ?case using vq_take_some [of "fst q" i fs ps a l f "snd q"] by fastforce
next
  case (2 q ps a l f)
  then show ?case using vq_take_none [of "fst q" ps a l f "snd q"] by simp
next
  case (3 q fs i l ps)
  then show ?case using vq_reap_some [of "fst q" fs i l ps "snd q"] by fastforce
next
  case (4 q fs)
  then show ?case using vq_reap_none [of "fst q" fs "snd q"] by simp
next
  case (5 q fs ps)
  then show ?case
    using vq_free_bound [OF vq_rep_free [OF 5]] vq_rep_done [OF 5]
    by (auto simp: vq_rep_def vq_free_def subset_iff)
qed

section \<open>Runs of the queue\<close>

text \<open>
  The driver adds, publishes and reaps in any order, with any arguments, while the device
  completes buffers it owns.
\<close>

inductive vq_step :: "virtqueue \<Rightarrow> virtqueue \<Rightarrow> bool" where
  add: "virtqueue_add_descriptor vq a l f st = Some (h, vq', st') \<Longrightarrow> vq_step vq vq'"
| publish: "virtqueue_push_available vdev vq h hw = Some (vq', hw') \<Longrightarrow> vq_step vq vq'"
| reap: "virtqueue_pop_used vq st = Some (r, vq', st') \<Longrightarrow> vq_step vq vq'"
| complete: "i \<in> device_ids vq \<Longrightarrow> vq_step vq (dev_complete i l vq)"

inductive vq_reach :: "virtqueue \<Rightarrow> bool" where
  init: "0 < n \<Longrightarrow> unat n dvd 65536 \<Longrightarrow> unat n \<le> 32768 \<Longrightarrow> length (desc vq) = unat n \<Longrightarrow>
    length (avail_ring vq) = unat n \<Longrightarrow> length (used_ring vq) = unat n \<Longrightarrow> used_idx vq = 0 \<Longrightarrow>
    virtqueue_init vq n index p = Some vq' \<Longrightarrow> vq_reach vq'"
| step: "vq_reach vq \<Longrightarrow> vq_step vq vq' \<Longrightarrow> vq_reach vq'"

lemma push_available_free:
  assumes "vq_rep vq fs ps"
  shows "\<exists>vq'. virtqueue_push_available vdev vq h hw =
        Some (vq', virtqueue_notify vdev (queue_index vq) hw)
      \<and> vq_rep vq' fs ps \<and> vq_size vq' = vq_size vq \<and> queue_index vq' = queue_index vq
      \<and> desc vq' = desc vq \<and> avail_idx vq' = avail_idx vq + 1
      \<and> avail_ring vq' = (avail_ring vq)[unat (avail_idx vq) mod unat (vq_size vq) := h]"
  using avail_publish_free [OF vq_rep_free [OF assms], of h] assms
  by (fastforce simp: virtqueue_push_available_def vq_rep_def)

lemma vq_inv_rep: "vq_inv vq \<longleftrightarrow> (\<exists>fs ps. vq_rep vq fs ps)"
  by (auto simp: vq_inv_def vq_rep_def)

lemma vq_step_inv: "vq_inv vq \<Longrightarrow> vq_step vq vq' \<Longrightarrow> vq_inv vq'"
proof -
  assume "vq_inv vq" and step: "vq_step vq vq'"
  then obtain fs ps where rep: "vq_rep vq fs ps" by (auto simp: vq_inv_rep)
  from step show "vq_inv vq'"
  proof (cases rule: vq_step.cases)
    case (add a l f st h st')
    then show ?thesis
      using rep vq_take_some [of vq _ _ ps a l f st] vq_take_none [of vq ps a l f st]
      by (cases fs) (fastforce simp: vq_inv_rep)+
  next
    case (publish vdev h hw hw')
    then show ?thesis using push_available_free [OF rep, of vdev h hw] by (auto simp: vq_inv_rep)
  next
    case (reap st r st')
    show ?thesis
    proof (cases ps)
      case Nil
      with rep reap show ?thesis using vq_reap_none [of vq fs st] by (auto simp: vq_inv_rep)
    next
      case (Cons p ps')
      with rep have "vq_rep vq fs ((fst p, snd p) # ps')" by simp
      from vq_reap_some [OF this, of st] reap show ?thesis by (auto simp: vq_inv_rep)
    qed
  next
    case (complete i l)
    then show ?thesis
      using dev_complete_free(1) [OF vq_rep_free [OF rep], of i l] free_ids_eq [OF vq_rep_free [OF rep]]
      by (auto simp: vq_inv_def device_ids_def in_flight_def)
  qed
qed

lemma vq_reach_inv: "vq_reach vq \<Longrightarrow> vq_inv vq"
proof (induction rule: vq_reach.induct)
  case (init n vq index p vq')
  from virtqueue_init_free [OF init(1-7), of index p] init(8) show ?case by (auto simp: vq_inv_def)
next
  case (step vq vq')
  then show ?case using vq_step_inv by blast
qed

section \<open>Where the rings lie\<close>

lemma and_not_3: "(x :: u64) AND NOT 3 = push_bit 2 (drop_bit 2 x)"
proof -
  have "(3 :: u64) = mask 2" by (simp add: mask_eq_exp_minus_1)
  then show ?thesis by (simp only: and_not_mask_u64)
qed

lemma ring_layout:
  assumes "virtqueue_init vq n index p = Some vq'" and "unat p + 20000 < 2 ^ 64" and "unat n \<le> 512"
  shows "unat (desc_ptr vq') = unat p" "unat (avail_ptr vq') = unat p + 16 * unat n"
    "unat (used_ptr vq') = (unat p + 18 * unat n + 9) div 4 * 4"
proof -
  have vq': "desc_ptr vq' = p" "avail_ptr vq' = p + 16 * ucast n"
    "used_ptr vq' = (p + 16 * ucast n + (2 + 2 + 2 * ucast n + 2) + 3) AND NOT 3"
    using assms(1) by (auto simp: virtqueue_init_def Let_def split: if_splits)
  show "unat (desc_ptr vq') = unat p" using vq' by simp
  show "unat (avail_ptr vq') = unat p + 16 * unat n"
    using assms by (simp add: vq' unat_word_ariths)
  have s: "unat (p + 16 * ucast n + (2 + 2 + 2 * ucast n + 2) + 3) = unat p + 18 * unat n + 9"
    using assms by (simp add: unat_word_ariths)
  show "unat (used_ptr vq') = (unat p + 18 * unat n + 9) div 4 * 4"
    unfolding vq' and_not_3 by (subst unat_align_down) (simp only: s, simp)
qed

section \<open>Properties\<close>

lemma device_ids_rep:
  "vq_rep vq fs ps \<Longrightarrow> device_ids vq = {0..<unat (vq_size vq)} - set fs - fst ` set ps"
  by (simp add: device_ids_def in_flight_def free_ids_eq [OF vq_rep_free] vq_rep_done)

lemma vq_rep_sets:
  assumes "vq_rep vq fs ps"
  shows "distinct fs" "distinct (map fst ps)" "set fs \<inter> fst ` set ps = {}"
    "set fs \<subseteq> {0..<unat (vq_size vq)}" "fst ` set ps \<subseteq> {0..<unat (vq_size vq)}"
  using pool.rep_bound [of "(vq, net_stats_init)" fs ps] assms by auto

definition fresh_queue :: "nat \<Rightarrow> virtqueue" where
  "fresh_queue n = \<lparr>vq_size = 0, queue_index = 0, desc_ptr = 0, avail_ptr = 0, used_ptr = 0,
     desc = replicate n \<lparr>vd_addr = 0, vd_len = 0, vd_flags = 0, vd_next = 0\<rparr>,
     avail_idx = 0, avail_ring = replicate n 0, used_idx = 0,
     used_ring = replicate n \<lparr>ue_id = 0, ue_len = 0\<rparr>, free_head = 0, num_free = 0, last_used_idx = 0\<rparr>"

lemma sample_queue:
  "\<exists>vq. virtqueue_init (fresh_queue 256) 256 1 0x40100000 = Some vq \<and> vq_reach vq
     \<and> vq_rep vq [0..<256] [] \<and> vq_size vq = 256"
proof -
  have pre: "0 < (256 :: u16)" "unat (256 :: u16) dvd 65536" "unat (256 :: u16) \<le> 32768"
    "length (desc (fresh_queue 256)) = unat (256 :: u16)"
    "length (avail_ring (fresh_queue 256)) = unat (256 :: u16)"
    "length (used_ring (fresh_queue 256)) = unat (256 :: u16)" "used_idx (fresh_queue 256) = 0"
    by (simp_all add: fresh_queue_def)
  from virtqueue_init_free [OF pre, of 1 "0x40100000"] obtain vq where
    vq: "virtqueue_init (fresh_queue 256) 256 1 0x40100000 = Some vq"
    "vq_free vq [0..<unat (256 :: u16)]" "unread vq = []" "vq_size vq = 256" by blast
  from vq_reach.init [OF pre vq(1)] vq show ?thesis by (intro exI [of _ vq]) (simp add: vq_rep_def)
qed





text \<open>
  Adding a descriptor is exclusive: it either reports a full ring and changes nothing, or
  hands out an index that was free, is not the failure value and now belongs to the device;
  the entry describes the caller's buffer and no other entry changes.
\<close>

lemma add_descriptor_is_exclusive:
  assumes "vq_inv vq"
  shows "(free_ids vq = {} \<and> virtqueue_add_descriptor vq a l f st = Some (0xFFFF, vq, st))
    \<or> (\<exists>h vq'. virtqueue_add_descriptor vq a l f st =
          Some (h, vq', st\<lparr>buffer_usage := buffer_usage st + 1\<rparr>) \<and> vq_inv vq'
        \<and> h \<noteq> 0xFFFF \<and> unat h \<in> free_ids vq \<and> free_ids vq' = free_ids vq - {unat h}
        \<and> device_ids vq' = insert (unat h) (device_ids vq) \<and> unread vq' = unread vq
        \<and> desc vq' = (desc vq)[unat h := \<lparr>vd_addr = a, vd_len = l, vd_flags = f, vd_next = 0\<rparr>])"
proof -
  from assms obtain fs ps where rep: "vq_rep vq fs ps" by (auto simp: vq_inv_rep)
  show ?thesis
  proof (cases fs)
    case Nil
    with rep show ?thesis
      using vq_take_none [of vq ps a l f st] free_ids_eq [OF vq_rep_free [OF rep]] by simp
  next
    case (Cons i fs')
    with rep have rep: "vq_rep vq (i # fs') ps" by simp
    note sets = vq_rep_sets [OF rep]
    from vq_take_some [OF rep, of a l f st] obtain vq' where
      add: "virtqueue_add_descriptor vq a l f st =
        Some (of_nat i, vq', st\<lparr>buffer_usage := buffer_usage st + 1\<rparr>)"
      and rep': "vq_rep vq' fs' ps" and fr: "vq_size vq' = vq_size vq"
      "desc vq' = (desc vq)[i := \<lparr>vd_addr = a, vd_len = l, vd_flags = f, vd_next = 0\<rparr>]" by blast
    have "virtqueue_add_descriptor (fst (vq, st)) a l f (snd (vq, st)) =
        Some (of_nat i, vq', st\<lparr>buffer_usage := buffer_usage st + 1\<rparr>)" using add by simp
    then have h: "(of_nat i :: u16) \<noteq> 0xFFFF" "unat (of_nat i :: u16) = i"
      using pool.take_fresh(1,2) [of "(vq, st)" i fs' ps a l f "of_nat i"] rep by simp_all
    have "unread vq' = unread vq"
      using add_descriptor_free [OF vq_rep_free [OF rep], of a l f st] add by auto
    moreover have "device_ids vq' = insert i (device_ids vq)"
      unfolding device_ids_rep [OF rep] device_ids_rep [OF rep'] fr using sets by auto
    moreover have "free_ids vq = set (i # fs')" "free_ids vq' = set fs'"
      using free_ids_eq [OF vq_rep_free] rep rep' by blast+
    moreover have "vq_inv vq'" using rep' by (auto simp: vq_inv_rep)
    ultimately show ?thesis using add h sets fr
      by (intro disjI2 exI [of _ "of_nat i"] exI [of _ vq']) auto
  qed
qed

text \<open>
  Reaping takes the receipts in the order the device wrote them: with none unread it
  answers -1 and changes nothing; otherwise it returns the oldest receipt's descriptor and
  length, frees that descriptor and counts the packet for its queue. Adding a descriptor right
  after gives the same index back, which is what keeps a receive buffer bound to its index.
\<close>

lemma pop_used_takes_oldest_and_recycles:
  assumes "vq_inv vq"
  shows "(unread vq = [] \<and> virtqueue_pop_used vq st = Some (None, vq, st))
    \<or> (\<exists>e es id vq'. unread vq = e # es
        \<and> virtqueue_pop_used vq st = Some (Some (id, ue_len e), vq', pop_stats (queue_index vq) st)
        \<and> unat id = unat (ue_id e) \<and> unread vq' = es \<and> vq_inv vq'
        \<and> free_ids vq' = insert (unat id) (free_ids vq) \<and> device_ids vq' = device_ids vq
        \<and> (\<exists>vq''. virtqueue_add_descriptor vq' a l f st = Some (id, vq'',
              st\<lparr>buffer_usage := buffer_usage st + 1\<rparr>) \<and> free_ids vq'' = free_ids vq))"
proof -
  from assms obtain fs ps where rep: "vq_rep vq fs ps" by (auto simp: vq_inv_rep)
  show ?thesis
  proof (cases "unread vq")
    case Nil
    then show ?thesis using pop_used_empty by simp
  next
    case (Cons e es)
    then obtain ps' where ps: "ps = (unat (ue_id e), ue_len e) # ps'"
      "map (\<lambda>e. (unat (ue_id e), ue_len e)) es = ps'" using rep by (auto simp: vq_rep_def)
    note rep = rep [unfolded ps(1)]
    note sets = vq_rep_sets [OF rep]
    from pop_used_receipt [OF vq_rep_free [OF rep] Cons, of st] obtain vq' where
      pop: "virtqueue_pop_used vq st =
          Some (Some (ucast (ue_id e), ue_len e), vq', pop_stats (queue_index vq) st)"
      and id: "unat (ucast (ue_id e) :: u16) = unat (ue_id e)"
      and vf: "vq_free vq' (unat (ue_id e) # fs)" and un: "unread vq' = es"
      and sz: "vq_size vq' = vq_size vq" by blast
    have rep': "vq_rep vq' (unat (ue_id e) # fs) ps'" using vf un ps by (simp add: vq_rep_def)
    have "device_ids vq' = device_ids vq"
      unfolding device_ids_rep [OF rep] device_ids_rep [OF rep'] sz using sets by auto
    moreover have "free_ids vq' = insert (unat (ue_id e)) (set fs)" "free_ids vq = set fs"
      using free_ids_eq [OF vf] free_ids_eq [OF vq_rep_free [OF rep]] by simp_all
    moreover have "vq_inv vq'" using vf by (auto simp: vq_inv_def)
    moreover from add_descriptor_free [OF vf, of a l f st] obtain vq'' where
      "virtqueue_add_descriptor vq' a l f st =
        Some (free_head vq', vq'', st\<lparr>buffer_usage := buffer_usage st + 1\<rparr>)"
      "vq_free vq'' fs" "unat (free_head vq') = unat (ue_id e)" by blast
    moreover from this(3) id have "free_head vq' = ucast (ue_id e)" by (simp only: word_unat_eq_iff)
    moreover from \<open>vq_free vq'' fs\<close> have "free_ids vq'' = set fs" by (rule free_ids_eq)
    ultimately show ?thesis using Cons pop id un
      by (intro disjI2 exI [of _ e] exI [of _ es] exI [of _ "ucast (ue_id e)"] exI [of _ vq']) simp
  qed
qed

end
