(* ===== verification/Checksum.thy ===== *)
theory Checksum
  imports Utils
begin

text \<open>
  The two Internet checksums of the stack: \<open>ipv4_checksum\<close> (src/drivers/ethernet/ipv4.c), which
  adds the header's 16-bit words with the first byte high, and the sum of
  src/drivers/ethernet/tcp/tcp_checksum.c, which adds them as the machine loads them, first byte
  low, together with the pseudo-header. Both are instances of one interface, a 16-bit
  one's complement sum over a choice of byte order.
\<close>

section \<open>The code\<close>

text \<open>The loop \<open>while (sum >> 16) sum = (sum & 0xFFFF) + (sum >> 16)\<close>.\<close>

lemma unat_low16: "unat (s AND 0xFFFF :: u32) = unat s mod 65536"
proof -
  have "(0xFFFF :: u32) = mask 16" by (simp add: mask_eq_exp_minus_1)
  then have "s AND 0xFFFF = take_bit 16 s" by (simp only: take_bit_eq_mask)
  then show ?thesis by (simp only: unsigned_take_bit_eq) (simp add: take_bit_eq_mod)
qed

lemma unat_high16: "unat (drop_bit 16 s :: u32) = unat s div 65536"
  by (simp only: unat_drop_bit_eq) (simp add: drop_bit_eq_div)

lemma unat_fold_step:
  "unat ((s AND 0xFFFF) + drop_bit 16 s :: u32) = unat s mod 65536 + unat s div 65536"
proof -
  have "unat s div 65536 < 65536" using unat_u32_less [of s] by (simp add: less_mult_imp_div_less)
  moreover have "unat s mod 65536 < 65536" by simp
  ultimately have "unat s mod 65536 + unat s div 65536 < 4294967296" by linarith
  then show ?thesis by (subst unat_word_ariths(1)) (simp add: unat_low16 unat_high16)
qed

function fold_carry :: "u32 \<Rightarrow> u32" where
  "fold_carry s = (if drop_bit 16 s \<noteq> 0 then fold_carry ((s AND 0xFFFF) + drop_bit 16 s) else s)"
  by pat_completeness auto
termination
proof (relation "measure unat")
  fix s :: u32 assume "drop_bit 16 s \<noteq> 0"
  then have "unat (drop_bit 16 s) \<noteq> 0" by (simp only: unat_eq_0) simp
  then have "0 < unat s div 65536" by (simp only: unat_high16)
  moreover have "unat s = unat s div 65536 * 65536 + unat s mod 65536" by simp
  ultimately have "unat s mod 65536 + unat s div 65536 < unat s" by linarith
  then show "((s AND 0xFFFF) + drop_bit 16 s, s) \<in> measure unat" by (simp only: in_measure unat_fold_step)
qed simp

declare fold_carry.simps [simp del]

fun be_sum :: "bytes \<Rightarrow> nat \<Rightarrow> u32 \<Rightarrow> u32 option" where
  "be_sum (a # b # p) n s =
     (if 1 < n then be_sum p (n - 2) (s + ucast (push_bit 8 (ucast a) OR ucast b :: u16))
      else if n = 1 then Some (s + ucast (push_bit 8 (ucast a) :: u16)) else Some s)"
| "be_sum [a] n s =
     (if 1 < n then None
      else if n = 1 then Some (s + ucast (push_bit 8 (ucast a) :: u16)) else Some s)"
| "be_sum [] n s = (if n = 0 then Some s else None)"

definition ipv4_checksum :: "bytes \<Rightarrow> nat \<Rightarrow> u16 option" where
  "ipv4_checksum data n = do { s \<leftarrow> be_sum data n 0; Some (ucast (NOT (fold_carry s))) }"

fun checksum_accumulate_loop :: "bytes \<Rightarrow> nat \<Rightarrow> u32 \<Rightarrow> u32 option" where
  "checksum_accumulate_loop (a # b # p) n s =
     (if 1 < n then checksum_accumulate_loop p (n - 2) (s + ucast (le16 a b))
      else if n = 1 then Some (s + ucast a) else Some s)"
| "checksum_accumulate_loop [a] n s =
     (if 1 < n then None else if n = 1 then Some (s + ucast a) else Some s)"
| "checksum_accumulate_loop [] n s = (if n = 0 then Some s else None)"

definition checksum_accumulate :: "bytes \<Rightarrow> u16 \<Rightarrow> u32 option" where
  "checksum_accumulate data n = checksum_accumulate_loop data (unat n) 0"

definition checksum_finalize :: "u32 \<Rightarrow> u16" where
  "checksum_finalize s = ucast (NOT (fold_carry s))"

definition IP_PROTO_ICMP :: u8 where "IP_PROTO_ICMP = 1"
definition IP_PROTO_TCP :: u8 where "IP_PROTO_TCP = 6"
definition IP_PROTO_UDP :: u8 where "IP_PROTO_UDP = 17"

definition tcp_pseudo_sum :: "u32 \<Rightarrow> u32 \<Rightarrow> u16 \<Rightarrow> u32" where
  "tcp_pseudo_sum src_ip dst_ip tcp_len =
     (let sum = 0;
          sum = sum + (src_ip AND 0xFFFF);
          sum = sum + drop_bit 16 src_ip;
          sum = sum + (dst_ip AND 0xFFFF);
          sum = sum + drop_bit 16 dst_ip;
          sum = sum + ucast (htons (ucast IP_PROTO_TCP));
          sum = sum + ucast (htons tcp_len)
      in sum)"

definition tcp_compute_checksum :: "u32 \<Rightarrow> u32 \<Rightarrow> bytes \<Rightarrow> u16 \<Rightarrow> u16 option" where
  "tcp_compute_checksum src_ip dst_ip segment tcp_len =
     do { acc \<leftarrow> checksum_accumulate segment tcp_len;
          Some (checksum_finalize (tcp_pseudo_sum src_ip dst_ip tcp_len + acc)) }"

definition tcp_validate_checksum :: "u32 \<Rightarrow> u32 \<Rightarrow> bytes \<Rightarrow> u16 \<Rightarrow> bool option" where
  "tcp_validate_checksum src_ip dst_ip segment n =
     do { res \<leftarrow> tcp_compute_checksum src_ip dst_ip segment n; Some (res = 0) }"

section \<open>One's complement arithmetic\<close>

text \<open>
  The value of a carry fold: 0 for 0 and otherwise the representative between 1 and 65535
  modulo 65535.
\<close>

definition oc :: "nat \<Rightarrow> nat" where
  "oc n = (if n = 0 then 0 else (n - 1) mod 65535 + 1)"

lemma oc_less: "oc n < 65536"
proof -
  have "(n - 1) mod 65535 < 65535" by simp
  then show ?thesis unfolding oc_def by (simp del: mod_less_divisor)
qed

lemma oc_zero_iff [simp]: "oc n = 0 \<longleftrightarrow> n = 0"
  by (simp add: oc_def)

lemma oc_small: "n < 65536 \<Longrightarrow> oc n = n"
  by (simp add: oc_def)

lemma oc_mod: "oc n mod 65535 = n mod 65535"
proof (cases n)
  case (Suc m)
  then show ?thesis by (simp add: oc_def mod_Suc_eq)
qed (simp add: oc_def)

lemma oc_fold_step: "oc (n mod 65536 + n div 65536) = oc n"
proof (cases "n div 65536 = 0")
  case True
  then show ?thesis by (simp add: div_eq_0_iff)
next
  case False
  define q r where "q = n div 65536" and "r = n mod 65536"
  have n: "n = 65535 * q + (r + q)" unfolding q_def r_def using div_mult_mod_eq [of n 65536] by linarith
  have "q \<noteq> 0" using False by (simp add: q_def)
  then have "n - 1 = 65535 * q + (r + q - 1)" using n by linarith
  then have "(n - 1) mod 65535 = (r + q - 1) mod 65535" by simp
  then have "oc n = oc (r + q)" using \<open>q \<noteq> 0\<close> n by (simp add: oc_def)
  then show ?thesis by (simp add: q_def r_def)
qed

lemma oc_full_iff: "oc n = 65535 \<longleftrightarrow> n \<noteq> 0 \<and> n mod 65535 = 0"
proof
  assume oc: "oc n = 65535"
  then have "n \<noteq> 0" by (cases "n = 0") (simp_all add: oc_def)
  with oc show "n \<noteq> 0 \<and> n mod 65535 = 0" using oc_mod [of n] by (auto simp: oc_def)
next
  assume n: "n \<noteq> 0 \<and> n mod 65535 = 0"
  then have "oc n mod 65535 = 0" "oc n \<noteq> 0" using oc_mod [of n] by auto
  then obtain k where k: "oc n = 65535 * k" by (auto simp: mod_eq_0_iff_dvd elim!: dvdE)
  with \<open>oc n \<noteq> 0\<close> oc_less [of n] have "0 < k" "k < 2" by (cases k; linarith)+
  then have "k = 1" by linarith
  with k show "oc n = 65535" by simp
qed

lemma unat_fold_carry: "unat (fold_carry s) = oc (unat s)"
proof (induction s rule: fold_carry.induct)
  case (1 s)
  show ?case
  proof (cases "drop_bit 16 s = 0")
    case True
    then have "unat s div 65536 = 0" using unat_high16 [of s] by simp
    then have "unat s < 65536" by (simp add: div_eq_0_iff)
    then show ?thesis using True by (simp add: fold_carry.simps [of s] oc_small)
  next
    case False
    with 1 have "unat (fold_carry s) = oc (unat ((s AND 0xFFFF) + drop_bit 16 s))"
      by (simp add: fold_carry.simps [of s])
    then show ?thesis by (simp only: unat_fold_step oc_fold_step)
  qed
qed

lemma unat_finalize: "unat (checksum_finalize s) = 65535 - oc (unat s)"
proof -
  let ?f = "fold_carry s"
  have lt: "unat ?f < 65536" using oc_less by (simp add: unat_fold_carry)
  have "unat (NOT ?f) = 4294967295 - unat ?f"
  proof -
    have "NOT ?f = - 1 - ?f" by (simp add: not_eq_complement)
    moreover have "?f \<le> - 1" by simp
    ultimately have "unat (NOT ?f) = unat (- 1 :: u32) - unat ?f" by (simp only: unat_sub)
    moreover have "unat (- 1 :: u32) = 4294967295"
      by (simp only: unsigned_minus_1_eq_mask) (simp add: mask_eq_exp_minus_1)
    ultimately show ?thesis by simp
  qed
  then have "unat (checksum_finalize s) = (4294967295 - unat ?f) mod 65536"
    by (simp add: checksum_finalize_def unat_ucast)
  also have "\<dots> = 65535 - unat ?f"
  proof -
    have "4294967295 - unat ?f = 65535 * 65536 + (65535 - unat ?f)" using lt by simp
    then show ?thesis by (simp only: mod_mult_self3) simp
  qed
  finally show ?thesis by (simp add: unat_fold_carry)
qed

section \<open>The one's complement sum as an interface\<close>

text \<open>
  The sum of the 16-bit words of a byte string, an odd last byte padded with 0, for a byte order
  \<open>pair\<close>.
\<close>

fun word_total :: "(u8 \<Rightarrow> u8 \<Rightarrow> u16) \<Rightarrow> bytes \<Rightarrow> nat" where
  "word_total pair (a # b # p) = unat (pair a b) + word_total pair p"
| "word_total pair [a] = unat (pair a 0)"
| "word_total pair [] = 0"

lemma word_total_bound: "word_total pair p \<le> 65535 * ((length p + 1) div 2)"
proof (induction pair p rule: word_total.induct)
  case (1 pair a b p)
  then show ?case using unat_u16_less [of "pair a b"] by (simp del: unat_u16_less)
next
  case (2 pair a)
  then show ?case using unat_u16_less [of "pair a 0"] by (simp del: unat_u16_less)
qed simp

lemma word_total_append:
  "even (length p) \<Longrightarrow> word_total pair (p @ q) = word_total pair p + word_total pair q"
  by (induction pair p rule: word_total.induct) auto

locale inet_sum =
  fixes pair :: "u8 \<Rightarrow> u8 \<Rightarrow> u16"
    and loop :: "bytes \<Rightarrow> nat \<Rightarrow> u32 \<Rightarrow> u32 option"
  assumes loop_done: "loop p 0 s = Some s"
    and loop_pair: "2 \<le> n \<Longrightarrow> loop (a # b # p) n s = loop p (n - 2) (s + ucast (pair a b))"
    and loop_odd: "loop (a # p) 1 s = Some (s + ucast (pair a 0))"
    and loop_short: "length p < n \<Longrightarrow> loop p n s = None"
begin

text \<open>Without overflow of the 32-bit accumulator the loop adds exactly the words.\<close>

lemma loop_total:
  assumes "n \<le> length p" and "unat s + word_total pair (take n p) < 2 ^ 32"
  shows "\<exists>t. loop p n s = Some t \<and> unat t = unat s + word_total pair (take n p)"
  using assms
proof (induction p arbitrary: n s rule: induct_list012)
  case (3 a b p)
  consider "n = 0" | "n = 1" | k where "n = Suc (Suc k)" 
    by (metis One_nat_def not0_implies_Suc)
  then show ?case
  proof cases
    case 1
    then show ?thesis by (simp add: loop_done)
  next
    case 2
    then show ?thesis using "3.prems" loop_odd [of a "b # p" s] by (auto simp: unat_word_ariths)
  next
    case k: 3
    have u: "unat (s + ucast (pair a b)) = unat s + unat (pair a b)"
      using "3.prems"(2) k by (simp add: unat_word_ariths)
    have "k \<le> length p" "unat (s + ucast (pair a b)) + word_total pair (take k p) < 2 ^ 32"
      using "3.prems" k u by simp_all
    from "3.IH"(1) [OF this] show ?thesis using k u by (simp add: loop_pair add.assoc)
  qed
next
  case (2 a)
  then consider "n = 0" | "n = 1" by fastforce
  then show ?case using 2 loop_odd [of a "[]" s] by cases (auto simp: loop_done unat_word_ariths)
next
  case 1
  then show ?case by (simp add: loop_done)
qed

lemma loop_short_iff: "unat s + word_total pair (take n p) < 2 ^ 32 \<Longrightarrow> loop p n s = None \<longleftrightarrow> length p < n"
  using loop_total [of n p s] loop_short [of p n s] by (cases "length p < n") auto

end

definition be16 :: "u8 \<Rightarrow> u8 \<Rightarrow> u16" where
  "be16 a b = push_bit 8 (ucast a) OR ucast b"

lemma be16_le16: "be16 a b = le16 b a"
  by (simp add: be16_def le16_def or.commute)

lemma le16_0: "ucast (le16 a 0) = (ucast a :: u32)"
  by (simp only: word_unat_eq_iff) (simp add: unat_le16)

lemma be16_0: "be16 a 0 = push_bit 8 (ucast a)"
  by (simp add: be16_def)

interpretation be: inet_sum be16 be_sum
proof (unfold_locales, goal_cases)
  case (1 p s) show ?case by (cases p; cases "tl p") auto
next
  case (2 n a b p s) then show ?case by (simp add: be16_def)
next
  case (3 a p s) show ?case by (cases p) (auto simp: be16_0)
next
  case (4 p n s) then show ?case by (induction p n s rule: be_sum.induct) auto
qed

interpretation le: inet_sum le16 checksum_accumulate_loop
proof (unfold_locales, goal_cases)
  case (1 p s) show ?case by (cases p; cases "tl p") auto
next
  case (2 n a b p s) then show ?case by simp
next
  case (3 a p s) show ?case by (cases p) (auto simp: le16_0)
next
  case (4 p n s) then show ?case by (induction p n s rule: checksum_accumulate_loop.induct) auto
qed

section \<open>Both sums in closed form\<close>

lemma unat_le16_be16:
  "unat (le16 a b) = unat a + 256 * unat b" "unat (be16 a b) = 256 * unat a + unat b"
  by (simp_all add: be16_le16 unat_le16)

text \<open>The two byte orders agree up to a factor 256, a unit modulo 65535.\<close>

lemma word_total_le_be: "word_total le16 p mod 65535 = 256 * word_total be16 p mod 65535"
proof (induction p rule: induct_list012)
  case (2 a)
  have "256 * (256 * unat a) = unat a + 65535 * unat a" by simp
  then have "256 * (256 * unat a) mod 65535 = unat a mod 65535" by (simp only: mod_mult_self2)
  then show ?case by (simp add: unat_le16_be16)
next
  case (3 a b p)
  have "256 * (256 * unat a + unat b + word_total be16 p)
      = (unat a + 256 * unat b + 256 * word_total be16 p) + 65535 * unat a" by simp
  then have "256 * (256 * unat a + unat b + word_total be16 p) mod 65535
      = (unat a + 256 * unat b + 256 * word_total be16 p) mod 65535" by (simp only: mod_mult_self2)
  also have "\<dots> = (unat a + 256 * unat b + word_total le16 p) mod 65535"
    using 3(1) by (rule mod_add_cong [OF refl sym])
  finally show ?case by (simp add: unat_le16_be16)
qed simp

text \<open>Storing a word where there was a zero word adds that word.\<close>

lemma word_total_store:
  assumes "even k" and "k + 1 < length p" and "p ! k = 0" and "p ! (k + 1) = 0"
    and "pair 0 0 = 0"
  shows "word_total pair (p[k := a, k + 1 := b]) = word_total pair p + unat (pair a b)"
proof -
  obtain us vs where p: "p = us @ 0 # 0 # vs" and l: "length us = k"
  proof
    show "p = take k p @ 0 # 0 # drop (k + 2) p"
      using assms(2-4) by (metis Cons_nth_drop_Suc Suc_eq_plus1 Suc_lessD add_2_eq_Suc' append_take_drop_id)
    show "length (take k p) = k" using assms(2) by simp
  qed
  have "p[k := a, k + 1 := b] = us @ a # b # vs"
    unfolding p by (simp add: list_update_append l)
  then show ?thesis using assms(1,5) by (simp add: p word_total_append l)
qed

lemma take_store: "n \<ge> k + 2 \<Longrightarrow> take n (p[k := a, k + 1 := b]) = (take n p)[k := a, k + 1 := b]"
  by (simp add: take_update_swap)

lemma word_total_take_bound: "n \<le> 65535 \<Longrightarrow> word_total pair (take n p) \<le> 2147450880"
proof -
  assume "n \<le> 65535"
  then have "length (take n p) \<le> 65535" by simp
  then have "(length (take n p) + 1) div 2 \<le> 32768" by presburger
  then show ?thesis using word_total_bound [of pair "take n p"] by linarith
qed

lemma ipv4_checksum_total:
  assumes "n \<le> length p" and "n \<le> 65535"
  shows "\<exists>c. ipv4_checksum p n = Some c \<and> unat c = 65535 - oc (word_total be16 (take n p))"
proof -
  have "unat (0 :: u32) + word_total be16 (take n p) < 2 ^ 32"
    using word_total_take_bound [OF assms(2), of be16 p] by simp
  from be.loop_total [OF assms(1) this] show ?thesis
    using unat_finalize by (auto simp: ipv4_checksum_def checksum_finalize_def)
qed

text \<open>The sum of the two halves of an address.\<close>

definition ip_halves :: "u32 \<Rightarrow> nat" where
  "ip_halves ip = unat ip mod 65536 + unat ip div 65536"

lemma ip_halves_bound: "ip_halves ip \<le> 131070"
proof -
  have "unat ip div 65536 < 65536" by (simp add: less_mult_imp_div_less)
  moreover have "unat ip mod 65536 < 65536" by simp
  ultimately show ?thesis unfolding ip_halves_def by linarith
qed

definition tcp_total :: "u32 \<Rightarrow> u32 \<Rightarrow> bytes \<Rightarrow> u16 \<Rightarrow> nat" where
  "tcp_total src dst seg n = ip_halves src + ip_halves dst + unat (htons 6) + unat (htons n)
     + word_total le16 (take (unat n) seg)"

lemma unat_tcp_pseudo_sum:
  "unat (tcp_pseudo_sum src dst n) = ip_halves src + ip_halves dst + unat (htons 6) + unat (htons n)"
  "unat (tcp_pseudo_sum src dst n) \<le> 393210"
proof -
  note b = ip_halves_bound [of src, unfolded ip_halves_def] ip_halves_bound [of dst, unfolded ip_halves_def]
  have h: "unat (htons 6) < 65536" "unat (htons n) < 65536" by (rule unat_u16_less)+
  have six: "(ucast IP_PROTO_TCP :: u16) = 6" by (simp add: IP_PROTO_TCP_def)
  show eq: "unat (tcp_pseudo_sum src dst n)
      = ip_halves src + ip_halves dst + unat (htons 6) + unat (htons n)"
    using b h unfolding tcp_pseudo_sum_def Let_def six ip_halves_def
    by (simp add: unat_word_ariths unat_low16 unat_high16 del: unat_u16_less)
  show "unat (tcp_pseudo_sum src dst n) \<le> 393210"
    unfolding eq using ip_halves_bound [of src] ip_halves_bound [of dst] h by linarith
qed

lemma tcp_checksum_total:
  assumes "unat n \<le> length seg"
  shows "\<exists>c. tcp_compute_checksum src dst seg n = Some c \<and> unat c = 65535 - oc (tcp_total src dst seg n)"
proof -
  have n: "unat n \<le> 65535" using unat_u16_less [of n] by linarith
  note w = word_total_take_bound [OF n, of le16 seg]
  then have "unat (0 :: u32) + word_total le16 (take (unat n) seg) < 2 ^ 32" by simp
  from le.loop_total [OF assms this] obtain t where
    t: "checksum_accumulate seg n = Some t" "unat t = word_total le16 (take (unat n) seg)"
    by (auto simp: checksum_accumulate_def)
  have "unat (tcp_pseudo_sum src dst n + t) = tcp_total src dst seg n"
    using unat_tcp_pseudo_sum [of src dst n] w by (simp add: unat_word_ariths t tcp_total_def)
  then show ?thesis using t unat_finalize by (simp add: tcp_compute_checksum_def)
qed

lemma tcp_total_pos: "0 < tcp_total src dst seg n"
proof -
  have "unat (htons 6) = 1536" by (simp add: htons_def)
  then show ?thesis by (simp add: tcp_total_def)
qed

lemma tcp_validate_total:
  assumes "unat n \<le> length seg"
  shows "tcp_validate_checksum src dst seg n = Some (tcp_total src dst seg n mod 65535 = 0)"
proof -
  from tcp_checksum_total [OF assms, of src dst] obtain c where
    c: "tcp_compute_checksum src dst seg n = Some c" "unat c = 65535 - oc (tcp_total src dst seg n)" by blast
  have "c = 0 \<longleftrightarrow> unat c = 0" by (simp add: unat_eq_0)
  also have "\<dots> \<longleftrightarrow> oc (tcp_total src dst seg n) = 65535" using c oc_less [of "tcp_total src dst seg n"] by auto
  also have "\<dots> \<longleftrightarrow> tcp_total src dst seg n mod 65535 = 0" using tcp_total_pos by (auto simp: oc_full_iff)
  finally show ?thesis using c by (simp add: tcp_validate_checksum_def)
qed

lemma checksum_completes: "(t + (65535 - oc t)) mod 65535 = 0"
proof -
  have "(t + (65535 - oc t)) mod 65535 = (oc t + (65535 - oc t)) mod 65535"
    using oc_mod [of t] by (intro mod_add_cong) simp_all
  also have "oc t + (65535 - oc t) = 65535" using oc_less [of t] by simp
  finally show ?thesis by simp
qed

text \<open>
  The TCP checksum agrees with its own validation: the value computed over a segment whose
  checksum field is 0, stored in that field the way \<open>tcp_send_segment\<close> stores it (one 16-bit
  store), makes \<open>tcp_validate_checksum\<close> accept the segment, also with the two addresses swapped.
\<close>

lemma tcp_checksum_roundtrip:
  assumes "18 \<le> unat n" and "unat n \<le> length seg" and "seg ! 16 = 0" and "seg ! 17 = 0"
  shows "\<exists>c. tcp_compute_checksum src dst seg n = Some c
    \<and> tcp_validate_checksum src dst (seg[16 := ucast c, 17 := ucast (drop_bit 8 c)]) n = Some True
    \<and> tcp_validate_checksum dst src (seg[16 := ucast c, 17 := ucast (drop_bit 8 c)]) n = Some True"
proof -
  from tcp_checksum_total [OF assms(2), of src dst] obtain c where
    c: "tcp_compute_checksum src dst seg n = Some c" "unat c = 65535 - oc (tcp_total src dst seg n)" by blast
  let ?q = "seg[16 := ucast c, 17 := ucast (drop_bit 8 c)]" and ?t = "tcp_total src dst seg n"
  have "word_total le16 ((take (unat n) seg)[16 := ucast c, 16 + 1 := ucast (drop_bit 8 c)])
      = word_total le16 (take (unat n) seg) + unat (le16 (ucast c) (ucast (drop_bit 8 c)))"
    using assms by (intro word_total_store) (simp_all add: le16_def)
  then have "word_total le16 (take (unat n) ?q) = word_total le16 (take (unat n) seg) + unat c"
    using take_store [of 16 "unat n" seg] assms(1) by simp
  then have "tcp_total src dst ?q n = ?t + (65535 - oc ?t)"
    and "tcp_total dst src ?q n = ?t + (65535 - oc ?t)"
    using c(2) by (simp_all add: tcp_total_def)
  then have "tcp_total src dst ?q n mod 65535 = 0" "tcp_total dst src ?q n mod 65535 = 0"
    by (simp_all only: checksum_completes)
  then show ?thesis using c(1) assms(2) by (simp add: tcp_validate_total)
qed

section \<open>Properties\<close>

text \<open>
  \<open>ipv4_checksum\<close> is the Internet checksum of RFC 1071: the complement of the one's
  complement sum of the big-endian words of the header; and it verifies: once stored in network
  order in a zero word of the header, the sum over the whole is 0. Reading past the object is a
  fault.
\<close>

lemma ipv4_checksum_is_internet_checksum:
  assumes "even k" and "k + 2 \<le> n" and "n \<le> length p" and "n \<le> 65535"
    and "p ! k = 0" and "p ! (k + 1) = 0"
  shows "\<exists>c. ipv4_checksum p n = Some c \<and> unat c = 65535 - oc (word_total be16 (take n p))
    \<and> ipv4_checksum (p[k := ucast (drop_bit 8 c), k + 1 := ucast c]) n = Some 0"
proof -
  from ipv4_checksum_total [OF assms(3,4)] obtain c where
    c: "ipv4_checksum p n = Some c" "unat c = 65535 - oc (word_total be16 (take n p))" by blast
  let ?q = "p[k := ucast (drop_bit 8 c), k + 1 := ucast c]" and ?t = "word_total be16 (take n p)"
  have "n \<le> length ?q" using assms by simp
  from ipv4_checksum_total [OF this assms(4)] obtain d where
    d: "ipv4_checksum ?q n = Some d" "unat d = 65535 - oc (word_total be16 (take n ?q))" by blast
  have "word_total be16 (take n ?q) = ?t + unat (be16 (ucast (drop_bit 8 c)) (ucast c))"
    unfolding take_store [OF assms(2)] using assms
    by (intro word_total_store) (simp_all add: be16_def)
  also have "\<dots> = ?t + (65535 - oc ?t)" using c(2) by (simp add: be16_le16)
  finally have tot: "word_total be16 (take n ?q) = ?t + (65535 - oc ?t)" .
  have "?t + (65535 - oc ?t) \<noteq> 0" by (cases "?t = 0") (simp_all add: oc_def)
  then have "oc (word_total be16 (take n ?q)) = 65535"
    using checksum_completes [of ?t] by (simp only: tot oc_full_iff) simp
  then have "d = 0" using d(2) by (simp add: unat_eq_0)
  with c d(1) show ?thesis by blast
qed

text \<open>Swapping the bytes of a number multiplies the sum of its halves by 256 modulo 65535.\<close>

lemma htons_mod: "unat (htons w) mod 65535 = 256 * unat w mod 65535"
proof -
  have w: "w = le16 (ucast w) (ucast (drop_bit 8 w))" by simp
  have "256 * unat w = unat (htons w) + 65535 * unat (ucast (drop_bit 8 w) :: u8)"
    by (subst (1 2) w) (simp only: htons_le16 unat_le16, simp)
  then show ?thesis by (simp only: mod_mult_self2)
qed

lemma mod_0_pair: "(a + b) mod m = 0 \<Longrightarrow> b mod m = 0 \<longleftrightarrow> a mod m = 0" for a b m :: nat
  by (auto simp: mod_eq_0_iff_dvd dvd_add_left_iff dvd_add_right_iff)

text \<open>
  C34: the pseudo-header is added in the wrong byte order: the code adds the host-order halves of
  the addresses to words loaded low byte first. A segment that is correct by RFC 793 (its
  big-endian words, the addresses' halves, the protocol and the length add up to a multiple of
  65535) is accepted exactly when 257 divides the sum of the halves of the two addresses.
\<close>

theorem tcp_accepts_correct_segment_iff_257:
  assumes "unat n \<le> length seg"
    and "(ip_halves src + ip_halves dst + 6 + unat n + word_total be16 (take (unat n) seg)) mod 65535 = 0"
  shows "tcp_validate_checksum src dst seg n = Some (257 dvd (ip_halves src + ip_halves dst))"
proof -
  let ?h = "ip_halves src + ip_halves dst" and ?w = "word_total be16 (take (unat n) seg)"
  have six: "256 * (6 :: nat) = 256 * unat (6 :: u16)" by simp
  have "tcp_total src dst seg n mod 65535 = (?h + 256 * 6 + 256 * unat n + 256 * ?w) mod 65535"
    unfolding tcp_total_def six by (intro mod_add_cong refl htons_mod word_total_le_be)
  then have "(255 * ?h + tcp_total src dst seg n) mod 65535
      = (255 * ?h + (?h + 256 * 6 + 256 * unat n + 256 * ?w)) mod 65535"
    by (rule mod_add_cong [OF refl])
  also have "255 * ?h + (?h + 256 * 6 + 256 * unat n + 256 * ?w)
      = 256 * (?h + 6 + unat n + ?w)" by simp
  also have "\<dots> mod 65535 = 0" 
    using assms(2) mod_mult_right_eq [of 256 "?h + 6 + unat n + ?w" 65535] by simp
  finally have z: "(255 * ?h + tcp_total src dst seg n) mod 65535 = 0" .
  have "tcp_total src dst seg n mod 65535 = 0 \<longleftrightarrow> 255 * ?h mod 65535 = 0"
    using z by (rule mod_0_pair)
  also have "\<dots> \<longleftrightarrow> 255 * 257 dvd 255 * ?h" by (simp add: mod_eq_0_iff_dvd)
  also have "\<dots> \<longleftrightarrow> 257 dvd ?h" by (subst nat_mult_dvd_cancel_disj) simp
  finally show ?thesis by (simp only: tcp_validate_total [OF assms(1)])
qed

theorem tcp_accepts_correct_segment_iff_257_witness:
  "tcp_validate_checksum 0x0A000202 0x0A00020F
     [0, 0, 0, 0, 0, 0, 0, 0, 0, 0, 0, 0, 0, 0, 0, 0, 231, 212, 0, 0] 20 = Some False"
proof -
  let ?s = "[0, 0, 0, 0, 0, 0, 0, 0, 0, 0, 0, 0, 0, 0, 0, 0, 231, 212, 0, 0] :: bytes"
  have n: "unat (20 :: u16) \<le> length ?s" "take (unat (20 :: u16)) ?s = ?s" by simp_all
  have w: "word_total be16 ?s = 59348" by (simp add: be16_def)
  have h: "ip_halves 0x0A000202 + ip_halves 0x0A00020F = 6161" by (simp add: ip_halves_def)
  have "(6161 + 6 + unat (20 :: u16) + 59348) mod 65535 = 0" by simp
  from tcp_accepts_correct_segment_iff_257 [OF n(1), of "0x0A000202" "0x0A00020F", unfolded n(2) w h, OF this]
  show ?thesis by simp
qed

end
