(* ===== verification/Memory.thy ===== *)
theory Memory
  imports Utils
begin

text \<open>
  The kernel heap (src/AetherWebOS/src/kernel/memory.c): a bump allocator whose blocks are never
  split or merged, chained through headers in front of each payload, and the bump allocator of
  the virtual range for device registers. The headers are a typed store, from a header's address
  to its fields; the payload bytes are the byte-addressed RAM.
\<close>

section \<open>State\<close>

record mem_header =
  mh_size :: u64
  mh_is_free :: bool
  mh_next :: addr

record heap =
  heap_ptr :: u64
  free_list :: addr
  headers :: "addr \<rightharpoonup> mem_header"
  vmalloc_ptr :: u64
  heap_current_ptr :: u64
  ram :: ram

definition HEAP_START :: u64 where "HEAP_START = 0x41000000"
definition HEAP_SIZE :: u64 where "HEAP_SIZE = 16 * 1024 * 1024"
definition PAGE_SIZE :: u64 where "PAGE_SIZE = 4096"
definition PAGE_MASK :: u64 where "PAGE_MASK = NOT (PAGE_SIZE - 1)"
definition VMALLOC_START :: u64 where "VMALLOC_START = 0x80000000"
definition VMALLOC_MAX :: u64 where "VMALLOC_MAX = VMALLOC_START + 4 * 2 * 1024 * 1024"

text \<open>\<open>sizeof(mem_header_t)\<close>: an 8-byte size, a 4-byte int with 4 bytes of padding, a pointer.\<close>

definition MEM_HEADER_SIZE :: u64 where "MEM_HEADER_SIZE = 24"

definition heap_init :: "ram \<Rightarrow> heap" where
  "heap_init r = \<lparr>heap_ptr = HEAP_START, free_list = 0, headers = Map.empty,
     vmalloc_ptr = 0x80000000, heap_current_ptr = HEAP_START, ram = r\<rparr>"

section \<open>Operations\<close>

definition kmalloc_init :: "uart \<Rightarrow> uart" where
  "kmalloc_init u =
     uart_puts (str ''[OK] Memory Subsystem: Online (Expanded L3 Support Active).'' @ crlf) u"

definition align8 :: "u64 \<Rightarrow> u64" where
  "align8 n = (n + 7) AND NOT 7"

definition kmalloc :: "u64 \<Rightarrow> uart \<Rightarrow> heap \<Rightarrow> (addr \<times> uart \<times> heap) option" where
  "kmalloc size0 u h =
     (let sz = align8 size0 in
      do { current \<leftarrow> walk mh_next (\<lambda>_ b. mh_is_free b \<and> sz \<le> mh_size b) (headers h) (free_list h);
           if current \<noteq> 0
           then do { b \<leftarrow> headers h current;
                     Some (current + MEM_HEADER_SIZE, u,
                       h\<lparr>headers := (headers h)(current \<mapsto> b\<lparr>mh_is_free := False\<rparr>)\<rparr>) }
           else
             let total_size = MEM_HEADER_SIZE + sz in
             if HEAP_START + HEAP_SIZE < heap_ptr h + total_size
             then Some (0, uart_puts (str ''[ERROR] kmalloc: Heap Exhausted!'' @ crlf) u, h)
             else
               let header = heap_ptr h in
               Some (header + MEM_HEADER_SIZE, u,
                 h\<lparr>headers := (headers h)(header \<mapsto>
                       \<lparr>mh_size = sz, mh_is_free = False, mh_next = free_list h\<rparr>),
                   free_list := header,
                   heap_ptr := heap_ptr h + total_size\<rparr>) })"

definition kfree :: "addr \<Rightarrow> heap \<Rightarrow> heap option" where
  "kfree ptr h =
     (if ptr = 0 then Some h
      else do { b \<leftarrow> headers h (ptr - MEM_HEADER_SIZE);
                Some (h\<lparr>headers := (headers h)(ptr - MEM_HEADER_SIZE \<mapsto> b\<lparr>mh_is_free := True\<rparr>)\<rparr>) })"

definition vmalloc :: "u64 \<Rightarrow> uart \<Rightarrow> heap \<Rightarrow> addr \<times> uart \<times> heap" where
  "vmalloc size0 u h =
     (let sz = (size0 + PAGE_SIZE - 1) AND PAGE_MASK in
      if VMALLOC_MAX < vmalloc_ptr h + sz
      then (0, uart_puts (str ''[ERROR] vmalloc: Out of virtual dynamic space (Pool exhausted)!'' @ crlf) u, h)
      else (vmalloc_ptr h, u, h\<lparr>vmalloc_ptr := vmalloc_ptr h + sz\<rparr>))"

definition get_heap_usage :: "heap \<Rightarrow> u64" where
  "get_heap_usage h = heap_current_ptr h - HEAP_START"

text \<open>
  A store through a payload pointer: it must stay inside a block that is not free. The bytes at
  offset \<open>off\<close> of the block at \<open>p\<close> become \<open>bs\<close>.
\<close>

definition heap_write :: "addr \<Rightarrow> nat \<Rightarrow> bytes \<Rightarrow> heap \<Rightarrow> heap option" where
  "heap_write p off bs h =
     (case headers h (p - MEM_HEADER_SIZE) of
        None \<Rightarrow> None
      | Some b \<Rightarrow>
          if \<not> mh_is_free b \<and> off + length bs \<le> unat (mh_size b)
          then Some (h\<lparr>ram := ram_write (ram h) (p + of_nat off) bs\<rparr>) else None)"

section \<open>The abstract view: live blocks\<close>

text \<open>A heap is abstractly the partial map from the pointers handed out to the room behind them.\<close>

definition live :: "heap \<Rightarrow> addr \<rightharpoonup> nat" where
  "live h p = (case headers h (p - MEM_HEADER_SIZE) of
     None \<Rightarrow> None
   | Some b \<Rightarrow> if mh_is_free b \<or> p = 0 then None else Some (unat (mh_size b)))"

text \<open>The blocks tile the heap: each starts where the block allocated before it ends.\<close>

primrec tiled :: "(addr \<rightharpoonup> mem_header) \<Rightarrow> nat \<Rightarrow> addr list \<Rightarrow> bool" where
  "tiled m e [] \<longleftrightarrow> e = unat HEAP_START"
| "tiled m e (a # as) \<longleftrightarrow>
     (case m a of None \<Rightarrow> False
      | Some b \<Rightarrow> e = unat a + 24 + unat (mh_size b) \<and> tiled m (unat a) as)"

definition heap_blocks :: "heap \<Rightarrow> addr list \<Rightarrow> bool" where
  "heap_blocks h as \<longleftrightarrow> path mh_next (headers h) (free_list h) as
     \<and> tiled (headers h) (unat (heap_ptr h)) as
     \<and> dom (headers h) = set as
     \<and> unat (heap_ptr h) \<le> unat (HEAP_START + HEAP_SIZE)"

definition heap_inv :: "heap \<Rightarrow> bool" where
  "heap_inv h \<longleftrightarrow> (\<exists>as. heap_blocks h as)"

lemmas heap_consts = HEAP_START_def HEAP_SIZE_def MEM_HEADER_SIZE_def

lemma unat_HEAP_START [simp]: "unat HEAP_START = 0x41000000"
  by (simp add: heap_consts)

lemma unat_HEAP_END [simp]: "unat (HEAP_START + HEAP_SIZE) = 0x42000000"
  by (simp add: heap_consts)

lemma heap_init_inv: "heap_inv (heap_init r)"
  by (auto simp: heap_inv_def heap_blocks_def heap_init_def intro!: exI [of _ "[]"])

lemma tiled_cong:
  "(\<And>a. a \<in> set as \<Longrightarrow> map_option mh_size (m a) = map_option mh_size (m' a)) \<Longrightarrow>
   tiled m e as = tiled m' e as"
proof (induction as arbitrary: e)
  case Nil
  then show ?case by simp
next
  case (Cons a as)
  have hd: "map_option mh_size (m a) = map_option mh_size (m' a)" by (rule Cons.prems) simp
  have "tiled m q as = tiled m' q as" for q by (rule Cons.IH) (rule Cons.prems, simp)
  with hd show ?case by (cases "m a"; cases "m' a") auto
qed

lemma tiled_start: "tiled m e as \<Longrightarrow> 0x41000000 \<le> e"
proof (induction as arbitrary: e)
  case Nil
  then show ?case by simp
next
  case (Cons a as)
  then obtain b where b: "e = unat a + 24 + unat (mh_size b)" "tiled m (unat a) as" "m a = Some b"
    by (auto split: option.splits)
  from Cons.IH [OF b(2)] b(1) show ?case by linarith
qed

lemma tiled_block:
  "tiled m e as \<Longrightarrow> a \<in> set as \<Longrightarrow>
   \<exists>b. m a = Some b \<and> 0x41000000 \<le> unat a \<and> unat a + 24 + unat (mh_size b) \<le> e"
proof (induction as arbitrary: e a)
  case Nil
  then show ?case by simp
next
  case (Cons x as)
  then obtain b where b: "m x = Some b" "e = unat x + 24 + unat (mh_size b)" "tiled m (unat x) as"
    by (auto split: option.splits)
  have lo: "0x41000000 \<le> unat x" by (rule tiled_start [OF b(3)])
  show ?case
  proof (cases "a = x")
    case True
    with b lo show ?thesis by auto
  next
    case False
    with Cons.IH [OF b(3)] Cons.prems b show ?thesis by fastforce
  qed
qed

text \<open>Two blocks of the tiling do not overlap, headers included.\<close>

lemma tiled_disjoint:
  "tiled m e as \<Longrightarrow> a \<in> set as \<Longrightarrow> c \<in> set as \<Longrightarrow> a \<noteq> c \<Longrightarrow> m a = Some b \<Longrightarrow> m c = Some d \<Longrightarrow>
   unat a + 24 + unat (mh_size b) \<le> unat c \<or> unat c + 24 + unat (mh_size d) \<le> unat a"
proof (induction as arbitrary: e)
  case Nil
  then show ?case by simp
next
  case (Cons x as)
  then have t: "tiled m (unat x) as" by (auto split: option.splits)
  show ?case
  proof (cases "a = x \<or> c = x")
    case True
    then show ?thesis using tiled_block [OF t] Cons.prems by fastforce
  next
    case False
    then show ?thesis using Cons.IH [OF t] Cons.prems by auto
  qed
qed

section \<open>Alignment\<close>

lemma bit_7: "bit (7 :: int) n \<longleftrightarrow> n < 3"
proof -
  have "(7 :: int) = mask 3" by (simp add: mask_eq_exp_minus_1)
  then show ?thesis by (simp only: bit_mask_iff possible_bit_def) simp
qed

lemma and_not_7: "(x :: u64) AND NOT 7 = push_bit 3 (drop_bit 3 x)"
  by (rule bit_word_eqI) (auto simp: bit_simps bit_7)

lemma unat_align8:
  assumes "unat n + 7 < 2 ^ 64"
  shows "unat (align8 n) = (unat n + 7) div 8 * 8"
proof -
  have sum: "unat (n + 7) = unat n + 7"
    using assms by (simp add: unat_word_ariths)
  have le: "unat n + 7 \<ge> (unat n + 7) div 8 * 8" by simp
  have "unat (push_bit 3 (drop_bit 3 (n + 7))) = unat (drop_bit 3 (n + 7)) * 8 mod 2 ^ 64"
    by (simp add: push_bit_eq_mult unat_word_ariths)
  also have "unat (drop_bit 3 (n + 7)) = (unat n + 7) div 8"
    by (simp only: unat_drop_bit_eq) (simp only: sum drop_bit_eq_div, simp)
  also have "(unat n + 7) div 8 * 8 mod 2 ^ 64 = (unat n + 7) div 8 * 8"
    using assms le by (intro mod_less) linarith
  finally show ?thesis by (simp only: align8_def and_not_7)
qed

lemma align8_bounds:
  assumes "unat n \<le> 2 ^ 32"
  shows "unat n \<le> unat (align8 n)" "unat (align8 n) \<le> unat n + 7" "unat (align8 n) \<le> 2 ^ 32"
proof -
  have eq: "unat (align8 n) = (unat n + 7) div 8 * 8"
    by (rule unat_align8) (use assms in simp)
  show "unat n \<le> unat (align8 n)" unfolding eq by presburger
  show "unat (align8 n) \<le> unat n + 7" unfolding eq by presburger
  show "unat (align8 n) \<le> 2 ^ 32" unfolding eq using assms by auto
qed

section \<open>kmalloc and kfree keep the heap well formed\<close>

lemma header_payload: "(p :: addr) - MEM_HEADER_SIZE = a \<longleftrightarrow> p = a + MEM_HEADER_SIZE"
  by (auto simp: algebra_simps)

lemma block_payload_nonnull:
  assumes "heap_blocks h as" and "a \<in> set as"
  shows "a + MEM_HEADER_SIZE \<noteq> 0" "unat (a + MEM_HEADER_SIZE) = unat a + 24"
proof -
  have "tiled (headers h) (unat (heap_ptr h)) as" using assms by (simp add: heap_blocks_def)
  from tiled_block [OF this assms(2)] have "unat a + 24 \<le> unat (heap_ptr h)" by auto
  moreover have "unat (heap_ptr h) \<le> 0x42000000" using assms by (simp add: heap_blocks_def)
  ultimately show eq: "unat (a + MEM_HEADER_SIZE) = unat a + 24"
    by (simp add: unat_word_ariths MEM_HEADER_SIZE_def)
  then show "a + MEM_HEADER_SIZE \<noteq> 0" by auto
qed

text \<open>Marking a block free or busy changes no link and no size.\<close>

lemma heap_blocks_mark:
  assumes "heap_blocks h as" and "headers h a = Some b"
  shows "heap_blocks (h\<lparr>headers := (headers h)(a \<mapsto> b\<lparr>mh_is_free := f\<rparr>)\<rparr>) as"
proof -
  have "path mh_next ((headers h)(a \<mapsto> b\<lparr>mh_is_free := f\<rparr>)) (free_list h) as"
    using assms by (simp add: heap_blocks_def path_upd_same)
  moreover have "tiled ((headers h)(a \<mapsto> b\<lparr>mh_is_free := f\<rparr>)) e as = tiled (headers h) e as" for e
    by (rule tiled_cong) (use assms in auto)
  ultimately show ?thesis using assms by (auto simp: heap_blocks_def)
qed

lemma live_mark:
  assumes "heap_blocks h as" and "headers h a = Some b"
  shows "live (h\<lparr>headers := (headers h)(a \<mapsto> b\<lparr>mh_is_free := f\<rparr>)\<rparr>)
    = (live h)(a + MEM_HEADER_SIZE := (if f then None else Some (unat (mh_size b))))"
proof
  fix p
  have a: "a \<in> set as" using assms by (auto simp: heap_blocks_def)
  show "live (h\<lparr>headers := (headers h)(a \<mapsto> b\<lparr>mh_is_free := f\<rparr>)\<rparr>) p
    = ((live h)(a + MEM_HEADER_SIZE := (if f then None else Some (unat (mh_size b))))) p"
    using block_payload_nonnull [OF assms(1) a]
    by (auto simp: live_def header_payload)
qed

text \<open>The three outcomes of kmalloc: a block reused, the heap exhausted, the heap extended.\<close>

lemma kmalloc_cases:
  assumes "heap_blocks h as" and "unat n \<le> 2 ^ 32"
  obtains
    (reuse) a b where "headers h a = Some b" "mh_is_free b" "unat (align8 n) \<le> unat (mh_size b)"
      "kmalloc n u h = Some (a + MEM_HEADER_SIZE, u,
         h\<lparr>headers := (headers h)(a \<mapsto> b\<lparr>mh_is_free := False\<rparr>)\<rparr>)"
  | (exhausted) "kmalloc n u h =
      Some (0, uart_puts (str ''[ERROR] kmalloc: Heap Exhausted!'' @ crlf) u, h)"
      "\<And>a b. headers h a = Some b \<Longrightarrow> mh_is_free b \<Longrightarrow> unat (mh_size b) < unat (align8 n)"
      "0x42000000 < unat (heap_ptr h) + 24 + unat (align8 n)"
  | (extend) h' where "kmalloc n u h = Some (heap_ptr h + MEM_HEADER_SIZE, u, h')"
      "h' = h\<lparr>headers := (headers h)(heap_ptr h \<mapsto>
              \<lparr>mh_size = align8 n, mh_is_free = False, mh_next = free_list h\<rparr>),
            free_list := heap_ptr h, heap_ptr := heap_ptr h + (MEM_HEADER_SIZE + align8 n)\<rparr>"
      "unat (heap_ptr h) + 24 + unat (align8 n) \<le> 0x42000000"
      "\<And>a b. headers h a = Some b \<Longrightarrow> mh_is_free b \<Longrightarrow> unat (mh_size b) < unat (align8 n)"
proof -
  let ?P = "\<lambda>_ b. mh_is_free b \<and> align8 n \<le> mh_size b"
  have path: "path mh_next (headers h) (free_list h) as" and dom: "dom (headers h) = set as"
    and top: "unat (heap_ptr h) \<le> 0x42000000"
    using assms by (simp_all add: heap_blocks_def)
  have al: "unat (align8 n) \<le> 2 ^ 32" by (rule align8_bounds) (rule assms)
  have sum: "unat (heap_ptr h + (MEM_HEADER_SIZE + align8 n)) = unat (heap_ptr h) + 24 + unat (align8 n)"
    using al top by (simp add: unat_word_ariths MEM_HEADER_SIZE_def)
  show thesis
    using path
  proof (cases rule: walk_path_cases [where P = ?P])
    case (found a b)
    then show thesis by (intro reuse [of a b]) (simp_all add: kmalloc_def word_le_nat_alt)
  next
    case none
    have no: "unat (mh_size b) < unat (align8 n)" if "headers h a = Some b" "mh_is_free b" for a b
    proof -
      have "a \<in> set as" using that(1) dom by auto
      from none(2) [OF this] that have "\<not> align8 n \<le> mh_size b" by simp
      then show ?thesis by (simp add: word_le_nat_alt)
    qed
    have lim: "HEAP_START + HEAP_SIZE < heap_ptr h + (MEM_HEADER_SIZE + align8 n)
        \<longleftrightarrow> 0x42000000 < unat (heap_ptr h) + 24 + unat (align8 n)"
      by (simp only: word_less_nat_alt sum unat_HEAP_END)
    show thesis
    proof (cases "0x42000000 < unat (heap_ptr h) + 24 + unat (align8 n)")
      case True
      then show thesis using none(1) no lim by (intro exhausted) (simp_all add: kmalloc_def)
    next
      case False
      then show thesis using none(1) no lim by (intro extend) (auto simp: kmalloc_def Let_def)
    qed
  qed
qed

lemma heap_extend:
  assumes inv: "heap_blocks h as"
    and room: "unat (heap_ptr h) + 24 + unat s \<le> 0x42000000"
    and h': "h' = h\<lparr>headers := (headers h)(heap_ptr h \<mapsto>
              \<lparr>mh_size = s, mh_is_free = False, mh_next = free_list h\<rparr>),
            free_list := heap_ptr h, heap_ptr := heap_ptr h + (MEM_HEADER_SIZE + s)\<rparr>"
  shows "heap_blocks h' (heap_ptr h # as)"
    and "headers h (heap_ptr h) = None"
    and "live h' = (live h)(heap_ptr h + MEM_HEADER_SIZE \<mapsto> unat s)"
    and "heap_ptr h + MEM_HEADER_SIZE \<noteq> 0"
proof -
  have t: "tiled (headers h) (unat (heap_ptr h)) as" and dom: "dom (headers h) = set as"
    and path: "path mh_next (headers h) (free_list h) as"
    using inv by (simp_all add: heap_blocks_def)
  have new: "heap_ptr h \<notin> set as"
  proof
    assume "heap_ptr h \<in> set as"
    with tiled_block [OF t] show False by fastforce
  qed
  then show none: "headers h (heap_ptr h) = None" using dom by auto
  have sum: "unat (heap_ptr h + (MEM_HEADER_SIZE + s)) = unat (heap_ptr h) + 24 + unat s"
    using room by (simp add: unat_word_ariths MEM_HEADER_SIZE_def)
  have pay: "unat (heap_ptr h + MEM_HEADER_SIZE) = unat (heap_ptr h) + 24"
    using room by (simp add: unat_word_ariths MEM_HEADER_SIZE_def)
  then show nn: "heap_ptr h + MEM_HEADER_SIZE \<noteq> 0" by auto
  have lo: "0x41000000 \<le> unat (heap_ptr h)"
    by (rule tiled_start [OF t])
  have "tiled ((headers h)(heap_ptr h \<mapsto> nb)) e as = tiled (headers h) e as" for nb e
    by (rule tiled_cong) (use new in auto)
  moreover have "heap_ptr h \<noteq> 0" using lo by auto
  ultimately show "heap_blocks h' (heap_ptr h # as)"
    using path t dom new room sum by (auto simp: heap_blocks_def h')
  show "live h' = (live h)(heap_ptr h + MEM_HEADER_SIZE \<mapsto> unat s)"
    using nn none by (auto simp: live_def h' header_payload fun_eq_iff)
qed

section \<open>The allocator interface\<close>

text \<open>
  What a client of an allocator relies on, over the abstract map of the blocks handed out:
  a request that fits is answered, by NULL without any effect or by a block that was not in use
  and is large enough; a block in use can be released; blocks in use do not overlap.
\<close>

locale allocator =
  fixes alloc :: "u64 \<Rightarrow> 's \<Rightarrow> (addr \<times> 's) option"
    and release :: "addr \<Rightarrow> 's \<Rightarrow> 's option"
    and blocks :: "'s \<Rightarrow> addr \<rightharpoonup> nat"
    and inv :: "'s \<Rightarrow> bool"
    and fits :: "u64 \<Rightarrow> bool"
  assumes alloc_returns: "inv s \<Longrightarrow> fits n \<Longrightarrow> \<exists>p s'. alloc n s = Some (p, s')"
    and alloc_inv: "inv s \<Longrightarrow> fits n \<Longrightarrow> alloc n s = Some (p, s') \<Longrightarrow> inv s'"
    and alloc_null: "inv s \<Longrightarrow> fits n \<Longrightarrow> alloc n s = Some (0, s') \<Longrightarrow> blocks s' = blocks s"
    and alloc_fresh: "inv s \<Longrightarrow> fits n \<Longrightarrow> alloc n s = Some (p, s') \<Longrightarrow> p \<noteq> 0 \<Longrightarrow>
      blocks s p = None \<and> (\<exists>k. unat n \<le> k \<and> blocks s' = (blocks s)(p \<mapsto> k))"
    and null_not_block: "inv s \<Longrightarrow> blocks s 0 = None"
    and release_block: "inv s \<Longrightarrow> blocks s p = Some k \<Longrightarrow>
      \<exists>s'. release p s = Some s' \<and> inv s' \<and> blocks s' = (blocks s)(p := None)"
    and disjoint: "inv s \<Longrightarrow> blocks s p = Some k \<Longrightarrow> blocks s q = Some l \<Longrightarrow> p \<noteq> q \<Longrightarrow>
      unat p + k \<le> unat q \<or> unat q + l \<le> unat p"
begin

lemma alloc_blocks:
  assumes "inv s" "fits n" "alloc n s = Some (p, s')"
  obtains (null) "p = 0" "blocks s' = blocks s"
  | (block) k where "p \<noteq> 0" "blocks s p = None" "unat n \<le> k" "blocks s' = (blocks s)(p \<mapsto> k)"
proof (cases "p = 0")
  case True
  then show thesis using alloc_null [of s n s'] assms null by simp
next
  case False
  then show thesis using alloc_fresh [OF assms False] block by blast
qed

lemma alloc_keeps:
  assumes "inv s" "fits n" "alloc n s = Some (p, s')" "blocks s q = Some k"
  shows "blocks s' q = Some k"
  using assms(1-3) by (cases rule: alloc_blocks) (use assms(4) in auto)

lemma alloc_dom:
  assumes "inv s" "fits n" "alloc n s = Some (p, s')"
  shows "dom (blocks s') = (if p = 0 then dom (blocks s) else insert p (dom (blocks s)))"
  using assms by (cases rule: alloc_blocks) auto

lemma alloc_release:
  assumes "inv s" "fits n" "alloc n s = Some (p, s')" "p \<noteq> 0"
  obtains s'' where "release p s' = Some s''" "inv s''" "blocks s'' = blocks s"
proof -
  from alloc_fresh [OF assms] obtain k where k: "blocks s p = None" "blocks s' = (blocks s)(p \<mapsto> k)"
    by auto
  from release_block [of s' p k] alloc_inv [OF assms(1-3)] k
  obtain s'' where "release p s' = Some s''" "inv s''" "blocks s'' = (blocks s')(p := None)" by auto
  moreover have "(blocks s')(p := None) = blocks s" using k by auto
  ultimately show thesis using that by auto
qed

lemma alloc_two_disjoint:
  assumes "inv s" "fits n" "alloc n s = Some (p, s1)" "p \<noteq> 0"
    and "fits m" "alloc m s1 = Some (q, s2)" "q \<noteq> 0"
  shows "unat p + unat n \<le> unat q \<or> unat q + unat m \<le> unat p"
proof -
  have i1: "inv s1" by (rule alloc_inv [OF assms(1-3)])
  from alloc_fresh [OF assms(1-4)] obtain k where k: "unat n \<le> k" "blocks s1 p = Some k" by auto
  from alloc_fresh [OF i1 assms(5-7)] obtain l where
    l: "unat m \<le> l" "blocks s1 q = None" "blocks s2 q = Some l" by auto
  have "blocks s2 p = Some k" by (rule alloc_keeps [OF i1 assms(5,6) k(2)])
  moreover have "p \<noteq> q" using k l by auto
  ultimately show ?thesis
    using disjoint [OF alloc_inv [OF i1 assms(5,6)], of p k q l] k l by auto
qed

end

lemma heap_blocks_live:
  assumes "heap_blocks h as" and "live h p = Some k"
  shows "\<exists>b. p - MEM_HEADER_SIZE \<in> set as \<and> headers h (p - MEM_HEADER_SIZE) = Some b
    \<and> \<not> mh_is_free b \<and> unat (mh_size b) = k \<and> unat p = unat (p - MEM_HEADER_SIZE) + 24"
proof -
  from assms(2) obtain b where b: "headers h (p - MEM_HEADER_SIZE) = Some b" "\<not> mh_is_free b"
    "unat (mh_size b) = k"
    by (auto simp: live_def split: option.splits if_splits)
  then have a: "p - MEM_HEADER_SIZE \<in> set as" using assms(1) by (auto simp: heap_blocks_def)
  have "unat p = unat (p - MEM_HEADER_SIZE) + 24"
    using block_payload_nonnull(2) [OF assms(1) a] by simp
  with a b show ?thesis by blast
qed

lemma live_disjoint:
  assumes "heap_inv h" "live h p = Some k" "live h q = Some l" "p \<noteq> q"
  shows "unat p + k \<le> unat q \<or> unat q + l \<le> unat p"
proof -
  from assms(1) obtain as where as: "heap_blocks h as" by (auto simp: heap_inv_def)
  then have t: "tiled (headers h) (unat (heap_ptr h)) as" by (simp add: heap_blocks_def)
  have ne: "p - MEM_HEADER_SIZE \<noteq> q - MEM_HEADER_SIZE" using assms(4) by simp
  show ?thesis
    using heap_blocks_live [OF as assms(2)] heap_blocks_live [OF as assms(3)]
      tiled_disjoint [OF t _ _ ne] by fastforce
qed

lemma live_in_heap:
  assumes "heap_inv h" "live h p = Some k"
  shows "0x41000000 < unat p" "unat p + k \<le> 0x42000000"
proof -
  from assms(1) obtain as where as: "heap_blocks h as" by (auto simp: heap_inv_def)
  then have t: "tiled (headers h) (unat (heap_ptr h)) as" "unat (heap_ptr h) \<le> 0x42000000"
    by (simp_all add: heap_blocks_def)
  show "0x41000000 < unat p" "unat p + k \<le> 0x42000000"
    using heap_blocks_live [OF as assms(2)] tiled_block [OF t(1)] t(2) by fastforce+
qed

lemma kmalloc_spec:
  assumes "heap_inv h" and "unat n \<le> 2 ^ 32"
  shows "\<exists>p u' h'. kmalloc n u h = Some (p, u', h') \<and> heap_inv h'
    \<and> (p = 0 \<longrightarrow> live h' = live h)
    \<and> (p \<noteq> 0 \<longrightarrow> live h p = None \<and> (\<exists>k. unat n \<le> k \<and> live h' = (live h)(p \<mapsto> k)))"
proof -
  from assms(1) obtain as where as: "heap_blocks h as" by (auto simp: heap_inv_def)
  have al: "unat n \<le> unat (align8 n)" by (rule align8_bounds) (rule assms)
  from as assms(2) show ?thesis
  proof (cases rule: kmalloc_cases [of h as n u])
    case (reuse a b)
    have a: "a \<in> set as" using reuse as by (auto simp: heap_blocks_def)
    have "live h (a + MEM_HEADER_SIZE) = None" using reuse by (simp add: live_def)
    with reuse al show ?thesis
      using heap_blocks_mark [OF as reuse(1), of False] live_mark [OF as reuse(1), of False]
        block_payload_nonnull [OF as a] by (auto simp: heap_inv_def intro!: exI [of _ "unat (mh_size b)"])
  next
    case exhausted
    then show ?thesis using assms(1) by auto
  next
    case (extend h')
    note ext = heap_extend [OF as extend(3,2)]
    have "live h (heap_ptr h + MEM_HEADER_SIZE) = None" using ext(2) by (simp add: live_def)
    then show ?thesis using extend(1) ext(1,3,4) al by (auto simp: heap_inv_def)
  qed
qed

lemma kfree_spec:
  assumes "heap_inv h" and "live h p = Some k"
  shows "\<exists>h'. kfree p h = Some h' \<and> heap_inv h' \<and> live h' = (live h)(p := None)"
proof -
  from assms(1) obtain as where as: "heap_blocks h as" by (auto simp: heap_inv_def)
  from heap_blocks_live [OF as assms(2)] obtain b where
    b: "headers h (p - MEM_HEADER_SIZE) = Some b" by auto
  have "p \<noteq> 0" using assms(2) by (auto simp: live_def split: option.splits)
  then show ?thesis
    using b heap_blocks_mark [OF as b, of True] live_mark [OF as b, of True]
    by (auto simp: kfree_def heap_inv_def)
qed

interpretation km: allocator
  "\<lambda>n s. kmalloc n (fst s) (snd s)" "\<lambda>p s. map_option (Pair (fst s)) (kfree p (snd s))"
  "\<lambda>s. live (snd s)" "\<lambda>s. heap_inv (snd s)" "\<lambda>n. unat n \<le> 2 ^ 32"
proof (unfold_locales, goal_cases)
  case (1 s n)
  then show ?case using kmalloc_spec [of "snd s" n "fst s"] by (cases s) auto
next
  case (2 s n p s')
  then show ?case using kmalloc_spec [of "snd s" n "fst s"] by auto
next
  case (3 s n s')
  then show ?case using kmalloc_spec [of "snd s" n "fst s"] by auto
next
  case (4 s n p s')
  then show ?case using kmalloc_spec [of "snd s" n "fst s"] by auto
next
  case (5 s)
  then show ?case by (simp add: live_def split: option.splits)
next
  case (6 s p k)
  then show ?case using kfree_spec [of "snd s" p k] by auto
next
  case (7 s p k q l)
  then show ?case using live_disjoint by blast
qed

section \<open>Payload bytes\<close>

lemma heap_write_live:
  "live h p = Some k \<Longrightarrow> off + length bs \<le> k \<Longrightarrow>
   heap_write p off bs h = Some (h\<lparr>ram := ram_write (ram h) (p + of_nat off) bs\<rparr>)"
  by (auto simp: live_def heap_write_def split: option.splits if_splits)

lemma live_ram [simp]: "live (h\<lparr>ram := r\<rparr>) = live h"
  by (simp add: live_def fun_eq_iff)

lemma heap_inv_ram [simp]: "heap_inv (h\<lparr>ram := r\<rparr>) = heap_inv h"
  by (simp add: heap_inv_def heap_blocks_def)

lemma heap_write_frame:
  "heap_write p off bs h = Some h' \<Longrightarrow> live h' = live h \<and> heap_inv h' = heap_inv h
     \<and> headers h' = headers h \<and> heap_ptr h' = heap_ptr h \<and> heap_current_ptr h' = heap_current_ptr h"
  by (auto simp: heap_write_def split: option.splits if_splits)

lemma ram_read_write_apart:
  assumes "unat a + length bs \<le> unat c \<or> unat c + n \<le> unat a"
    and "unat a + length bs \<le> 2 ^ 64" and "unat c + n \<le> 2 ^ 64"
  shows "ram_read (ram_write r a bs) c n = ram_read r c n"
proof (rule nth_equalityI)
  fix i assume "i < length (ram_read (ram_write r a bs) c n)"
  then have i: "i < n" by simp
  have ci: "unat (c + of_nat i) = unat c + i"
    using i assms(3) by (simp add: unat_word_ariths unat_of_nat)
  have "length bs \<le> unat (c + of_nat i - a)"
    using assms(1)
  proof
    assume le: "unat a + length bs \<le> unat c"
    then have "unat (c + of_nat i - a) = unat c + i - unat a"
      using ci by (simp add: unat_sub word_le_nat_alt)
    with le show ?thesis by simp
  next
    assume le: "unat c + n \<le> unat a"
    then have lt: "unat (c + of_nat i) < unat a" using ci i by simp
    have "unat (c + of_nat i - a) = unat (c + of_nat i) + 2 ^ 64 - unat a"
      using lt by (simp add: unat_sub_if')
    then show ?thesis using lt assms(2) ci by simp
  qed
  then show "ram_read (ram_write r a bs) c n ! i = ram_read r c n ! i"
    using i by (simp add: ram_read_def ram_write_def)
qed simp

section \<open>Request sequences\<close>

text \<open>
  The heaps the kernel can reach: from the initial heap by requests of a sensible size, by
  releasing pointers that are in use, and by stores into blocks that are in use.
\<close>

inductive heap_reach :: "heap \<Rightarrow> bool" where
  start: "heap_reach (heap_init r)"
| alloc: "heap_reach h \<Longrightarrow> unat n \<le> 2 ^ 32 \<Longrightarrow> kmalloc n u h = Some (p, u', h') \<Longrightarrow> heap_reach h'"
| free: "heap_reach h \<Longrightarrow> live h p \<noteq> None \<Longrightarrow> kfree p h = Some h' \<Longrightarrow> heap_reach h'"
| store: "heap_reach h \<Longrightarrow> heap_write p off bs h = Some h' \<Longrightarrow> heap_reach h'"

lemma kmalloc_usage: "kmalloc n u h = Some (p, u', h') \<Longrightarrow> get_heap_usage h' = get_heap_usage h"
  by (auto simp: kmalloc_def get_heap_usage_def Let_def split: Option.bind_splits if_splits)

lemma kfree_usage: "kfree p h = Some h' \<Longrightarrow> get_heap_usage h' = get_heap_usage h"
  by (auto simp: kfree_def get_heap_usage_def split: Option.bind_splits if_splits)

text \<open>The first request on the fresh heap, 100 bytes: header at the start, payload behind it.\<close>

lemma kmalloc_100:
  "kmalloc 100 u (heap_init r) = Some (0x41000018, u, (heap_init r)
     \<lparr>headers := [0x41000000 \<mapsto> \<lparr>mh_size = 104, mh_is_free = False, mh_next = 0\<rparr>],
      free_list := 0x41000000, heap_ptr := 0x41000080\<rparr>)"
  by (simp add: kmalloc_def heap_init_def walk.simps align8_def heap_consts)

lemma sample_heap: "\<exists>h. heap_reach h \<and> heap_inv h \<and> live h 0x41000018 = Some 104"
proof -
  let ?u = "\<lparr>console = [], current_mode = MODE_PORTAL\<rparr>"
  let ?h = "(heap_init (\<lambda>_. 0))
     \<lparr>headers := [0x41000000 \<mapsto> \<lparr>mh_size = 104, mh_is_free = False, mh_next = 0\<rparr>],
      free_list := 0x41000000, heap_ptr := 0x41000080\<rparr>"
  have "heap_reach ?h"
    by (rule heap_reach.alloc [OF heap_reach.start _ kmalloc_100 [of ?u]]) simp
  moreover have "heap_blocks ?h [0x41000000]" by (simp add: heap_blocks_def heap_init_def)
  moreover have "live ?h 0x41000018 = Some 104"
    by (simp add: live_def MEM_HEADER_SIZE_def heap_init_def)
  ultimately show ?thesis unfolding heap_inv_def by blast
qed

section \<open>Properties\<close>



text \<open>
  The contract of \<open>kfree\<close>: releasing a live block succeeds, keeps the heap well formed and
  takes exactly that block out of the live blocks; releasing NULL does nothing; releasing the
  pointer that \<open>kmalloc\<close> just returned undoes the allocation.
\<close>

lemma kfree_contract:
  assumes "heap_inv h" and "live h p = Some k"
  shows "(\<exists>h'. kfree p h = Some h' \<and> heap_inv h' \<and> live h' = (live h)(p := None))
    \<and> kfree 0 h = Some h
    \<and> (\<forall>n u q u' h'. unat n \<le> 2 ^ 32 \<and> kmalloc n u h = Some (q, u', h') \<and> q \<noteq> 0 \<longrightarrow>
        (\<exists>h''. kfree q h' = Some h'' \<and> heap_inv h'' \<and> live h'' = live h))"
proof (intro conjI allI impI)
  show "\<exists>h'. kfree p h = Some h' \<and> heap_inv h' \<and> live h' = (live h)(p := None)"
    by (rule kfree_spec [OF assms])
  show "kfree 0 h = Some h" by (simp add: kfree_def)
  fix n u q u' h'
  assume al: "unat n \<le> 2 ^ 32 \<and> kmalloc n u h = Some (q, u', h') \<and> q \<noteq> 0"
  show "\<exists>h''. kfree q h' = Some h'' \<and> heap_inv h'' \<and> live h'' = live h"
    by (rule km.alloc_release [of "(u, h)" n q "(u', h')"]) (use assms al in auto)
qed

text \<open>
  Reuse before growth: when some free block is large enough for the request, \<open>kmalloc\<close>
  answers from the blocks it has, and the heap does not grow.
\<close>

lemma kmalloc_reuses_before_growing:
  assumes "heap_inv h" and "unat n \<le> 2 ^ 32"
    and "headers h a = Some b" and "mh_is_free b" and "align8 n \<le> mh_size b"
  shows "\<exists>p h'. kmalloc n u h = Some (p, u, h') \<and> p \<noteq> 0 \<and> heap_ptr h' = heap_ptr h
    \<and> dom (headers h') = dom (headers h)"
proof -
  from assms(1) obtain as where as: "heap_blocks h as" by (auto simp: heap_inv_def)
  have big: "\<not> unat (mh_size b) < unat (align8 n)" using assms(5) by (simp add: word_le_nat_alt)
  from as assms(2) show ?thesis
  proof (cases rule: kmalloc_cases [of h as n u])
    case (reuse a' b')
    then have "a' \<in> set as" using as by (auto simp: heap_blocks_def)
    with reuse show ?thesis using block_payload_nonnull [OF as] by auto
  next
    case exhausted
    then show ?thesis using assms big by blast
  next
    case (extend h')
    then show ?thesis using assms big by blast
  qed
qed



text \<open>
  The dashboard's heap figure is stuck: \<open>get_heap_usage\<close> reads \<open>heap_current_ptr\<close>, which no
  operation of the allocator moves, so it is 0 in every reachable heap, however much is in use.
\<close>

lemma heap_usage_is_always_zero:
  assumes "heap_reach h"
  shows "get_heap_usage h = 0"
  using assms
proof (induction rule: heap_reach.induct)
  case (start r)
  show ?case by (simp add: get_heap_usage_def heap_init_def)
next
  case (store h p off bs h')
  then show ?case using heap_write_frame by (simp add: get_heap_usage_def)
qed (simp_all add: kmalloc_usage kfree_usage)

text \<open>
  The size arithmetic of \<open>kmalloc\<close> wraps: a request 32 bytes short of 2 to the 64 is not
  refused but answered with a pointer, the block records that huge size, and the heap's bump
  pointer moves down by 8, below the start of the heap.
\<close>

lemma kmalloc_size_wraps:
  "\<exists>h'. kmalloc (- 32) u (heap_init r) = Some (HEAP_START + 24, u, h')
     \<and> heap_ptr h' = HEAP_START - 8
     \<and> live h' (HEAP_START + 24) = Some (2 ^ 64 - 32)"
  by (simp add: kmalloc_def heap_init_def walk.simps align8_def heap_consts live_def)

text \<open>
  Stores are isolated: a store that stays inside a live block changes no byte of any other
  live block, and reading back the range just written yields the bytes stored.
\<close>

lemma heap_stores_are_isolated:
  assumes "heap_inv h" and "live h p = Some k" and "off + length bs \<le> k"
  shows "\<exists>h'. heap_write p off bs h = Some h' \<and> live h' = live h
    \<and> ram_read (ram h') (p + of_nat off) (length bs) = bs
    \<and> (\<forall>q l. live h q = Some l \<and> q \<noteq> p \<longrightarrow> ram_read (ram h') q l = ram_read (ram h) q l)"
proof (intro exI conjI allI impI)
  let ?h = "h\<lparr>ram := ram_write (ram h) (p + of_nat off) bs\<rparr>"
  show "heap_write p off bs h = Some ?h" by (rule heap_write_live [OF assms(2,3)])
  show "live ?h = live h" by simp
  have p: "unat p + k \<le> 0x42000000" by (rule live_in_heap [OF assms(1,2)])
  have off: "unat (p + of_nat off) = unat p + off"
    using p assms(3) by (simp add: unat_word_ariths unat_of_nat)
  show "ram_read (ram ?h) (p + of_nat off) (length bs) = bs"
    using ram_read_write_same [of bs] p assms(3) by simp
  fix q l assume q: "live h q = Some l \<and> q \<noteq> p"
  then have "unat q + l \<le> 0x42000000" using live_in_heap [OF assms(1)] by blast
  moreover have "unat p + k \<le> unat q \<or> unat q + l \<le> unat p"
    using live_disjoint [OF assms(1,2)] q by blast
  ultimately have "ram_read (ram_write (ram h) (p + of_nat off) bs) q l = ram_read (ram h) q l"
    using p assms(3) by (intro ram_read_write_apart) (auto simp: off)
  then show "ram_read (ram ?h) q l = ram_read (ram h) q l" by simp
qed

end
