(* ===== verification/Kstate.thy ===== *)
theory Kstate
  imports Virtqueue Checksum Memory
begin

text \<open>
  The global state of the kernel's network half: what the C files keep in global and static
  variables, one record, with the operations of the lower components lifted to it. An operation
  of the stack takes the state last and returns the new state, \<^term>\<open>None\<close> being a memory
  fault. The connection blocks (TCBs) live in heap blocks; their fields are a typed store from the
  block's address, and freeing a block ends what was stored there.
\<close>

section \<open>Connections\<close>

datatype tcp_state_t =
    TCP_STATE_CLOSED
  | TCP_STATE_LISTEN
  | TCP_STATE_SYN_RECEIVED
  | TCP_STATE_ESTABLISHED
  | TCP_STATE_CLOSE_WAIT
  | TCP_STATE_LAST_ACK
  | TCP_STATE_TIME_WAIT

primrec tcp_state_code :: "tcp_state_t \<Rightarrow> nat" where
  "tcp_state_code TCP_STATE_CLOSED = 0"
| "tcp_state_code TCP_STATE_LISTEN = 1"
| "tcp_state_code TCP_STATE_SYN_RECEIVED = 2"
| "tcp_state_code TCP_STATE_ESTABLISHED = 3"
| "tcp_state_code TCP_STATE_CLOSE_WAIT = 4"
| "tcp_state_code TCP_STATE_LAST_ACK = 5"
| "tcp_state_code TCP_STATE_TIME_WAIT = 6"

text \<open>The states are ordered by their C values, the order in which a passive connection passes them.\<close>

lemma tcp_state_code_inj: "tcp_state_code s = tcp_state_code t \<longleftrightarrow> s = t"
  by (cases s; cases t) simp_all

instantiation tcp_state_t :: linorder
begin

definition less_eq_tcp_state_t :: "tcp_state_t \<Rightarrow> tcp_state_t \<Rightarrow> bool" where
  "less_eq_tcp_state_t s t \<longleftrightarrow> tcp_state_code s \<le> tcp_state_code t"

definition less_tcp_state_t :: "tcp_state_t \<Rightarrow> tcp_state_t \<Rightarrow> bool" where
  "less_tcp_state_t s t \<longleftrightarrow> tcp_state_code s < tcp_state_code t"

instance
  by standard (auto simp: less_eq_tcp_state_t_def less_tcp_state_t_def tcp_state_code_inj)

end

record tcp_tcb =
  local_ip :: u32
  remote_ip :: u32
  local_port :: u16
  remote_port :: u16
  tcb_state :: tcp_state_t
  snd_una :: u32
  snd_nxt :: u32
  rcv_nxt :: u32
  rcv_wnd :: u16
  snd_wnd :: u16
  tcb_next :: addr

definition TCP_DEFAULT_WINDOW :: u16 where "TCP_DEFAULT_WINDOW = 8192"
definition TCP_FLAG_FIN :: u8 where "TCP_FLAG_FIN = 0x01"
definition TCP_FLAG_SYN :: u8 where "TCP_FLAG_SYN = 0x02"
definition TCP_FLAG_RST :: u8 where "TCP_FLAG_RST = 0x04"
definition TCP_FLAG_PSH :: u8 where "TCP_FLAG_PSH = 0x08"
definition TCP_FLAG_ACK :: u8 where "TCP_FLAG_ACK = 0x10"

lemmas tcp_flags = TCP_FLAG_FIN_def TCP_FLAG_SYN_def TCP_FLAG_RST_def TCP_FLAG_PSH_def TCP_FLAG_ACK_def

text \<open>\<open>sizeof(tcp_tcb_t)\<close>: 12 bytes of addresses and ports, a 4-byte enum, 12 bytes of sequence
  numbers, 4 of windows, a pointer.\<close>

definition TCB_SIZE :: u64 where "TCB_SIZE = 40"

section \<open>The kernel state\<close>

record arp_entry =
  ae_ip :: u32
  ae_mac :: bytes

record kstate =
  k_uart :: uart
  k_heap :: heap
  k_stats :: net_stats
  global_vnet_dev :: "virtio_pci_device option"
  k_hw :: virtio_hw
  rx_queue :: virtqueue
  tx_queue :: virtqueue
  rx_buffers :: "bytes list"
  arp_cache :: "arp_entry list"
  tcbs :: "addr \<rightharpoonup> tcp_tcb"
  tcp_tcb_list :: addr
  tcp_global_isn :: u32
  aether_ip :: u32
  aether_mac :: bytes

definition AETHER_IP_ADDR :: u32 where "AETHER_IP_ADDR = 0x0A00020F"
definition AETHER_MAC_ADDR :: bytes where "AETHER_MAC_ADDR = [0x52, 0x54, 0x00, 0x12, 0x34, 0x56]"

text \<open>
  The globals as the image holds them at boot, with the RAM's contents as a parameter. The
  sequence number \<open>tcp_global_isn\<close> is declared (tcp_internal.h) and used (tcp_input.c) but defined
  in no file, so its initial value is a parameter as well.
\<close>

definition boot_state :: "ram \<Rightarrow> u32 \<Rightarrow> kstate" where
  "boot_state r isn = \<lparr>
     k_uart = \<lparr>console = [], current_mode = MODE_PORTAL\<rparr>, k_heap = heap_init r,
     k_stats = net_stats_init, global_vnet_dev = None,
     k_hw = \<lparr>queue_select = 0, queues = \<lambda>_. \<lparr>queue_size = 0, queue_enable = 0, queue_notify_off = 0,
        queue_desc_lo = 0, queue_desc_hi = 0, queue_avail_lo = 0, queue_avail_hi = 0,
        queue_used_lo = 0, queue_used_hi = 0\<rparr>, doorbells = []\<rparr>,
     rx_queue = fresh_queue 0, tx_queue = fresh_queue 0,
     rx_buffers = replicate 256 (replicate 2048 0),
     arp_cache = replicate 4 \<lparr>ae_ip = 0, ae_mac = replicate 6 0\<rparr>,
     tcbs = Map.empty, tcp_tcb_list = 0, tcp_global_isn = isn,
     aether_ip = AETHER_IP_ADDR, aether_mac = AETHER_MAC_ADDR\<rparr>"

section \<open>Lifted operations\<close>

definition k_puts :: "bytes \<Rightarrow> kstate \<Rightarrow> kstate" where
  "k_puts s k = k\<lparr>k_uart := uart_puts s (k_uart k)\<rparr>"

definition k_debugps :: "bytes \<Rightarrow> kstate \<Rightarrow> kstate" where
  "k_debugps s k = k\<lparr>k_uart := uart_debugps s (k_uart k)\<rparr>"

definition k_debugpc :: "u8 \<Rightarrow> kstate \<Rightarrow> kstate" where
  "k_debugpc c k = k\<lparr>k_uart := uart_debugpc c (k_uart k)\<rparr>"

definition k_put_hex :: "u64 \<Rightarrow> kstate \<Rightarrow> kstate" where
  "k_put_hex n k = k\<lparr>k_uart := uart_put_hex n (k_uart k)\<rparr>"

definition k_kmalloc :: "u64 \<Rightarrow> kstate \<Rightarrow> (addr \<times> kstate) option" where
  "k_kmalloc n k =
     do { (p, u, h) \<leftarrow> kmalloc n (k_uart k) (k_heap k);
          Some (p, k\<lparr>k_uart := u, k_heap := h\<rparr>) }"

definition k_kfree :: "addr \<Rightarrow> kstate \<Rightarrow> kstate option" where
  "k_kfree p k = do { h \<leftarrow> kfree p (k_heap k); Some (k\<lparr>k_heap := h, tcbs := (tcbs k)(p := None)\<rparr>) }"

definition k_store :: "addr \<Rightarrow> nat \<Rightarrow> bytes \<Rightarrow> kstate \<Rightarrow> kstate option" where
  "k_store p off bs k = do { h \<leftarrow> heap_write p off bs (k_heap k); Some (k\<lparr>k_heap := h\<rparr>) }"

text \<open>The source of a memcpy of \<open>n\<close> bytes: reading past the object is a fault.\<close>

definition rd_bytes :: "bytes \<Rightarrow> nat \<Rightarrow> bytes option" where
  "rd_bytes d n = (if n \<le> length d then Some (take n d) else None)"

definition k_tcb :: "addr \<Rightarrow> kstate \<Rightarrow> tcp_tcb option" where
  "k_tcb a k = tcbs k a"

definition k_set_tcb :: "addr \<Rightarrow> (tcp_tcb \<Rightarrow> tcp_tcb) \<Rightarrow> kstate \<Rightarrow> kstate option" where
  "k_set_tcb a f k = do { t \<leftarrow> tcbs k a; Some (k\<lparr>tcbs := (tcbs k)(a \<mapsto> f t)\<rparr>) }"

section \<open>The heap of the kernel\<close>

text \<open>
  What an operation that keeps its hands off other people's blocks promises: every block in use
  stays in use, at its size, with its bytes.
\<close>

definition heap_ext :: "heap \<Rightarrow> heap \<Rightarrow> bool" where
  "heap_ext h h' \<longleftrightarrow>
     (\<forall>p n. live h p = Some n \<longrightarrow> live h' p = Some n \<and> ram_read (ram h') p n = ram_read (ram h) p n)"

lemma heap_ext_refl [simp]: "heap_ext h h"
  by (simp add: heap_ext_def)

lemma heap_ext_trans: "heap_ext h h' \<Longrightarrow> heap_ext h' h'' \<Longrightarrow> heap_ext h h''"
  by (simp add: heap_ext_def)

lemma heap_ext_live: "heap_ext h h' \<Longrightarrow> live h p = Some n \<Longrightarrow> live h' p = Some n"
  by (simp add: heap_ext_def)

lemma heap_ext_dom: "heap_ext h h' \<Longrightarrow> dom (live h) \<subseteq> dom (live h')"
  by (auto simp: heap_ext_def)

lemma kmalloc_ram: "kmalloc n u h = Some (p, u', h') \<Longrightarrow> ram h' = ram h"
  by (auto simp: kmalloc_def Let_def split: Option.bind_splits if_splits)

lemma kfree_ram: "kfree p h = Some h' \<Longrightarrow> ram h' = ram h"
  by (auto simp: kfree_def split: Option.bind_splits if_splits)

text \<open>Requests of at most 2 to the 32 bytes, which is all the stack makes.\<close>

lemma k_kmalloc_cases:
  assumes "heap_inv (k_heap k)" and "unat n \<le> 2 ^ 32"
  obtains (null) u h where "k_kmalloc n k = Some (0, k\<lparr>k_uart := u, k_heap := h\<rparr>)"
      "heap_inv h" "heap_ext (k_heap k) h" "live h = live (k_heap k)"
  | (block) p m u h where "k_kmalloc n k = Some (p, k\<lparr>k_uart := u, k_heap := h\<rparr>)"
      "heap_inv h" "heap_ext (k_heap k) h" "p \<noteq> 0" "live (k_heap k) p = None"
      "unat n \<le> m" "live h = (live (k_heap k))(p \<mapsto> m)"
proof -
  from kmalloc_spec [OF assms, of "k_uart k"] obtain p u h where
    km: "kmalloc n (k_uart k) (k_heap k) = Some (p, u, h)" "heap_inv h"
    "p = 0 \<longrightarrow> live h = live (k_heap k)"
    "p \<noteq> 0 \<longrightarrow> live (k_heap k) p = None \<and> (\<exists>m. unat n \<le> m \<and> live h = (live (k_heap k))(p \<mapsto> m))"
    by blast
  have ram: "ram h = ram (k_heap k)" by (rule kmalloc_ram [OF km(1)])
  have kk: "k_kmalloc n k = Some (p, k\<lparr>k_uart := u, k_heap := h\<rparr>)"
    using km(1) by (simp add: k_kmalloc_def)
  show thesis
  proof (cases "p = 0")
    case True
    then show thesis using null [where u = u and h = h] kk km ram by (simp add: heap_ext_def)
  next
    case False
    then obtain m where m: "live (k_heap k) p = None" "unat n \<le> m" "live h = (live (k_heap k))(p \<mapsto> m)"
      using km(4) by blast
    then have "heap_ext (k_heap k) h" by (auto simp: heap_ext_def ram)
    then show thesis using block [where p = p and u = u and h = h and m = m] kk km(2) m False by simp
  qed
qed

text \<open>What a store into a block in use leaves alone: all other blocks.\<close>

definition only_block :: "addr \<Rightarrow> heap \<Rightarrow> heap \<Rightarrow> bool" where
  "only_block p h h' \<longleftrightarrow> live h' = live h \<and> heap_inv h'
     \<and> (\<forall>q n. live h q = Some n \<and> q \<noteq> p \<longrightarrow> ram_read (ram h') q n = ram_read (ram h) q n)"

lemma only_block_trans: "only_block p h h' \<Longrightarrow> only_block p h' h'' \<Longrightarrow> only_block p h h''"
  by (simp add: only_block_def)

lemma heap_ext_only_block:
  "heap_ext h h' \<Longrightarrow> live h p = None \<Longrightarrow> only_block p h' h'' \<Longrightarrow> heap_ext h h''"
  by (simp add: heap_ext_def only_block_def) (metis option.distinct(1))

text \<open>A block filled from its start: each store appends its bytes to what is there.\<close>

lemma ram_read_add: "ram_read r a (m + n) = ram_read r a m @ ram_read r (a + of_nat m) n"
proof (rule nth_equalityI)
  fix i assume "i < length (ram_read r a (m + n))"
  then show "ram_read r a (m + n) ! i = (ram_read r a m @ ram_read r (a + of_nat m) n) ! i"
    by (cases "i < m") (auto simp: ram_read_def nth_append add.assoc of_nat_add [symmetric]
        simp del: of_nat_add)
qed simp

lemma k_store_append:
  assumes "heap_inv (k_heap k)" and "live (k_heap k) p = Some m" and "off + length bs \<le> m"
    and "ram_read (ram (k_heap k)) p off = xs"
  shows "\<exists>h'. k_store p off bs k = Some (k\<lparr>k_heap := h'\<rparr>) \<and> only_block p (k_heap k) h'
    \<and> ram_read (ram h') p (off + length bs) = xs @ bs"
proof -
  let ?r = "ram (k_heap k)"
  let ?h = "(k_heap k)\<lparr>ram := ram_write ?r (p + of_nat off) bs\<rparr>"
  have st: "k_store p off bs k = Some (k\<lparr>k_heap := ?h\<rparr>)"
    by (simp add: k_store_def heap_write_live [OF assms(2,3)])
  have top: "unat p + m \<le> 0x42000000" by (rule live_in_heap [OF assms(1,2)])
  have off: "unat (p + of_nat off) = unat p + off"
    using top assms(3) by (simp add: unat_word_ariths unat_of_nat)
  have "ram_read (ram_write ?r (p + of_nat off) bs) q n = ram_read ?r q n"
    if q: "live (k_heap k) q = Some n" "q \<noteq> p" for q n
  proof (rule ram_read_write_apart)
    have "unat q + n \<le> 0x42000000" by (rule live_in_heap [OF assms(1) q(1)])
    then show "unat q + n \<le> 2 ^ 64" by simp
    show "unat (p + of_nat off) + length bs \<le> 2 ^ 64" using top assms(3) by (simp add: off)
    show "unat (p + of_nat off) + length bs \<le> unat q \<or> unat q + n \<le> unat (p + of_nat off)"
      using live_disjoint [OF assms(1,2) q(1)] q(2) assms(3) by (auto simp: off)
  qed
  then have "only_block p (k_heap k) ?h" using assms(1) by (simp add: only_block_def)
  moreover have "ram_read (ram_write ?r (p + of_nat off) bs) p off = xs"
    using top assms(3,4) off by (subst ram_read_write_apart) simp_all
  moreover have "ram_read (ram_write ?r (p + of_nat off) bs) (p + of_nat off) (length bs) = bs"
    using top assms(3) by (intro ram_read_write_same) simp
  ultimately show ?thesis using st by (intro exI [of _ ?h]) (simp add: ram_read_add)
qed

text \<open>A store inside a block whose first \<open>n\<close> bytes are known.\<close>

lemma k_store_splice:
  assumes "heap_inv (k_heap k)" and "live (k_heap k) p = Some m" and "off + length bs \<le> n" and "n \<le> m"
    and "ram_read (ram (k_heap k)) p n = xs"
  shows "\<exists>h'. k_store p off bs k = Some (k\<lparr>k_heap := h'\<rparr>) \<and> only_block p (k_heap k) h'
    \<and> ram_read (ram h') p n = take off xs @ bs @ drop (off + length bs) xs"
proof -
  have top: "unat p + m \<le> 0x42000000" by (rule live_in_heap [OF assms(1,2)])
  have len: "length xs = n" using assms(5) by auto
  have n: "n = off + (length bs + (n - off - length bs))" using assms(3) by simp
  define r where "r = ram (k_heap k)"
  have split: "ram_read r p n = ram_read r p off @ ram_read r (p + of_nat off) (length bs)
      @ ram_read r (p + of_nat (off + length bs)) (n - off - length bs)" for r
    by (subst n) (simp only: ram_read_add, simp add: add.assoc)
  have "ram_read (ram (k_heap k)) p off = take off xs"
    using assms(3) len unfolding assms(5) [symmetric] by (subst split) (simp add: ram_read_def)
  moreover have "off + length bs \<le> m" using assms(3,4) by simp
  ultimately obtain h' where h': "k_store p off bs k = Some (k\<lparr>k_heap := h'\<rparr>)" "only_block p (k_heap k) h'"
    "ram_read (ram h') p (off + length bs) = take off xs @ bs"
    using k_store_append [OF assms(1,2), of off bs "take off xs"] by auto
  have rest: "ram_read (ram h') (p + of_nat (off + length bs)) (n - off - length bs)
      = drop (off + length bs) xs"
  proof -
    have r': "ram h' = ram_write (ram (k_heap k)) (p + of_nat off) bs"
      using h'(1) heap_write_live [OF assms(2) \<open>off + length bs \<le> m\<close>]
      by (simp add: k_store_def) (metis heap.select_convs(6) heap.surjective heap.update_convs(6) kstate.select_convs(2) kstate.surjective kstate.update_convs(2))
    have o: "unat (p + of_nat off) = unat p + off" "unat (p + of_nat (off + length bs)) = unat p + (off + length bs)"
      using top assms(3,4) by (simp_all add: unat_word_ariths unat_of_nat)
    have "ram_read (ram h') (p + of_nat (off + length bs)) (n - off - length bs)
        = ram_read (ram (k_heap k)) (p + of_nat (off + length bs)) (n - off - length bs)"
      unfolding r' by (rule ram_read_write_apart) (use o top assms(3,4) in auto)
    also have "\<dots> = drop (off + length bs) xs"
      using assms(3) len unfolding assms(5) [symmetric] by (subst split) simp
    finally show ?thesis .
  qed
  have "ram_read (ram h') p n = ram_read (ram h') p (off + length bs)
      @ ram_read (ram h') (p + of_nat (off + length bs)) (n - off - length bs)"
    by (subst n) (simp only: ram_read_add [symmetric] add.assoc)
  with h' rest show ?thesis by auto
qed

lemma k_kfree_block:
  assumes "heap_inv (k_heap k)" and "live (k_heap k) p = Some m"
  shows "\<exists>h. k_kfree p k = Some (k\<lparr>k_heap := h, tcbs := (tcbs k)(p := None)\<rparr>)
    \<and> heap_inv h \<and> live h = (live (k_heap k))(p := None) \<and> ram h = ram (k_heap k)"
proof -
  from kfree_spec [OF assms] obtain h where
    h: "kfree p (k_heap k) = Some h" "heap_inv h" "live h = (live (k_heap k))(p := None)" by blast
  then show ?thesis using kfree_ram [OF h(1)] by (auto simp: k_kfree_def)
qed

end
