(* ===== verification/Ethernet.thy ===== *)
theory Ethernet
  imports Kstate
begin

text \<open>
  The egress of the Ethernet layer (src/drivers/ethernet/ethernet.c): a frame is built in a heap
  buffer behind a zeroed VirtIO header and handed to the transmit queue. The reaper of
  src/drivers/virtio/virtio_net.c takes the buffers back when the device is done with them. The
  demultiplexer of received frames is in the receive theory, above the protocols it calls.
\<close>

section \<open>Sending a frame\<close>

definition ETH_TYPE_IPV4 :: u16 where "ETH_TYPE_IPV4 = 0x0800"
definition ETH_TYPE_ARP :: u16 where "ETH_TYPE_ARP = 0x0806"

text \<open>The sizes of \<open>struct virtio_net_hdr\<close> and \<open>struct eth_header\<close>, both packed.\<close>

definition VIRTIO_NET_HDR_SIZE :: u32 where "VIRTIO_NET_HDR_SIZE = 10"
definition ETH_HEADER_SIZE :: u32 where "ETH_HEADER_SIZE = 14"

definition ethernet_send :: "bytes \<Rightarrow> u16 \<Rightarrow> bytes \<Rightarrow> u32 \<Rightarrow> kstate \<Rightarrow> kstate option" where
  "ethernet_send dest_mac ethertype payload n k =
     (case global_vnet_dev k of
        None \<Rightarrow> Some k
      | Some vdev \<Rightarrow>
          if \<not> tx_vq vdev then Some k
          else
            let v_hdr_size = VIRTIO_NET_HDR_SIZE;
                total_len = v_hdr_size + ETH_HEADER_SIZE + n
            in do {
              (buffer, k) \<leftarrow> k_kmalloc (ucast total_len) k;
              if buffer = 0 then Some k
              else do {
                k \<leftarrow> k_store buffer 0 (replicate (unat v_hdr_size) 0) k;
                dm \<leftarrow> rd_bytes dest_mac 6;
                k \<leftarrow> k_store buffer (unat v_hdr_size) dm k;
                sm \<leftarrow> rd_bytes (aether_mac k) 6;
                k \<leftarrow> k_store buffer (unat v_hdr_size + 6) sm k;
                k \<leftarrow> k_store buffer (unat v_hdr_size + 12) (st16 (bswap16 ethertype)) k;
                body \<leftarrow> rd_bytes payload (unat n);
                k \<leftarrow> k_store buffer (unat v_hdr_size + unat ETH_HEADER_SIZE) body k;
                (head, vq, st) \<leftarrow> virtqueue_add_descriptor (tx_queue k) buffer total_len 0 (k_stats k);
                (vq, hw) \<leftarrow> virtqueue_push_available vdev vq head (k_hw k);
                Some (k\<lparr>tx_queue := vq, k_stats := st, k_hw := hw\<rparr>) } })"

section \<open>Reaping sent frames\<close>

text \<open>
  The loop ends when the queue has no receipt left. The device's completions that arrive while it
  runs are those already in the used ring of the argument.
\<close>

partial_function (option) net_tx_reaper :: "kstate \<Rightarrow> kstate option" where
  "net_tx_reaper k =
     do { (r, vq, st) \<leftarrow> virtqueue_pop_used (tx_queue k) (k_stats k);
          let k = k\<lparr>tx_queue := vq, k_stats := st\<rparr>;
          case r of
            None \<Rightarrow> Some k
          | Some (desc_id, _) \<Rightarrow>
              if length (desc (tx_queue k)) \<le> unat desc_id then None
              else do {
                let buffer_to_free = vd_addr (desc (tx_queue k) ! unat desc_id);
                k \<leftarrow> (if buffer_to_free \<noteq> 0 then k_kfree buffer_to_free k else Some k);
                let st = k_stats k;
                let st = (if 0 < buffer_usage st then st\<lparr>buffer_usage := buffer_usage st - 1\<rparr> else st);
                let st = st\<lparr>tx_packets := tx_packets st + 1\<rparr>;
                net_tx_reaper (k\<lparr>k_stats := st\<rparr>) } }"

section \<open>Who owns which block\<close>

definition tx_up :: "kstate \<Rightarrow> bool" where
  "tx_up k \<longleftrightarrow> (case global_vnet_dev k of None \<Rightarrow> False | Some vdev \<Rightarrow> tx_vq vdev)"

text \<open>The buffer a transmit descriptor describes, and the buffers in flight.\<close>

definition tx_buf :: "kstate \<Rightarrow> nat \<Rightarrow> addr" where
  "tx_buf k i = vd_addr (desc (tx_queue k) ! i)"

definition tx_bufs :: "kstate \<Rightarrow> addr set" where
  "tx_bufs k = tx_buf k ` in_flight (tx_queue k)"

text \<open>
  The transmit side is sound: the heap and the queue are well formed, and each descriptor in
  flight describes a heap block of its own that is in use and holds the frame. What is stored as
  a connection lies in blocks in use.
\<close>

definition tx_inv :: "kstate \<Rightarrow> bool" where
  "tx_inv k \<longleftrightarrow> heap_inv (k_heap k) \<and> length (aether_mac k) = 6
     \<and> (tx_up k \<longrightarrow> vq_inv (tx_queue k))
     \<and> (\<forall>i \<in> in_flight (tx_queue k). \<exists>n. live (k_heap k) (tx_buf k i) = Some n
           \<and> unat (vd_len (desc (tx_queue k) ! i)) \<le> n)
     \<and> inj_on (tx_buf k) (in_flight (tx_queue k))
     \<and> dom (tcbs k) \<subseteq> dom (live (k_heap k))"

text \<open>What a sender never touches.\<close>

definition same_conns :: "kstate \<Rightarrow> kstate \<Rightarrow> bool" where
  "same_conns k k' \<longleftrightarrow> tcbs k' = tcbs k \<and> tcp_tcb_list k' = tcp_tcb_list k
     \<and> tcp_global_isn k' = tcp_global_isn k \<and> arp_cache k' = arp_cache k
     \<and> aether_ip k' = aether_ip k \<and> aether_mac k' = aether_mac k
     \<and> rx_queue k' = rx_queue k \<and> rx_buffers k' = rx_buffers k
     \<and> global_vnet_dev k' = global_vnet_dev k"

lemma same_conns_refl [simp]: "same_conns k k"
  by (simp add: same_conns_def)

lemma same_conns_trans: "same_conns k k' \<Longrightarrow> same_conns k' k'' \<Longrightarrow> same_conns k k''"
  by (simp add: same_conns_def)

text \<open>
  The contract of a sender: it returns, keeps the transmit side sound, leaves the connections
  and every block in use alone, and puts only new blocks in flight.
\<close>

definition sent_ok :: "kstate \<Rightarrow> kstate \<Rightarrow> bool" where
  "sent_ok k k' \<longleftrightarrow> tx_inv k' \<and> same_conns k k' \<and> heap_ext (k_heap k) (k_heap k')
     \<and> tx_bufs k' \<inter> dom (live (k_heap k)) \<subseteq> tx_bufs k"

lemma sent_ok_refl: "tx_inv k \<Longrightarrow> sent_ok k k"
  by (simp add: sent_ok_def)

lemma sent_ok_trans: "sent_ok k k' \<Longrightarrow> sent_ok k' k'' \<Longrightarrow> sent_ok k k''"
proof -
  assume a: "sent_ok k k'" "sent_ok k' k''"
  then have "dom (live (k_heap k)) \<subseteq> dom (live (k_heap k'))" by (simp add: sent_ok_def heap_ext_dom)
  with a show ?thesis
    unfolding sent_ok_def using same_conns_trans heap_ext_trans by blast
qed

text \<open>The frame in memory: VirtIO header, destination, source, type, payload.\<close>

definition frame_bytes :: "bytes \<Rightarrow> bytes \<Rightarrow> u16 \<Rightarrow> bytes \<Rightarrow> bytes" where
  "frame_bytes dst src ethertype body =
     replicate 10 0 @ dst @ src @ st16 (bswap16 ethertype) @ body"

lemma length_frame_bytes:
  "length (frame_bytes dst src ty body) = 12 + length dst + length src + length body"
  by (simp add: frame_bytes_def)

section \<open>ethernet_send, step by step\<close>

lemmas eth_sizes = VIRTIO_NET_HDR_SIZE_def ETH_HEADER_SIZE_def

lemma rd_bytes_take: "n \<le> length d \<Longrightarrow> rd_bytes d n = Some (take n d)"
  by (simp add: rd_bytes_def)

text \<open>The five stores that build a frame in a fresh block.\<close>

lemma eth_fill:
  assumes "heap_inv (k_heap k)" and "live (k_heap k) p = Some m"
    and "length dm = 6" and "length sm = 6" and "24 + length body \<le> m"
  shows "\<exists>h1 h2 h3 h4 h. k_store p 0 (replicate 10 0) k = Some (k\<lparr>k_heap := h1\<rparr>)
    \<and> k_store p 10 dm (k\<lparr>k_heap := h1\<rparr>) = Some (k\<lparr>k_heap := h2\<rparr>)
    \<and> k_store p 16 sm (k\<lparr>k_heap := h2\<rparr>) = Some (k\<lparr>k_heap := h3\<rparr>)
    \<and> k_store p 22 (st16 (bswap16 ty)) (k\<lparr>k_heap := h3\<rparr>) = Some (k\<lparr>k_heap := h4\<rparr>)
    \<and> k_store p 24 body (k\<lparr>k_heap := h4\<rparr>) = Some (k\<lparr>k_heap := h\<rparr>)
    \<and> only_block p (k_heap k) h
    \<and> ram_read (ram h) p (24 + length body) = frame_bytes dm sm ty body"
proof -
  have z: "ram_read (ram (k_heap k)) p 0 = []" by (simp add: ram_read_def)
  from k_store_append [OF assms(1,2) _ z, of "replicate 10 0"] assms(5) obtain h1 where
    s1: "k_store p 0 (replicate 10 0) k = Some (k\<lparr>k_heap := h1\<rparr>)" "only_block p (k_heap k) h1"
    "ram_read (ram h1) p 10 = replicate 10 0" by auto
  have b1: "heap_inv h1" "live h1 p = Some m" using s1(2) assms(2) by (simp_all add: only_block_def)
  from k_store_append [of "k\<lparr>k_heap := h1\<rparr>" p m 10 dm "replicate 10 0"] b1 s1(3) assms(3,5)
  obtain h2 where s2: "k_store p 10 dm (k\<lparr>k_heap := h1\<rparr>) = Some (k\<lparr>k_heap := h2\<rparr>)"
    "only_block p h1 h2" "ram_read (ram h2) p 16 = replicate 10 0 @ dm" by auto
  have b2: "heap_inv h2" "live h2 p = Some m" using s2(2) b1 by (simp_all add: only_block_def)
  from k_store_append [of "k\<lparr>k_heap := h2\<rparr>" p m 16 sm "replicate 10 0 @ dm"] b2 s2(3) assms(4,5)
  obtain h3 where s3: "k_store p 16 sm (k\<lparr>k_heap := h2\<rparr>) = Some (k\<lparr>k_heap := h3\<rparr>)"
    "only_block p h2 h3" "ram_read (ram h3) p 22 = (replicate 10 0 @ dm) @ sm" by auto
  have b3: "heap_inv h3" "live h3 p = Some m" using s3(2) b2 by (simp_all add: only_block_def)
  from k_store_append [of "k\<lparr>k_heap := h3\<rparr>" p m 22 "st16 (bswap16 ty)" "(replicate 10 0 @ dm) @ sm"]
    b3 s3(3) assms(5)
  obtain h4 where s4: "k_store p 22 (st16 (bswap16 ty)) (k\<lparr>k_heap := h3\<rparr>) = Some (k\<lparr>k_heap := h4\<rparr>)"
    "only_block p h3 h4" "ram_read (ram h4) p 24 = ((replicate 10 0 @ dm) @ sm) @ st16 (bswap16 ty)" by auto
  have b4: "heap_inv h4" "live h4 p = Some m" using s4(2) b3 by (simp_all add: only_block_def)
  from k_store_append [of "k\<lparr>k_heap := h4\<rparr>" p m 24 body "((replicate 10 0 @ dm) @ sm) @ st16 (bswap16 ty)"]
    b4 s4(3) assms(5)
  obtain h5 where s5: "k_store p 24 body (k\<lparr>k_heap := h4\<rparr>) = Some (k\<lparr>k_heap := h5\<rparr>)" "only_block p h4 h5"
    "ram_read (ram h5) p (24 + length body) = (((replicate 10 0 @ dm) @ sm) @ st16 (bswap16 ty)) @ body"
    by auto
  have "only_block p (k_heap k) h5"
    using s1(2) s2(2) s3(2) s4(2) s5(2) only_block_trans by blast
  moreover have "frame_bytes dm sm ty body = (((replicate 10 0 @ dm) @ sm) @ st16 (bswap16 ty)) @ body"
    by (simp add: frame_bytes_def)
  ultimately show ?thesis using s1(1) s2(1) s3(1) s4(1) s5(1,3) by metis
qed

lemma ethernet_send_cases:
  assumes inv: "tx_inv k" and "6 \<le> length dst" and "unat n \<le> length payload" and "unat n \<le> 2 ^ 31"
  obtains
    (down) "\<not> tx_up k" "ethernet_send dst ty payload n k = Some k"
  | (nomem) u h where "tx_up k" "heap_inv h" "heap_ext (k_heap k) h" "live h = live (k_heap k)"
      "ethernet_send dst ty payload n k = Some (k\<lparr>k_uart := u, k_heap := h\<rparr>)"
  | (queued) vdev p m u h hd vq vq' st where "tx_up k" "global_vnet_dev k = Some vdev" "p \<noteq> 0"
      "live (k_heap k) p = None" "heap_inv h" "heap_ext (k_heap k) h" "24 + unat n \<le> m"
      "live h = (live (k_heap k))(p \<mapsto> m)"
      "ram_read (ram h) p (24 + unat n) =
         frame_bytes (take 6 dst) (aether_mac k) ty (take (unat n) payload)"
      "virtqueue_add_descriptor (tx_queue k) p (24 + n) 0 (k_stats k) = Some (hd, vq, st)"
      "avail_publish vq hd = Some vq'"
      "ethernet_send dst ty payload n k = Some (k\<lparr>k_uart := u, k_heap := h, tx_queue := vq',
         k_stats := st, k_hw := virtqueue_notify vdev (queue_index vq') (k_hw k)\<rparr>)"
proof (cases "tx_up k")
  case False
  then show thesis by (intro down) (auto simp: ethernet_send_def tx_up_def split: option.splits)
next
  case True
  then obtain vdev where vdev: "global_vnet_dev k = Some vdev" "tx_vq vdev"
    by (auto simp: tx_up_def split: option.splits)
  have h0: "heap_inv (k_heap k)" "length (aether_mac k) = 6" and vi: "vq_inv (tx_queue k)"
    using inv True by (simp_all add: tx_inv_def)
  have tot: "unat (24 + n) = 24 + unat n" using assms(4) by (simp add: unat_word_ariths)
  have big: "unat (ucast (24 + n) :: u64) \<le> 2 ^ 32" using tot assms(4) by simp
  from h0(1) big show thesis
  proof (cases rule: k_kmalloc_cases)
    case (null u h)
    then show thesis
      using vdev True by (intro nomem [of h u]) (simp_all add: ethernet_send_def eth_sizes)
  next
    case (block p m u h)
    let ?k = "k\<lparr>k_uart := u, k_heap := h\<rparr>" and ?body = "take (unat n) payload"
    have m: "24 + length ?body \<le> m" using block(6) tot assms(3) by simp
    have hp: "heap_inv (k_heap ?k)" "live (k_heap ?k) p = Some m" using block by simp_all
    have six: "length (take 6 dst) = 6" using assms(2) by simp
    from eth_fill [OF hp six h0(2) m] obtain h1 h2 h3 h4 h' where
      fill: "k_store p 0 (replicate 10 0) ?k = Some (?k\<lparr>k_heap := h1\<rparr>)"
        "k_store p 10 (take 6 dst) (?k\<lparr>k_heap := h1\<rparr>) = Some (?k\<lparr>k_heap := h2\<rparr>)"
        "k_store p 16 (aether_mac k) (?k\<lparr>k_heap := h2\<rparr>) = Some (?k\<lparr>k_heap := h3\<rparr>)"
        "k_store p 22 (st16 (bswap16 ty)) (?k\<lparr>k_heap := h3\<rparr>) = Some (?k\<lparr>k_heap := h4\<rparr>)"
        "k_store p 24 ?body (?k\<lparr>k_heap := h4\<rparr>) = Some (?k\<lparr>k_heap := h'\<rparr>)"
      and ob: "only_block p (k_heap ?k) h'"
      and fr: "ram_read (ram h') p (24 + length ?body) = frame_bytes (take 6 dst) (aether_mac k) ty ?body"
      by blast
    from vi obtain fs ps where rep: "vq_rep (tx_queue k) fs ps" by (auto simp: vq_inv_rep)
    obtain hd vq st where add:
      "virtqueue_add_descriptor (tx_queue k) p (24 + n) 0 (k_stats k) = Some (hd, vq, st)"
      using pool.take_total [of "(tx_queue k, k_stats k)" fs ps p "24 + n" 0] rep by auto
    have "vq_inv vq" using vq_step_inv [OF vi vq_step.add [OF add]] .
    then obtain fs' where vf': "vq_free vq fs'" by (auto simp: vq_inv_def)
    from avail_publish_free [OF vf', of hd] obtain vq' where pub: "avail_publish vq hd = Some vq'"
      "queue_index vq' = queue_index vq" by blast
    have push: "virtqueue_push_available vdev vq hd (k_hw k) =
        Some (vq', virtqueue_notify vdev (queue_index vq') (k_hw k))"
      by (simp add: virtqueue_push_available_def pub)
    have "ethernet_send dst ty payload n k = Some (k\<lparr>k_uart := u, k_heap := h', tx_queue := vq',
         k_stats := st, k_hw := virtqueue_notify vdev (queue_index vq') (k_hw k)\<rparr>)"
      using vdev block(1,4) fill add push assms(2,3) h0(2)
      by (simp add: ethernet_send_def eth_sizes rd_bytes_take)
    moreover have "heap_inv h'" "live h' = (live (k_heap k))(p \<mapsto> m)"
      using ob block(7) by (simp_all add: only_block_def)
    moreover have "heap_ext (k_heap k) h'"
      using heap_ext_only_block [OF block(3,5)] ob by simp
    ultimately show thesis
      using True vdev block add pub fr m assms(3)
      by (intro queued [where p = p and h = h' and m = m and vdev = vdev and hd = hd and vq = vq
            and vq' = vq' and st = st and u = u]) simp_all
  qed
qed

lemma in_flight_rep: "vq_rep vq fs ps \<Longrightarrow> in_flight vq = {0..<unat (vq_size vq)} - set fs"
  by (simp add: in_flight_def free_ids_eq [OF vq_rep_free])

text \<open>
  What adding and publishing a descriptor does to the descriptors in flight: nothing when the
  ring is full, and otherwise the new one joins them and describes the caller's buffer.
\<close>

lemma add_publish_in_flight:
  assumes "vq_inv vq" and "virtqueue_add_descriptor vq a l f st = Some (head, vq1, st')"
    and "avail_publish vq1 head = Some vq'"
    and "slot = unat (avail_idx vq) mod unat (vq_size vq)"
  obtains (full) "head = 0xFFFF" "free_ids vq = {}" "avail_idx vq' = avail_idx vq + 1"
      "avail_ring vq' = (avail_ring vq)[slot := head]" "in_flight vq' = in_flight vq" "desc vq' = desc vq" "vq_inv vq'" "st' = st"
  | (new) "head \<noteq> 0xFFFF" "unat head \<in> free_ids vq" "avail_idx vq' = avail_idx vq + 1"
      "avail_ring vq' = (avail_ring vq)[slot := head]" "unat head \<notin> in_flight vq" "in_flight vq' = insert (unat head) (in_flight vq)"
      "desc vq' = (desc vq)[unat head := \<lparr>vd_addr = a, vd_len = l, vd_flags = f, vd_next = 0\<rparr>]"
      "vq_inv vq'" "unat head < length (desc vq)"
      "st' = st\<lparr>buffer_usage := buffer_usage st + 1\<rparr>"
proof -
  from assms(1) obtain fs ps where rep: "vq_rep vq fs ps" by (auto simp: vq_inv_rep)
  show thesis
  proof (cases fs)
    case Nil
    with rep have "vq_rep vq [] ps" by simp
    from vq_take_none [OF this, of a l f st] assms(2) have eq: "head = 0xFFFF" "vq1 = vq" "st' = st" by simp_all
    from avail_publish_free [OF vq_rep_free [OF rep], of head] assms(3) eq have
      pub: "vq_free vq' fs" "desc vq' = desc vq" "vq_size vq' = vq_size vq"
      "avail_idx vq' = avail_idx vq + 1" "avail_ring vq' = (avail_ring vq)[slot := head]"
      by (auto simp: assms(4))
    then have "in_flight vq' = in_flight vq" "free_ids vq = {}" "vq_inv vq'"
      using vq_rep_free [OF rep] Nil by (auto simp: vq_inv_def in_flight_def free_ids_eq)
    with eq pub show thesis by (intro full) simp_all
  next
    case (Cons i fs')
    with rep have rep: "vq_rep vq (i # fs') ps" by simp
    note sets = vq_rep_sets [OF rep]
    from vq_take_some [OF rep, of a l f st] assms(2) have
      eq: "head = of_nat i" "vq_rep vq1 fs' ps" "vq_size vq1 = vq_size vq"
      "st' = st\<lparr>buffer_usage := buffer_usage st + 1\<rparr>"
      "desc vq1 = (desc vq)[i := \<lparr>vd_addr = a, vd_len = l, vd_flags = f, vd_next = 0\<rparr>]"
      "avail_idx vq1 = avail_idx vq" "avail_ring vq1 = avail_ring vq" by auto
    have "virtqueue_add_descriptor (fst (vq, st)) a l f (snd (vq, st)) = Some (head, vq1, st')"
      using assms(2) by simp
    then have h: "head \<noteq> 0xFFFF" "unat head = i"
      using pool.take_fresh(1,2) [of "(vq, st)" i fs' ps a l f head "(vq1, st')"] rep by simp_all
    from avail_publish_free [OF vq_rep_free [OF eq(2)], of head] assms(3) have
      pub: "vq_free vq' fs'" "desc vq' = desc vq1" "vq_size vq' = vq_size vq1"
      "avail_idx vq' = avail_idx vq + 1" "avail_ring vq' = (avail_ring vq)[slot := head]"
      using eq by (auto simp: assms(4))
    have "in_flight vq' = {0..<unat (vq_size vq)} - set fs'"
      using pub eq by (simp add: in_flight_def free_ids_eq)
    moreover have "in_flight vq = {0..<unat (vq_size vq)} - set (i # fs')" by (rule in_flight_rep [OF rep])
    moreover have "i < length (desc vq)" using sets rep by (auto simp: vq_rep_def vq_free_def)
    moreover have "free_ids vq = set (i # fs')" by (rule free_ids_eq [OF vq_rep_free [OF rep]])
    ultimately show thesis
      using sets pub eq h by (intro new) (auto simp: vq_inv_def)
  qed
qed

lemma ethernet_send_safe:
  assumes inv: "tx_inv k" and "6 \<le> length dst" and "unat n \<le> length payload" and "unat n \<le> 2 ^ 31"
  shows "\<exists>k'. ethernet_send dst ty payload n k = Some k' \<and> sent_ok k k'"
  using assms
proof (cases rule: ethernet_send_cases [where ty = ty])
  case down
  then show ?thesis using sent_ok_refl [OF inv] by simp
next
  case (nomem u h)
  then have "sent_ok k (k\<lparr>k_uart := u, k_heap := h\<rparr>)"
    using inv by (auto simp: sent_ok_def tx_inv_def tx_up_def tx_bufs_def tx_buf_def [abs_def] same_conns_def)
  with nomem show ?thesis by blast
next
  case (queued vdev p m u h hd vq vq' st)
  let ?k = "k\<lparr>k_uart := u, k_heap := h, tx_queue := vq', k_stats := st,
      k_hw := virtqueue_notify vdev (queue_index vq') (k_hw k)\<rparr>"
  have bufs: "live h (tx_buf k i) = live (k_heap k) (tx_buf k i)" "tx_buf k i \<noteq> p"
    if "i \<in> in_flight (tx_queue k)" for i
    using inv queued(4,8) that by (auto simp: tx_inv_def)
  have vi: "vq_inv (tx_queue k)" using inv queued(1) by (simp add: tx_inv_def)
  have tc: "dom (tcbs k) \<subseteq> dom (live h)" using inv queued(8) by (auto simp: tx_inv_def)
  have tot: "unat (24 + n) = 24 + unat n" using assms(4) by (simp add: unat_word_ariths)
  from vi queued(10,11) refl have "tx_inv ?k \<and> tx_bufs ?k \<inter> dom (live (k_heap k)) \<subseteq> tx_bufs k"
  proof (cases rule: add_publish_in_flight)
    case full
    then show ?thesis
      using inv queued(5) bufs tc by (simp add: tx_inv_def tx_up_def tx_bufs_def tx_buf_def [abs_def])
  next
    case new
    have b: "tx_buf ?k i = (if i = unat hd then p else tx_buf k i)" for i
      using new by (simp add: tx_buf_def)
    have l: "vd_len (desc vq' ! i) = (if i = unat hd then 24 + n else vd_len (desc (tx_queue k) ! i))" for i
      using new by simp
    have "tx_bufs ?k = insert p (tx_bufs k)"
      unfolding tx_bufs_def b using new(5,6) by (auto simp: image_iff)
    then have "tx_bufs ?k \<inter> dom (live (k_heap k)) \<subseteq> tx_bufs k" using queued(4) by auto
    moreover have "inj_on (tx_buf ?k) (in_flight vq')"
      unfolding inj_on_def b new(6) using inv bufs new(5) by (auto simp: tx_inv_def inj_on_def)
    moreover have "\<exists>n. live h (tx_buf ?k i) = Some n \<and> unat (vd_len (desc vq' ! i)) \<le> n"
      if "i \<in> in_flight vq'" for i
    proof (cases "i = unat hd")
      case True
      then show ?thesis unfolding b l using queued(7,8) tot by auto
    next
      case False
      then have "i \<in> in_flight (tx_queue k)" using that new(6) by simp
      with False show ?thesis unfolding b l using inv bufs(1) by (auto simp: tx_inv_def)
    qed
    ultimately show ?thesis
      using inv queued(5) new(8) tc by (simp add: tx_inv_def tx_up_def)
  qed
  moreover have "same_conns k ?k" by (simp add: same_conns_def)
  ultimately have "sent_ok k ?k" using queued(6) by (simp add: sent_ok_def)
  with queued show ?thesis by blast
qed

text \<open>Freeing a block that is neither a frame in flight nor a connection.\<close>

lemma k_kfree_tx:
  assumes inv: "tx_inv k" and m: "live (k_heap k) p = Some m" and "p \<notin> tx_bufs k" and "p \<notin> dom (tcbs k)"
  shows "\<exists>h. k_kfree p k = Some (k\<lparr>k_heap := h\<rparr>) \<and> tx_inv (k\<lparr>k_heap := h\<rparr>)
    \<and> tx_bufs (k\<lparr>k_heap := h\<rparr>) = tx_bufs k
    \<and> live h = (live (k_heap k))(p := None) \<and> ram h = ram (k_heap k)"
proof -
  have "heap_inv (k_heap k)" using inv by (simp add: tx_inv_def)
  from k_kfree_block [OF this m] obtain h where
    h: "k_kfree p k = Some (k\<lparr>k_heap := h, tcbs := (tcbs k)(p := None)\<rparr>)" "heap_inv h"
    "live h = (live (k_heap k))(p := None)" "ram h = ram (k_heap k)" by blast
  have "(tcbs k)(p := None) = tcbs k" using assms(4) by (auto simp: fun_upd_idem_iff)
  then have k: "k_kfree p k = Some (k\<lparr>k_heap := h\<rparr>)" using h(1) by simp
  have b: "tx_buf (k\<lparr>k_heap := h\<rparr>) = tx_buf k" by (simp add: tx_buf_def [abs_def])
  have "tx_buf k i \<noteq> p" if "i \<in> in_flight (tx_queue k)" for i
    using assms(3) that by (auto simp: tx_bufs_def)
  then have "tx_inv (k\<lparr>k_heap := h\<rparr>)"
    using inv assms(4) by (auto simp: tx_inv_def tx_up_def b h)
  then show ?thesis using k h(3,4) b by (auto simp: tx_bufs_def)
qed

text \<open>A block an operation took for itself can be given back after a send from it.\<close>

lemma free_own_block:
  assumes inv: "tx_inv k" and new: "live (k_heap k) p = None" and h: "live h = (live (k_heap k))(p \<mapsto> m)"
    and ext: "heap_ext (k_heap k) h" and sent: "sent_ok (k\<lparr>k_uart := u, k_heap := h\<rparr>) k1"
  shows "\<exists>h'. k_kfree p k1 = Some (k1\<lparr>k_heap := h'\<rparr>) \<and> sent_ok k (k1\<lparr>k_heap := h'\<rparr>)"
proof -
  let ?k = "k\<lparr>k_uart := u, k_heap := h\<rparr>"
  have buf: "tx_buf ?k = tx_buf k" by (simp add: tx_buf_def [abs_def])
  have own: "tx_bufs k \<subseteq> dom (live (k_heap k))" using inv by (auto simp: tx_inv_def tx_bufs_def)
  have lp: "live (k_heap k1) p = Some m" using sent h by (simp add: sent_ok_def heap_ext_def)
  have sub: "tx_bufs k1 \<inter> dom (live h) \<subseteq> tx_bufs k"
    using sent by (simp add: sent_ok_def tx_bufs_def [of ?k] tx_bufs_def [of k] buf)
  have "p \<in> dom (live h)" "p \<notin> tx_bufs k" using own new h by auto
  then have "p \<notin> tx_bufs k1" using sub by blast
  moreover have "p \<notin> dom (tcbs k1)"
    using sent inv new by (auto simp: sent_ok_def same_conns_def tx_inv_def)
  moreover have "tx_inv k1" using sent by (simp add: sent_ok_def)
  ultimately obtain h' where h': "k_kfree p k1 = Some (k1\<lparr>k_heap := h'\<rparr>)" "tx_inv (k1\<lparr>k_heap := h'\<rparr>)"
    "tx_bufs (k1\<lparr>k_heap := h'\<rparr>) = tx_bufs k1" "live h' = (live (k_heap k1))(p := None)"
    "ram h' = ram (k_heap k1)"
    using k_kfree_tx lp by blast
  have "heap_ext (k_heap k) h'"
    using new ext sent h'(4,5) by (auto simp: sent_ok_def heap_ext_def)
  moreover have "tx_bufs k1 \<inter> dom (live (k_heap k)) \<subseteq> tx_bufs k"
    using sub h by auto
  moreover have "same_conns k (k1\<lparr>k_heap := h'\<rparr>)"
    using sent by (simp add: sent_ok_def same_conns_def)
  ultimately have "sent_ok k (k1\<lparr>k_heap := h'\<rparr>)" using h'(2,3) by (simp add: sent_ok_def)
  with h'(1) show ?thesis by blast
qed

section \<open>The reaper\<close>

text \<open>One turn of the loop: the oldest receipt's buffer goes back to the heap.\<close>

lemma reap_step:
  assumes inv: "tx_inv k" and rep: "vq_rep (tx_queue k) fs ((i, l) # ps)"
    and apart: "tx_bufs k \<inter> dom (tcbs k) = {}"
  shows "\<exists>k'. net_tx_reaper k = net_tx_reaper k' \<and> tx_inv k' \<and> same_conns k k'
    \<and> vq_rep (tx_queue k') (i # fs) ps \<and> vq_size (tx_queue k') = vq_size (tx_queue k) \<and> tx_bufs k' = tx_bufs k - {tx_buf k i}
    \<and> (\<forall>j < unat (vq_size (tx_queue k)). tx_buf k' j = tx_buf k j)
    \<and> live (k_heap k') = (live (k_heap k))(tx_buf k i := None) \<and> ram (k_heap k') = ram (k_heap k)"
proof -
  note sets = vq_rep_sets [OF rep]
  from vq_reap_some [OF rep, of "k_stats k"] obtain vq where
    pop: "virtqueue_pop_used (tx_queue k) (k_stats k) =
        Some (Some (of_nat i, l), vq, pop_stats (queue_index (tx_queue k)) (k_stats k))"
    and rep': "vq_rep vq (i # fs) ps" and sz: "vq_size vq = vq_size (tx_queue k)"
    and addr: "map vd_addr (desc vq) = map vd_addr (desc (tx_queue k))"
    and len: "map vd_len (desc vq) = map vd_len (desc (tx_queue k))" by blast
  have n: "length (desc vq) = unat (vq_size (tx_queue k))" "unat (vq_size (tx_queue k)) \<le> 32768"
    using rep' sz by (simp_all add: vq_rep_def vq_free_def)
  then have i: "i < length (desc vq)" using sets by auto
  then have ui: "unat (of_nat i :: u16) = i" using n by (simp add: unat_of_nat)
  have fl: "i \<in> in_flight (tx_queue k)" "in_flight vq = in_flight (tx_queue k) - {i}"
    using sets unfolding in_flight_rep [OF rep] in_flight_rep [OF rep'] sz by auto
  have at: "vd_addr (desc vq ! j) = tx_buf k j" "vd_len (desc vq ! j) = vd_len (desc (tx_queue k) ! j)"
    if "j < length (desc vq)" for j
  proof -
    have "map vd_addr (desc vq) ! j = map vd_addr (desc (tx_queue k)) ! j"
      "map vd_len (desc vq) ! j = map vd_len (desc (tx_queue k)) ! j" using addr len by simp_all
    moreover have "length (desc (tx_queue k)) = length (desc vq)" using map_eq_imp_length_eq [OF addr] by simp
    ultimately show "vd_addr (desc vq ! j) = tx_buf k j" "vd_len (desc vq ! j) = vd_len (desc (tx_queue k) ! j)"
      using that by (simp_all add: tx_buf_def)
  qed
  let ?st = "pop_stats (queue_index (tx_queue k)) (k_stats k)"
  let ?k = "k\<lparr>tx_queue := vq, k_stats := ?st\<rparr>"
  from inv fl(1) obtain m where m: "live (k_heap k) (tx_buf k i) = Some m" by (auto simp: tx_inv_def)
  have nn: "tx_buf k i \<noteq> 0" using km.null_not_block [of "(k_uart k, k_heap k)"] inv m by (auto simp: tx_inv_def)
  have "heap_inv (k_heap ?k)" "live (k_heap ?k) (tx_buf k i) = Some m" using inv m by (simp_all add: tx_inv_def)
  from k_kfree_block [OF this] obtain h where
    fr: "k_kfree (tx_buf k i) ?k = Some (?k\<lparr>k_heap := h, tcbs := (tcbs ?k)(tx_buf k i := None)\<rparr>)"
    "heap_inv h" "live h = (live (k_heap k))(tx_buf k i := None)" "ram h = ram (k_heap k)" by auto
  have tc: "(tcbs k)(tx_buf k i := None) = tcbs k"
    using apart fl(1) by (auto simp: tx_bufs_def fun_upd_idem_iff)
  define st where "st = (let st = (if 0 < buffer_usage ?st
      then ?st\<lparr>buffer_usage := buffer_usage ?st - 1\<rparr> else ?st) in st\<lparr>tx_packets := tx_packets st + 1\<rparr>)"
  let ?k' = "?k\<lparr>k_heap := h, k_stats := st\<rparr>"
  have st: "net_tx_reaper k = net_tx_reaper ?k'"
    using fr(1) nn i ui at(1) [OF i] tc by (subst net_tx_reaper.simps) (simp add: Let_def pop st_def)
  have b: "tx_buf ?k' j = tx_buf k j" if "j < length (desc vq)" for j
    using at(1) [OF that] by (simp add: tx_buf_def)
  have fj: "j < length (desc vq)" if "j \<in> in_flight (tx_queue k)" for j
    using that n by (simp add: in_flight_def)
  have bufs: "tx_bufs ?k' = tx_bufs k - {tx_buf k i}"
  proof -
    have "tx_bufs ?k' = tx_buf k ` (in_flight (tx_queue k) - {i})"
      unfolding tx_bufs_def using b fj by (auto simp: fl(2) intro!: image_eqI)
    also have "\<dots> = tx_bufs k - {tx_buf k i}"
      using inv fl(1) by (auto simp: tx_inv_def tx_bufs_def inj_on_def)
    finally show ?thesis .
  qed
  have "tx_inv ?k'"
    unfolding tx_inv_def
  proof (intro conjI ballI)
    show "heap_inv (k_heap ?k')" "length (aether_mac ?k') = 6" using fr(2) inv by (simp_all add: tx_inv_def)
    show "dom (tcbs ?k') \<subseteq> dom (live (k_heap ?k'))"
      using inv apart fl(1) by (auto simp: tx_inv_def fr(3) tx_bufs_def)
    show "tx_up ?k' \<longrightarrow> vq_inv (tx_queue ?k')" using rep' by (auto simp: vq_inv_rep)
    have "inj_on (tx_buf k) (in_flight vq)" using inv by (auto simp: tx_inv_def fl(2) inj_on_def)
    then show "inj_on (tx_buf ?k') (in_flight (tx_queue ?k'))"
      using b fj fl(2) by (auto simp: inj_on_def)
    fix j assume "j \<in> in_flight (tx_queue ?k')"
    then have j: "j \<in> in_flight (tx_queue k)" "j \<noteq> i" using fl(2) by auto
    then have "tx_buf k j \<noteq> tx_buf k i" using inv fl(1) by (auto simp: tx_inv_def inj_on_def)
    then show "\<exists>n. live (k_heap ?k') (tx_buf ?k' j) = Some n
        \<and> unat (vd_len (desc (tx_queue ?k') ! j)) \<le> n"
      using inv j(1) fr(3) b [OF fj [OF j(1)]] at(2) [OF fj [OF j(1)]] by (auto simp: tx_inv_def)
  qed
  then show ?thesis
    using st rep' sz bufs fr(3,4) b n(1)
    by (intro exI [of _ ?k']) (simp add: same_conns_def)
qed

text \<open>The whole loop, by induction on the receipts: it ends with none left.\<close>

lemma net_tx_reaper_safe:
  assumes "tx_inv k" and "vq_rep (tx_queue k) fs ps" and "tx_bufs k \<inter> dom (tcbs k) = {}"
  shows "\<exists>k'. net_tx_reaper k = Some k' \<and> tx_inv k' \<and> same_conns k k'
    \<and> vq_rep (tx_queue k') (rev (map fst ps) @ fs) []
    \<and> vq_size (tx_queue k') = vq_size (tx_queue k)
    \<and> tx_bufs k' = tx_bufs k - tx_buf k ` fst ` set ps
    \<and> live (k_heap k') = live (k_heap k) |` (- (tx_buf k ` fst ` set ps))
    \<and> ram (k_heap k') = ram (k_heap k)"
  using assms
proof (induction ps arbitrary: k fs)
  case Nil
  then show ?case
    by (subst net_tx_reaper.simps) (simp add: vq_reap_none Let_def tx_inv_def tx_up_def tx_buf_def [abs_def]
        tx_bufs_def same_conns_def restrict_map_def)
next
  case (Cons p ps)
  obtain i l where p: "p = (i, l)" by (cases p)
  note sets = vq_rep_sets [OF Cons.prems(2)]
  from reap_step [OF Cons.prems(1) Cons.prems(2) [unfolded p] Cons.prems(3)] obtain k1 where
    k1: "net_tx_reaper k = net_tx_reaper k1" "tx_inv k1" "same_conns k k1"
    "vq_rep (tx_queue k1) (i # fs) ps" "vq_size (tx_queue k1) = vq_size (tx_queue k)"
    "tx_bufs k1 = tx_bufs k - {tx_buf k i}"
    "\<forall>j < unat (vq_size (tx_queue k)). tx_buf k1 j = tx_buf k j"
    "live (k_heap k1) = (live (k_heap k))(tx_buf k i := None)" "ram (k_heap k1) = ram (k_heap k)" by blast
  have "tx_bufs k1 \<inter> dom (tcbs k1) = {}" using k1(3,6) Cons.prems(3) by (auto simp: same_conns_def)
  from Cons.IH [OF k1(2,4) this] obtain k2 where
    k2: "net_tx_reaper k1 = Some k2" "tx_inv k2" "same_conns k1 k2"
    "vq_rep (tx_queue k2) (rev (map fst ps) @ i # fs) []" "vq_size (tx_queue k2) = vq_size (tx_queue k1)"
    "tx_bufs k2 = tx_bufs k1 - tx_buf k1 ` fst ` set ps"
    "live (k_heap k2) = live (k_heap k1) |` (- (tx_buf k1 ` fst ` set ps))"
    "ram (k_heap k2) = ram (k_heap k1)" by blast
  have im: "tx_buf k1 ` fst ` set ps = tx_buf k ` fst ` set ps"
    using k1(7) sets(5) by (intro image_cong) auto
  have "live (k_heap k2) = live (k_heap k) |` (- (tx_buf k ` fst ` set (p # ps)))"
    unfolding k2(7) k1(8) im p by (auto simp: restrict_map_def fun_eq_iff)
  moreover have "tx_bufs k2 = tx_bufs k - tx_buf k ` fst ` set (p # ps)"
    unfolding k2(6) k1(6) im p by auto
  ultimately show ?case
    using k1(1,3,5,9) k2 same_conns_trans p by (intro exI [of _ k2]) auto
qed

section \<open>Connections beside the senders\<close>

text \<open>
  The connection list is well formed: the pointers lead through all TCBs once, each TCB lies in a
  block in use that is large enough, and none is a frame in flight.
\<close>

definition conns :: "kstate \<Rightarrow> addr list \<Rightarrow> bool" where
  "conns k as \<longleftrightarrow> path tcb_next (tcbs k) (tcp_tcb_list k) as \<and> dom (tcbs k) = set as
     \<and> (\<forall>a \<in> set as. \<exists>n \<ge> unat TCB_SIZE. live (k_heap k) a = Some n) \<and> tx_bufs k \<inter> set as = {}"

definition net_inv :: "kstate \<Rightarrow> bool" where
  "net_inv k \<longleftrightarrow> tx_inv k \<and> (\<exists>as. conns k as)"

lemma sent_ok_conns: "sent_ok k k' \<Longrightarrow> conns k as \<Longrightarrow> conns k' as"
proof -
  assume s: "sent_ok k k'" and c: "conns k as"
  then have eq: "tcbs k' = tcbs k" "tcp_tcb_list k' = tcp_tcb_list k"
    by (simp_all add: sent_ok_def same_conns_def)
  have "set as \<subseteq> dom (live (k_heap k))" using c by (auto simp: conns_def)
  then have "tx_bufs k' \<inter> set as = {}" using s c by (auto simp: sent_ok_def conns_def)
  then show ?thesis using s c eq heap_ext_live by (simp add: conns_def sent_ok_def) blast
qed

lemma sent_ok_net_inv: "sent_ok k k' \<Longrightarrow> net_inv k \<Longrightarrow> net_inv k'"
  using sent_ok_conns by (auto simp: net_inv_def sent_ok_def)

text \<open>
  The interface of a layer that sends: under its precondition a send returns and is no more than
  \<open>sent_ok\<close>. The layers above (ARP, TCP) rest on these facts only.
\<close>

locale sender =
  fixes send :: "'a \<Rightarrow> kstate \<Rightarrow> kstate option"
    and ok :: "'a \<Rightarrow> bool"
  assumes send_ok: "tx_inv k \<Longrightarrow> ok a \<Longrightarrow> \<exists>k'. send a k = Some k' \<and> sent_ok k k'"
begin

lemma send_net_inv:
  assumes "net_inv k" and "ok a"
  obtains k' where "send a k = Some k'" "sent_ok k k'" "net_inv k'"
  using send_ok [of k a] assms sent_ok_net_inv by (auto simp: net_inv_def)

lemma send_keeps_block:
  assumes "tx_inv k" and "ok a" and "send a k = Some k'" and "live (k_heap k) p = Some n"
  shows "live (k_heap k') p = Some n" "ram_read (ram (k_heap k')) p n = ram_read (ram (k_heap k)) p n"
  using send_ok [OF assms(1,2)] assms(3,4) by (auto simp: sent_ok_def heap_ext_def)

text \<open>Any number of sends in a row.\<close>

primrec send_all :: "'a list \<Rightarrow> kstate \<Rightarrow> kstate option" where
  "send_all [] k = Some k"
| "send_all (a # as) k = do { k \<leftarrow> send a k; send_all as k }"

lemma send_all_ok:
  "tx_inv k \<Longrightarrow> list_all ok as \<Longrightarrow> \<exists>k'. send_all as k = Some k' \<and> sent_ok k k'"
proof (induction as arbitrary: k)
  case Nil
  then show ?case by (simp add: sent_ok_refl)
next
  case (Cons a as)
  then obtain k1 where k1: "send a k = Some k1" "sent_ok k k1" using send_ok [of k a] by auto
  then have "tx_inv k1" by (simp add: sent_ok_def)
  with Cons k1 show ?case using sent_ok_trans by fastforce
qed

end

interpretation eth: sender
  "\<lambda>(dst, ty, payload, n). ethernet_send dst ty payload n"
  "\<lambda>(dst, ty, payload, n). 6 \<le> length dst \<and> unat n \<le> length payload \<and> unat n \<le> 2 ^ 31"
  by unfold_locales (auto intro: ethernet_send_safe)

section \<open>Properties\<close>

lemma boot_net_inv: "net_inv (boot_state r isn)"
  by (auto simp: net_inv_def tx_inv_def boot_state_def heap_init_inv AETHER_MAC_ADDR_def tx_up_def
      in_flight_def fresh_queue_def conns_def tx_bufs_def intro!: exI [of _ "[]"])

text \<open>A kernel whose device is up, with an empty transmit ring.\<close>

definition up_state :: "virtqueue \<Rightarrow> kstate" where
  "up_state vq = (boot_state (\<lambda>_. 0) 0)\<lparr>
     global_vnet_dev := Some \<lparr>bus = 0, dev = 1, func = 0, common = 0x80000000, device = 0x80001000,
        isr = 0x80002000, notify_base = 0x80003000, notify_off_multiplier = 4, rx_vq = True, tx_vq = True\<rparr>,
     tx_queue := vq\<rparr>"

lemma up_state_net_inv: "vq_rep vq [0..<256] [] \<Longrightarrow> vq_size vq = 256 \<Longrightarrow> net_inv (up_state vq)"
proof -
  assume vq: "vq_rep vq [0..<256] []" "vq_size vq = 256"
  then have "in_flight vq = {}" "vq_inv vq" by (auto simp: in_flight_rep vq_inv_def vq_rep_def)
  then show ?thesis
    by (auto simp: net_inv_def tx_inv_def up_state_def boot_state_def heap_init_inv
        AETHER_MAC_ADDR_def conns_def tx_bufs_def intro!: exI [of _ "[]"])
qed

lemma up_state_tx_up: "tx_up (up_state vq)"
  by (simp add: tx_up_def up_state_def)



lemma reaper_spec:
  assumes "net_inv k" and "tx_up k"
  shows "\<exists>k'. net_tx_reaper k = Some k' \<and> net_inv k' \<and> same_conns k k'
    \<and> unread (tx_queue k') = [] \<and> device_ids (tx_queue k') = device_ids (tx_queue k)
    \<and> free_ids (tx_queue k') = free_ids (tx_queue k) \<union> set (done_ids (tx_queue k))
    \<and> live (k_heap k') = live (k_heap k) |` (- (tx_buf k ` set (done_ids (tx_queue k))))"
proof -
  from assms obtain as fs ps where c: "conns k as" and inv: "tx_inv k" and rep: "vq_rep (tx_queue k) fs ps"
    by (auto simp: net_inv_def tx_inv_def vq_inv_rep)
  note sets = vq_rep_sets [OF rep]
  have "tx_bufs k \<inter> dom (tcbs k) = {}" using c by (simp add: conns_def)
  from net_tx_reaper_safe [OF inv rep this] obtain k' where
    k': "net_tx_reaper k = Some k'" "tx_inv k'" "same_conns k k'"
    "vq_rep (tx_queue k') (rev (map fst ps) @ fs) []"
    "tx_bufs k' = tx_bufs k - tx_buf k ` fst ` set ps"
    "live (k_heap k') = live (k_heap k) |` (- (tx_buf k ` fst ` set ps))"
    and sz: "vq_size (tx_queue k') = vq_size (tx_queue k)" by blast
  have dn: "set (done_ids (tx_queue k)) = fst ` set ps" using vq_rep_done [OF rep] by simp
  have sub: "tx_buf k ` fst ` set ps \<subseteq> tx_bufs k"
    using sets unfolding tx_bufs_def in_flight_rep [OF rep] by (intro image_mono) auto
  have "conns k' as"
    using c k'(3) sub unfolding conns_def k'(5,6) same_conns_def by (auto simp: restrict_map_def) 
  then have "net_inv k'" using k'(2) by (auto simp: net_inv_def)
  moreover have "unread (tx_queue k') = []" using k'(4) by (simp add: vq_rep_def)
  moreover have "device_ids (tx_queue k') = device_ids (tx_queue k)"
    unfolding device_ids_rep [OF k'(4)] device_ids_rep [OF rep] sz by auto
  moreover have "free_ids (tx_queue k') = free_ids (tx_queue k) \<union> set (done_ids (tx_queue k))"
    using free_ids_eq [OF vq_rep_free [OF k'(4)]] free_ids_eq [OF vq_rep_free [OF rep]] dn by auto
  ultimately show ?thesis using k' dn by simp
qed

text \<open>
  C26: the reaper returns, frees exactly the blocks of the frames the device has completed, each
  once, puts their descriptors back, leaves no receipt unread and no block of a connection
  touched.
\<close>

theorem reaper_frees_completed_frames:
  assumes "net_inv k" and "tx_up k"
  shows "\<exists>k'. net_tx_reaper k = Some k' \<and> net_inv k' \<and> same_conns k k'
    \<and> unread (tx_queue k') = [] \<and> device_ids (tx_queue k') = device_ids (tx_queue k)
    \<and> free_ids (tx_queue k') = free_ids (tx_queue k) \<union> set (done_ids (tx_queue k))
    \<and> live (k_heap k') = live (k_heap k) |` (- (tx_buf k ` set (done_ids (tx_queue k))))"
  using assms by (rule reaper_spec)

text \<open>A kernel with one frame sent and completed, not yet reaped.\<close>

lemma sample_sent:
  "\<exists>k. net_inv k \<and> tx_up k \<and> done_ids (tx_queue k) = [0] \<and> tx_buf k 0 = 0x41000018
     \<and> live (k_heap k) 0x41000018 = Some 104"
proof -
  obtain vq where rep: "vq_rep vq [0..<256] []" and sz: "vq_size vq = 256" using sample_queue by blast
  have "[0..<256] = 0 # [1..<256 :: nat]" by (simp add: upt_conv_Cons)
  with rep have "vq_rep vq (0 # [1..<256]) []" by simp
  from vq_take_some [OF this, of "0x41000018" 64 0 net_stats_init] sz obtain vq1 where
    v1: "vq_rep vq1 [1..<256] []" "vq_size vq1 = 256"
    "desc vq1 = (desc vq)[0 := \<lparr>vd_addr = 0x41000018, vd_len = 64, vd_flags = 0, vd_next = 0\<rparr>]" by auto
  let ?vq = "dev_complete 0 64 vq1"
  have vf: "vq_free ?vq [1..<256]" and un: "unread ?vq = [\<lparr>ue_id = of_nat 0, ue_len = 64\<rparr>]"
    using dev_complete_free [of vq1 "[1..<256]" 0 64] v1 vq_rep_done [OF v1(1)]
    by (auto simp: vq_rep_def)
  have d: "desc ?vq ! 0 = \<lparr>vd_addr = 0x41000018, vd_len = 64, vd_flags = 0, vd_next = 0\<rparr>"
    using v1(3) rep sz by (simp add: dev_complete_def vq_rep_def vq_free_def)
  have fl: "in_flight ?vq = {0}"
    using free_ids_eq [OF vf] v1(2) by (auto simp: in_flight_def dev_complete_def)
  obtain h where h: "heap_inv h" "live h 0x41000018 = Some 104" using sample_heap by blast
  let ?k = "(up_state ?vq)\<lparr>k_heap := h\<rparr>"
  have "vq_inv ?vq" using vf by (auto simp: vq_inv_def)
  then have "net_inv ?k"
    using fl d h by (auto simp: net_inv_def tx_inv_def up_state_def boot_state_def tx_buf_def
        AETHER_MAC_ADDR_def conns_def tx_bufs_def intro!: exI [of _ "[]"])
  then show ?thesis
    using up_state_tx_up un d h(2)
    by (intro exI [of _ ?k]) (simp add: done_ids_def tx_up_def tx_buf_def up_state_def)
qed

theorem reaper_frees_completed_frames_witness:
  "\<exists>k k'. live (k_heap k) 0x41000018 = Some 104 \<and> net_tx_reaper k = Some k' \<and> net_inv k'
     \<and> live (k_heap k') 0x41000018 = None"
proof -
  obtain k where k: "net_inv k" "tx_up k" "done_ids (tx_queue k) = [0]" "tx_buf k 0 = 0x41000018"
    "live (k_heap k) 0x41000018 = Some 104" using sample_sent by blast
  from reaper_frees_completed_frames [OF k(1,2)] k(3-5) show ?thesis by fastforce
qed

end
