(* ===== verification/Arp.thy ===== *)
theory Arp
  imports Ethernet
begin

text \<open>
  ARP (src/drivers/ethernet/arp.c): a cache of four entries that learns every sender, and the
  reply to a request for our address. A packed struct read through a pointer is decoded from the
  bytes behind it; its 16- and 32-bit fields are the machine's little-endian loads, and the code's
  byte swaps turn them into values.
\<close>

section \<open>The packet\<close>

record arp_packet =
  ap_htype :: u16
  ap_ptype :: u16
  ap_hlen :: u8
  ap_plen :: u8
  ap_opcode :: u16
  ap_sender_mac :: bytes
  ap_sender_ip :: u32
  ap_target_mac :: bytes
  ap_target_ip :: u32

definition ARP_PACKET_SIZE :: u32 where "ARP_PACKET_SIZE = 28"
definition ARP_HTYPE_ETH :: u16 where "ARP_HTYPE_ETH = 0x0001"
definition ARP_PTYPE_IPV4 :: u16 where "ARP_PTYPE_IPV4 = 0x0800"
definition ARP_OPCODE_REQUEST :: u16 where "ARP_OPCODE_REQUEST = 1"
definition ARP_OPCODE_REPLY :: u16 where "ARP_OPCODE_REPLY = 2"

lemmas arp_consts = ARP_PACKET_SIZE_def ARP_HTYPE_ETH_def ARP_PTYPE_IPV4_def ARP_OPCODE_REQUEST_def
  ARP_OPCODE_REPLY_def

definition arp_cast :: "bytes \<Rightarrow> arp_packet option" where
  "arp_cast d = (if length d < 28 then None else Some
     \<lparr>ap_htype = le16 (d ! 0) (d ! 1), ap_ptype = le16 (d ! 2) (d ! 3), ap_hlen = d ! 4, ap_plen = d ! 5,
      ap_opcode = le16 (d ! 6) (d ! 7), ap_sender_mac = take 6 (drop 8 d),
      ap_sender_ip = le32 (d ! 14) (d ! 15) (d ! 16) (d ! 17), ap_target_mac = take 6 (drop 18 d),
      ap_target_ip = le32 (d ! 24) (d ! 25) (d ! 26) (d ! 27)\<rparr>)"

definition arp_image :: "arp_packet \<Rightarrow> bytes" where
  "arp_image p = st16 (ap_htype p) @ st16 (ap_ptype p) @ [ap_hlen p, ap_plen p] @ st16 (ap_opcode p)
     @ ap_sender_mac p @ st32 (ap_sender_ip p) @ ap_target_mac p @ st32 (ap_target_ip p)"

section \<open>The cache\<close>

text \<open>The first entry that is free (address 0) or already holds the address takes it.\<close>

fun arp_cache_insert :: "u32 \<Rightarrow> bytes \<Rightarrow> arp_entry list \<Rightarrow> arp_entry list" where
  "arp_cache_insert ip mac [] = []"
| "arp_cache_insert ip mac (e # es) =
     (if ae_ip e = 0 \<or> ae_ip e = ip then \<lparr>ae_ip = ip, ae_mac = mac\<rparr> # es
      else e # arp_cache_insert ip mac es)"

section \<open>The handler\<close>

definition arp_handle :: "bytes \<Rightarrow> u32 \<Rightarrow> kstate \<Rightarrow> kstate option" where
  "arp_handle data n k =
     (if n < ARP_PACKET_SIZE then Some k
      else do {
        arp \<leftarrow> arp_cast data;
        let k = k_puts (str ''[ARP] Packet'' @ crlf) k;
        let sip = bswap32 (ap_sender_ip arp);
        let tip = bswap32 (ap_target_ip arp);
        let k = k_puts crlf (k_put_hex (ucast sip) (k_puts (str ''Sender IP: '') k));
        let k = k_puts crlf (k_put_hex (ucast tip) (k_puts (str ''Target IP: '') k));
        if bswap16 (ap_htype arp) \<noteq> ARP_HTYPE_ETH then Some k
        else if bswap16 (ap_ptype arp) \<noteq> ARP_PTYPE_IPV4 then Some k
        else do {
          let sender_ip_host = bswap32 (ap_sender_ip arp);
          let k = k\<lparr>arp_cache := arp_cache_insert sender_ip_host (ap_sender_mac arp) (arp_cache k)\<rparr>;
          if bswap16 (ap_opcode arp) \<noteq> ARP_OPCODE_REQUEST then Some k
          else do {
            let target_ip_host = bswap32 (ap_target_ip arp);
            if target_ip_host \<noteq> aether_ip k then Some k
            else do {
              our_mac \<leftarrow> rd_bytes (aether_mac k) 6;
              let reply = \<lparr>ap_htype = bswap16 ARP_HTYPE_ETH, ap_ptype = bswap16 ARP_PTYPE_IPV4,
                 ap_hlen = 6, ap_plen = 4, ap_opcode = bswap16 ARP_OPCODE_REPLY,
                 ap_sender_mac = our_mac, ap_sender_ip = bswap32 (aether_ip k),
                 ap_target_mac = ap_sender_mac arp, ap_target_ip = ap_sender_ip arp\<rparr>;
              let k = k_puts (str ''[ARP] Reply triggered'' @ crlf) k;
              ethernet_send (ap_sender_mac arp) ETH_TYPE_ARP (arp_image reply) ARP_PACKET_SIZE k
            } } } })"

section \<open>The cache as a map\<close>

definition arp_lookup :: "arp_entry list \<Rightarrow> u32 \<rightharpoonup> bytes" where
  "arp_lookup c ip = (if ip = 0 then None else map_option ae_mac (find (\<lambda>e. ae_ip e = ip) c))"

text \<open>Used entries come first and no address is in two of them.\<close>

fun cache_ok :: "arp_entry list \<Rightarrow> bool" where
  "cache_ok [] \<longleftrightarrow> True"
| "cache_ok (e # es) \<longleftrightarrow>
     (if ae_ip e = 0 then \<forall>x \<in> set es. ae_ip x = 0 else ae_ip e \<notin> ae_ip ` set es \<and> cache_ok es)"

lemma length_arp_cache_insert [simp]: "length (arp_cache_insert ip mac c) = length c"
  by (induction c) auto

lemma cache_ok_free: "\<forall>x \<in> set c. ae_ip x = 0 \<Longrightarrow> cache_ok c"
  by (cases c) auto

lemma arp_insert_ips:
  "ae_ip ` set (arp_cache_insert ip mac c) \<subseteq> insert ip (ae_ip ` set c)"
  by (induction c) auto

lemma arp_insert_ok: "cache_ok c \<Longrightarrow> cache_ok (arp_cache_insert ip mac c)"
proof (induction c)
  case (Cons e es)
  show ?case
  proof (cases "ae_ip e = 0")
    case True
    then have "\<forall>x \<in> set es. ae_ip x = 0" using Cons.prems by simp
    then show ?thesis using True cache_ok_free by auto
  next
    case False
    then show ?thesis using Cons arp_insert_ips [of ip mac es] by auto
  qed
qed simp

lemma arp_lookup_insert:
  assumes "cache_ok c" and "ip \<noteq> 0"
  shows "arp_lookup (arp_cache_insert ip mac c) =
    (if \<exists>e \<in> set c. ae_ip e = 0 \<or> ae_ip e = ip then (arp_lookup c)(ip \<mapsto> mac) else arp_lookup c)"
  using assms(1)
proof (induction c)
  case (Cons e es)
  show ?case
  proof (cases "ae_ip e = 0 \<or> ae_ip e = ip")
    case True
    have none: "find (\<lambda>x. ae_ip x = j) es = None" if "ae_ip e = 0" "j \<noteq> 0" for j
      using Cons.prems that by (auto simp: find_None_iff)
    show ?thesis
      using True assms(2) none by (auto simp: arp_lookup_def fun_eq_iff)
  next
    case False
    with Cons have "arp_lookup (arp_cache_insert ip mac es) =
        (if \<exists>e \<in> set es. ae_ip e = 0 \<or> ae_ip e = ip then (arp_lookup es)(ip \<mapsto> mac) else arp_lookup es)"
      by auto
    with False show ?thesis
      by (auto simp: arp_lookup_def fun_eq_iff split: if_splits)
  qed
qed (simp add: arp_lookup_def)

section \<open>The wire format\<close>

definition be32_bytes :: "u32 \<Rightarrow> bytes" where
  "be32_bytes w = rev (st32 w)"

definition arp_wire :: "u8 \<Rightarrow> bytes \<Rightarrow> u32 \<Rightarrow> bytes \<Rightarrow> u32 \<Rightarrow> bytes" where
  "arp_wire op smac sip tmac tip =
     [0, 1, 8, 0, 6, 4, 0, op] @ smac @ be32_bytes sip @ tmac @ be32_bytes tip"

lemma list_6: "length xs = 6 \<Longrightarrow> \<exists>a b c d e f. xs = [a, b, c, d, e, f]"
  by (auto simp: numeral_eq_Suc length_Suc_conv)

lemma bswap32_bytes: "st32 (bswap32 w) = be32_bytes w"
proof -
  have e: "st32 (le32 a b c d) = [a, b, c, d]" for a b c d
  proof -
    have "ucast (drop_bit 24 (le32 a b c d)) = d" "ucast (drop_bit 16 (le32 a b c d)) = c"
      "ucast (drop_bit 8 (le32 a b c d)) = b" "ucast (le32 a b c d) = a"
      unfolding le32_def by (rule bit_word_eqI; auto simp: bit_simps dest: bit_imp_le_length)+
    then show ?thesis by (simp add: st32_def)
  qed
  show ?thesis unfolding bswap32_def e by (simp add: be32_bytes_def st32_def)
qed

lemma le32_be32:
  "le32 (ucast (drop_bit 24 w)) (ucast (drop_bit 16 w)) (ucast (drop_bit 8 w)) (ucast w) = bswap32 w"
  by (simp add: bswap32_def)

text \<open>Decoding a packet on the wire, and the image of the reply.\<close>

lemma arp_cast_wire:
  assumes "length smac = 6" and "length tmac = 6"
  shows "arp_cast (arp_wire op smac sip tmac tip @ pad) = Some
    \<lparr>ap_htype = le16 0 1, ap_ptype = le16 8 0, ap_hlen = 6, ap_plen = 4, ap_opcode = le16 0 op,
     ap_sender_mac = smac, ap_sender_ip = bswap32 sip, ap_target_mac = tmac, ap_target_ip = bswap32 tip\<rparr>"
proof -
  obtain a b c d e f where s: "smac = [a, b, c, d, e, f]" using list_6 [OF assms(1)] by blast
  obtain a' b' c' d' e' f' where t: "tmac = [a', b', c', d', e', f']" using list_6 [OF assms(2)] by blast
  show ?thesis
    by (simp add: arp_cast_def arp_wire_def s t be32_bytes_def st32_def le32_be32)
qed

lemma bswap16_le16: "bswap16 (le16 a b) = le16 b a"
  by (simp only: htons_bswap16 [symmetric] htons_le16)

lemma st16_bswap16: "st16 (bswap16 w) = rev (st16 w)"
proof -
  have "st16 (bswap16 w) = [ucast (drop_bit 8 w), ucast w]" by (simp add: bswap16_def)
  then show ?thesis by (simp add: st16_def)
qed

lemma arp_image_reply:
  "arp_image \<lparr>ap_htype = bswap16 ARP_HTYPE_ETH, ap_ptype = bswap16 ARP_PTYPE_IPV4,
     ap_hlen = 6, ap_plen = 4, ap_opcode = bswap16 ARP_OPCODE_REPLY,
     ap_sender_mac = our_mac, ap_sender_ip = bswap32 ip, ap_target_mac = smac, ap_target_ip = bswap32 sip\<rparr>
   = arp_wire 2 our_mac ip smac sip"
  by (simp add: arp_image_def arp_wire_def bswap32_bytes st16_bswap16) (simp add: st16_def arp_consts)

section \<open>Safety\<close>

text \<open>Console output and the ARP cache are outside what the transmit side and the connections rest on.\<close>

lemma k_puts_fields [simp]:
  "k_heap (k_puts s k) = k_heap k" "tx_queue (k_puts s k) = tx_queue k" "tcbs (k_puts s k) = tcbs k"
  "tcp_tcb_list (k_puts s k) = tcp_tcb_list k" "aether_mac (k_puts s k) = aether_mac k"
  "aether_ip (k_puts s k) = aether_ip k" "arp_cache (k_puts s k) = arp_cache k"
  "global_vnet_dev (k_puts s k) = global_vnet_dev k" "tcp_global_isn (k_puts s k) = tcp_global_isn k"
  "rx_queue (k_puts s k) = rx_queue k" "rx_buffers (k_puts s k) = rx_buffers k"
  "k_stats (k_puts s k) = k_stats k" "k_hw (k_puts s k) = k_hw k"
  by (simp_all add: k_puts_def)

lemma k_put_hex_fields [simp]:
  "k_heap (k_put_hex s k) = k_heap k" "tx_queue (k_put_hex s k) = tx_queue k" "tcbs (k_put_hex s k) = tcbs k"
  "tcp_tcb_list (k_put_hex s k) = tcp_tcb_list k" "aether_mac (k_put_hex s k) = aether_mac k"
  "aether_ip (k_put_hex s k) = aether_ip k" "arp_cache (k_put_hex s k) = arp_cache k"
  "global_vnet_dev (k_put_hex s k) = global_vnet_dev k" "tcp_global_isn (k_put_hex s k) = tcp_global_isn k"
  "rx_queue (k_put_hex s k) = rx_queue k" "rx_buffers (k_put_hex s k) = rx_buffers k"
  "k_stats (k_put_hex s k) = k_stats k" "k_hw (k_put_hex s k) = k_hw k"
  by (simp_all add: k_put_hex_def)

lemma net_inv_cong:
  assumes "k_heap k' = k_heap k" and "tx_queue k' = tx_queue k" and "tcbs k' = tcbs k"
    and "tcp_tcb_list k' = tcp_tcb_list k" and "aether_mac k' = aether_mac k"
    and "global_vnet_dev k' = global_vnet_dev k"
  shows "net_inv k' = net_inv k" "tx_inv k' = tx_inv k" "tx_bufs k' = tx_bufs k" "tx_up k' = tx_up k"
proof -
  show up: "tx_up k' = tx_up k" by (simp add: tx_up_def assms)
  have buf: "tx_buf k' = tx_buf k" by (simp add: tx_buf_def [abs_def] assms)
  then show bufs: "tx_bufs k' = tx_bufs k" by (simp add: tx_bufs_def assms)
  show inv: "tx_inv k' = tx_inv k" by (simp add: tx_inv_def up buf assms)
  show "net_inv k' = net_inv k" by (simp add: net_inv_def inv conns_def bufs assms)
qed

text \<open>The handler's run as a whole: what it learns and what it sends.\<close>

definition arp_printed :: "u32 \<Rightarrow> u32 \<Rightarrow> kstate \<Rightarrow> kstate" where
  "arp_printed sip tip k =
     (let k = k_puts (str ''[ARP] Packet'' @ crlf) k;
          k = k_puts crlf (k_put_hex (ucast sip) (k_puts (str ''Sender IP: '') k))
      in k_puts crlf (k_put_hex (ucast tip) (k_puts (str ''Target IP: '') k)))"

definition arp_learned :: "u32 \<Rightarrow> bytes \<Rightarrow> kstate \<Rightarrow> kstate" where
  "arp_learned sip smac k = k\<lparr>arp_cache := arp_cache_insert sip smac (arp_cache k)\<rparr>"

lemma arp_learned_fields [simp]:
  "k_heap (arp_learned s m k) = k_heap k" "tx_queue (arp_learned s m k) = tx_queue k"
  "tcbs (arp_learned s m k) = tcbs k" "tcp_tcb_list (arp_learned s m k) = tcp_tcb_list k"
  "aether_mac (arp_learned s m k) = aether_mac k" "aether_ip (arp_learned s m k) = aether_ip k"
  "global_vnet_dev (arp_learned s m k) = global_vnet_dev k" "k_uart (arp_learned s m k) = k_uart k"
  "arp_cache (arp_learned s m k) = arp_cache_insert s m (arp_cache k)"
  "rx_queue (arp_learned s m k) = rx_queue k" "rx_buffers (arp_learned s m k) = rx_buffers k"
  "tcp_global_isn (arp_learned s m k) = tcp_global_isn k"
  by (simp_all add: arp_learned_def)

lemma arp_printed_fields [simp]:
  "k_heap (arp_printed s t k) = k_heap k" "tx_queue (arp_printed s t k) = tx_queue k"
  "tcbs (arp_printed s t k) = tcbs k" "tcp_tcb_list (arp_printed s t k) = tcp_tcb_list k"
  "aether_mac (arp_printed s t k) = aether_mac k" "aether_ip (arp_printed s t k) = aether_ip k"
  "global_vnet_dev (arp_printed s t k) = global_vnet_dev k" "arp_cache (arp_printed s t k) = arp_cache k"
  "rx_queue (arp_printed s t k) = rx_queue k" "rx_buffers (arp_printed s t k) = rx_buffers k"
  "tcp_global_isn (arp_printed s t k) = tcp_global_isn k"
  by (simp_all add: arp_printed_def Let_def)

lemma arp_handle_cases:
  assumes "length data \<ge> 28" and "length (aether_mac k) = 6"
  obtains (ignored) k1 where "arp_handle data n k = Some k1" "k1 = k \<or> (\<exists>s t. k1 = arp_printed s t k)"
  | (learned) s t m where "length m = 6" "arp_handle data n k = Some (arp_learned s m (arp_printed s t k))"
  | (answered) s m where "length m = 6"
      "arp_handle data n k = ethernet_send m ETH_TYPE_ARP (arp_wire 2 (aether_mac k) (aether_ip k) m s) 28
         (k_puts (str ''[ARP] Reply triggered'' @ crlf) (arp_learned s m (arp_printed s (aether_ip k) k)))"
proof -
  obtain arp where arp: "arp_cast data = Some arp" "length (ap_sender_mac arp) = 6"
    using assms(1) by (simp add: arp_cast_def)
  let ?s = "bswap32 (ap_sender_ip arp)" and ?t = "bswap32 (ap_target_ip arp)"
  have mac: "rd_bytes (aether_mac k) 6 = Some (aether_mac k)" using assms(2) by (simp add: rd_bytes_def)
  let ?kr = "k_puts (str ''[ARP] Reply triggered'' @ crlf)
      (arp_learned ?s (ap_sender_mac arp) (arp_printed ?s ?t k))"
  have img: "arp_image \<lparr>ap_htype = bswap16 ARP_HTYPE_ETH, ap_ptype = bswap16 ARP_PTYPE_IPV4,
      ap_hlen = 6, ap_plen = 4, ap_opcode = bswap16 ARP_OPCODE_REPLY, ap_sender_mac = aether_mac k,
      ap_sender_ip = bswap32 (aether_ip k), ap_target_mac = ap_sender_mac arp,
      ap_target_ip = ap_sender_ip arp\<rparr>
    = arp_wire 2 (aether_mac k) (aether_ip k) (ap_sender_mac arp) ?s"
    using arp_image_reply [of "aether_mac k" "aether_ip k" "ap_sender_mac arp" ?s] by simp
  have eq: "arp_handle data n k =
      (if n < ARP_PACKET_SIZE then Some k
       else if bswap16 (ap_htype arp) \<noteq> ARP_HTYPE_ETH \<or> bswap16 (ap_ptype arp) \<noteq> ARP_PTYPE_IPV4
       then Some (arp_printed ?s ?t k)
       else if bswap16 (ap_opcode arp) \<noteq> ARP_OPCODE_REQUEST \<or> ?t \<noteq> aether_ip k
       then Some (arp_learned ?s (ap_sender_mac arp) (arp_printed ?s ?t k))
       else ethernet_send (ap_sender_mac arp) ETH_TYPE_ARP
         (arp_wire 2 (aether_mac k) (aether_ip k) (ap_sender_mac arp) ?s) ARP_PACKET_SIZE ?kr)"
    using mac unfolding arp_handle_def arp(1)
    by (simp add: arp_printed_def arp_learned_def img Let_def)
  show thesis
  proof (cases "n < ARP_PACKET_SIZE")
    case True
    then show thesis using ignored [of k] by (simp add: eq)
  next
    case big: False
    show thesis
    proof (cases "bswap16 (ap_htype arp) \<noteq> ARP_HTYPE_ETH \<or> bswap16 (ap_ptype arp) \<noteq> ARP_PTYPE_IPV4")
      case True
      with big have "arp_handle data n k = Some (arp_printed ?s ?t k)" by (simp add: eq)
      then show thesis by (rule ignored) blast
    next
      case types: False
      show thesis
      proof (cases "bswap16 (ap_opcode arp) \<noteq> ARP_OPCODE_REQUEST \<or> ?t \<noteq> aether_ip k")
        case True
        with big types have
          "arp_handle data n k = Some (arp_learned ?s (ap_sender_mac arp) (arp_printed ?s ?t k))"
          by (simp add: eq)
        then show thesis by (rule learned [OF arp(2)])
      next
        case False
        with big types have "arp_handle data n k = ethernet_send (ap_sender_mac arp) ETH_TYPE_ARP
            (arp_wire 2 (aether_mac k) (aether_ip k) (ap_sender_mac arp) ?s) 28
            (k_puts (str ''[ARP] Reply triggered'' @ crlf)
              (arp_learned ?s (ap_sender_mac arp) (arp_printed ?s (aether_ip k) k)))"
          by (simp add: eq ARP_PACKET_SIZE_def)
        then show thesis by (rule answered [OF arp(2)])
      qed
    qed
  qed
qed

lemma length_arp_wire: "length (arp_wire op smac sip tmac tip) = 16 + length smac + length tmac"
  by (simp add: arp_wire_def be32_bytes_def)

section \<open>Properties\<close>

lemma replicate_4: "replicate 4 x = [x, x, x, x]"
  by (simp add: numeral_eq_Suc)

lemma boot_arp:
  "arp_cache (boot_state r isn) = (let e = \<lparr>ae_ip = 0, ae_mac = replicate 6 0\<rparr> in [e, e, e, e])"
  "aether_ip (boot_state r isn) = 0x0A00020F" "global_vnet_dev (boot_state r isn) = None"
  "aether_mac (boot_state r isn) = [0x52, 0x54, 0x00, 0x12, 0x34, 0x56]"
  by (simp_all add: boot_state_def replicate_4 AETHER_IP_ADDR_def AETHER_MAC_ADDR_def Let_def)

text \<open>
  C32: the ARP cache behaves as a map that only learns: inserting an address that is present or
  for which an entry is free makes exactly that address resolve to the new hardware address;
  with all four entries taken by other addresses nothing changes. The table stays well formed
  and keeps its size.
\<close>

theorem arp_cache_insert_is_map_update:
  assumes "cache_ok c" and "ip \<noteq> 0"
  shows "arp_lookup (arp_cache_insert ip mac c) =
      (if \<exists>e \<in> set c. ae_ip e = 0 \<or> ae_ip e = ip then (arp_lookup c)(ip \<mapsto> mac) else arp_lookup c)
    \<and> cache_ok (arp_cache_insert ip mac c) \<and> length (arp_cache_insert ip mac c) = length c"
  using arp_lookup_insert [OF assms] arp_insert_ok [OF assms(1)] by simp

theorem arp_cache_insert_is_map_update_witness:
  "arp_lookup (arp_cache_insert 0x0A000202 [1, 2, 3, 4, 5, 6] (arp_cache (boot_state (\<lambda>_. 0) 0))) 0x0A000202
     = Some [1, 2, 3, 4, 5, 6]"
proof -
  have "cache_ok (arp_cache (boot_state (\<lambda>_. 0) 0))" "\<exists>e \<in> set (arp_cache (boot_state (\<lambda>_. 0) 0)). ae_ip e = 0"
    by (simp_all add: boot_arp Let_def)
  then show ?thesis
    using arp_cache_insert_is_map_update [of "arp_cache (boot_state (\<lambda>_. 0) 0)" "0x0A000202" "[1, 2, 3, 4, 5, 6]"]
    by auto
qed



text \<open>
  Whatever bytes arrive, the handler of a packet whose 28 bytes are in memory returns, keeps
  the kernel's network state sound and leaves connections and other blocks alone; only the ARP
  cache, the console and the transmit side can change.
\<close>

lemma arp_handle_safe:
  assumes "net_inv k" and "28 \<le> length data"
  shows "\<exists>k'. arp_handle data n k = Some k' \<and> net_inv k' \<and> heap_ext (k_heap k) (k_heap k')
    \<and> tcbs k' = tcbs k \<and> tcp_tcb_list k' = tcp_tcb_list k \<and> rx_queue k' = rx_queue k
    \<and> rx_buffers k' = rx_buffers k \<and> global_vnet_dev k' = global_vnet_dev k
    \<and> aether_ip k' = aether_ip k \<and> aether_mac k' = aether_mac k \<and> tcp_global_isn k' = tcp_global_isn k
    \<and> (cache_ok (arp_cache k) \<longrightarrow> cache_ok (arp_cache k'))"
proof -
  have mac: "length (aether_mac k) = 6" using assms(1) by (simp add: net_inv_def tx_inv_def)
  from assms(2) mac show ?thesis
  proof (cases rule: arp_handle_cases [where n = n])
    case (ignored k1)
    then show ?thesis
      using assms(1) net_inv_cong(1) [of k1 k] by auto
  next
    case (learned s t m)
    let ?k = "arp_learned s m (arp_printed s t k)"
    have "net_inv ?k" using assms(1) net_inv_cong(1) [of ?k k] by simp
    with learned show ?thesis by (simp add: arp_insert_ok)
  next
    case (answered s m)
    let ?k = "k_puts (str ''[ARP] Reply triggered'' @ crlf) (arp_learned s m (arp_printed s (aether_ip k) k))"
    have inv: "net_inv ?k" using assms(1) net_inv_cong(1) [of ?k k] by simp
    have len: "length (arp_wire 2 (aether_mac k) (aether_ip k) m s) = 28"
      using mac answered(1) by (simp add: length_arp_wire)
    from eth.send_net_inv [OF inv, of "(m, ETH_TYPE_ARP, arp_wire 2 (aether_mac k) (aether_ip k) m s, 28)"]
    obtain k' where "ethernet_send m ETH_TYPE_ARP (arp_wire 2 (aether_mac k) (aether_ip k) m s) 28 ?k = Some k'"
      "sent_ok ?k k'" "net_inv k'" using answered(1) len by auto
    then show ?thesis using answered(2)
      by (intro exI [of _ k']) (simp add: sent_ok_def same_conns_def arp_insert_ok)
  qed
qed

end
