(* ===== verification/Ipv4.thy ===== *)
theory Ipv4
  imports Arp
begin

text \<open>
  The IPv4 layer's header and its egress (src/drivers/ethernet/ipv4.c). The packet is built in a
  heap buffer, handed to the Ethernet layer, which copies it, and freed. The receive handler is in
  the receive theory, above the TCP input it calls.
\<close>

section \<open>The header\<close>

record ipv4_header =
  ip_version_ihl :: u8
  ip_tos :: u8
  ip_total_len :: u16
  ip_id :: u16
  ip_flags_fragment :: u16
  ip_ttl :: u8
  ip_protocol :: u8
  ip_checksum :: u16
  ip_src_ip :: u32
  ip_dest_ip :: u32

definition IPV4_HEADER_SIZE :: u32 where "IPV4_HEADER_SIZE = 20"

definition ipv4_cast :: "bytes \<Rightarrow> ipv4_header option" where
  "ipv4_cast d = (if length d < 20 then None else Some
     \<lparr>ip_version_ihl = d ! 0, ip_tos = d ! 1, ip_total_len = le16 (d ! 2) (d ! 3),
      ip_id = le16 (d ! 4) (d ! 5), ip_flags_fragment = le16 (d ! 6) (d ! 7), ip_ttl = d ! 8,
      ip_protocol = d ! 9, ip_checksum = le16 (d ! 10) (d ! 11),
      ip_src_ip = le32 (d ! 12) (d ! 13) (d ! 14) (d ! 15),
      ip_dest_ip = le32 (d ! 16) (d ! 17) (d ! 18) (d ! 19)\<rparr>)"

definition ipv4_image :: "ipv4_header \<Rightarrow> bytes" where
  "ipv4_image h = [ip_version_ihl h, ip_tos h] @ st16 (ip_total_len h) @ st16 (ip_id h)
     @ st16 (ip_flags_fragment h) @ [ip_ttl h, ip_protocol h] @ st16 (ip_checksum h)
     @ st32 (ip_src_ip h) @ st32 (ip_dest_ip h)"

lemma length_ipv4_image [simp]: "length (ipv4_image h) = 20"
  by (simp add: ipv4_image_def)

section \<open>Sending a packet\<close>

definition GATEWAY_MAC :: bytes where "GATEWAY_MAC = [0x52, 0x54, 0x00, 0x12, 0x34, 0x56]"

definition ipv4_send :: "u32 \<Rightarrow> u8 \<Rightarrow> bytes \<Rightarrow> u32 \<Rightarrow> kstate \<Rightarrow> kstate option" where
  "ipv4_send dst_ip protocol payload payload_len k =
     (if global_vnet_dev k = None then Some k
      else
        let total_len = IPV4_HEADER_SIZE + payload_len in
        do {
          (pkt, k) \<leftarrow> k_kmalloc (ucast total_len) k;
          if pkt = 0 then Some k
          else do {
            k \<leftarrow> k_store pkt 0 (replicate (unat total_len) 0) k;
            k \<leftarrow> k_store pkt 0 (ipv4_image \<lparr>ip_version_ihl = 0x45, ip_tos = 0,
                ip_total_len = htons (ucast total_len), ip_id = htons 1, ip_flags_fragment = htons 0,
                ip_ttl = 64, ip_protocol = protocol, ip_checksum = 0,
                ip_src_ip = htonl (aether_ip k), ip_dest_ip = htonl dst_ip\<rparr>) k;
            c \<leftarrow> ipv4_checksum (ram_read (ram (k_heap k)) pkt 20) 20;
            k \<leftarrow> k_store pkt 10 (st16 c) k;
            body \<leftarrow> rd_bytes payload (unat payload_len);
            k \<leftarrow> k_store pkt 20 body k;
            k \<leftarrow> ethernet_send GATEWAY_MAC ETH_TYPE_IPV4
                  (ram_read (ram (k_heap k)) pkt (unat total_len)) total_len k;
            k_kfree pkt k } })"

section \<open>What is sent\<close>

text \<open>The header of an outgoing packet, with checksum field \<open>c\<close> as the code stores it.\<close>

definition ipv4_out_header :: "u32 \<Rightarrow> u32 \<Rightarrow> u8 \<Rightarrow> nat \<Rightarrow> u16 \<Rightarrow> ipv4_header" where
  "ipv4_out_header src dst proto n c =
     \<lparr>ip_version_ihl = 0x45, ip_tos = 0, ip_total_len = htons (of_nat (20 + n)), ip_id = htons 1,
      ip_flags_fragment = htons 0, ip_ttl = 64, ip_protocol = proto, ip_checksum = c,
      ip_src_ip = htonl src, ip_dest_ip = htonl dst\<rparr>"

definition ipv4_out_checksum :: "u32 \<Rightarrow> u32 \<Rightarrow> u8 \<Rightarrow> nat \<Rightarrow> u16" where
  "ipv4_out_checksum src dst proto n = the (ipv4_checksum (ipv4_image (ipv4_out_header src dst proto n 0)) 20)"

definition ipv4_packet :: "u32 \<Rightarrow> u32 \<Rightarrow> u8 \<Rightarrow> bytes \<Rightarrow> bytes" where
  "ipv4_packet src dst proto body =
     ipv4_image (ipv4_out_header src dst proto (length body) (ipv4_out_checksum src dst proto (length body)))
     @ body"

lemma length_ipv4_packet [simp]: "length (ipv4_packet src dst proto body) = 20 + length body"
  by (simp add: ipv4_packet_def)

lemma ipv4_checksum_20: "length d = 20 \<Longrightarrow> \<exists>c. ipv4_checksum d 20 = Some c"
  using ipv4_checksum_total [of 20 d] by auto

lemma ipv4_out_checksum_Some:
  "ipv4_checksum (ipv4_image (ipv4_out_header src dst proto n 0)) 20 = Some (ipv4_out_checksum src dst proto n)"
  using ipv4_checksum_20 [of "ipv4_image (ipv4_out_header src dst proto n 0)"]
  by (auto simp: ipv4_out_checksum_def)

lemma ipv4_image_checksum:
  "take 10 (ipv4_image (h\<lparr>ip_checksum := 0\<rparr>)) @ st16 c @ drop 12 (ipv4_image (h\<lparr>ip_checksum := 0\<rparr>))
   = ipv4_image (h\<lparr>ip_checksum := c\<rparr>)"
  by (simp add: ipv4_image_def st16_def st32_def)

text \<open>The four stores that build the packet in a fresh block.\<close>

lemma ipv4_fill:
  assumes "heap_inv (k_heap k)" and "live (k_heap k) p = Some m" and "20 + length body \<le> m"
    and src: "src = aether_ip k" and n: "n = length body"
  shows "\<exists>h1 h2 h3 h.
      k_store p 0 (replicate (20 + n) 0) k = Some (k\<lparr>k_heap := h1\<rparr>)
    \<and> k_store p 0 (ipv4_image (ipv4_out_header src dst proto n 0)) (k\<lparr>k_heap := h1\<rparr>) = Some (k\<lparr>k_heap := h2\<rparr>)
    \<and> ram_read (ram h2) p 20 = ipv4_image (ipv4_out_header src dst proto n 0)
    \<and> k_store p 10 (st16 (ipv4_out_checksum src dst proto n)) (k\<lparr>k_heap := h2\<rparr>) = Some (k\<lparr>k_heap := h3\<rparr>)
    \<and> k_store p 20 body (k\<lparr>k_heap := h3\<rparr>) = Some (k\<lparr>k_heap := h\<rparr>)
    \<and> only_block p (k_heap k) h \<and> ram_read (ram h) p (20 + n) = ipv4_packet src dst proto body"
proof -
  let ?img = "ipv4_image (ipv4_out_header src dst proto n 0)" and ?c = "ipv4_out_checksum src dst proto n"
  have z: "ram_read (ram (k_heap k)) p 0 = []" by (simp add: ram_read_def)
  from k_store_append [OF assms(1,2) _ z, of "replicate (20 + n) 0"] assms(3) n obtain h1 where
    s1: "k_store p 0 (replicate (20 + n) 0) k = Some (k\<lparr>k_heap := h1\<rparr>)" "only_block p (k_heap k) h1"
    "ram_read (ram h1) p (20 + n) = replicate (20 + n) 0" by auto
  have b1: "heap_inv h1" "live h1 p = Some m" using s1(2) assms(2) by (simp_all add: only_block_def)
  from k_store_splice [of "k\<lparr>k_heap := h1\<rparr>" p m 0 ?img "20 + n" "replicate (20 + n) 0"] b1 s1(3) assms(3) n
  obtain h2 where s2: "k_store p 0 ?img (k\<lparr>k_heap := h1\<rparr>) = Some (k\<lparr>k_heap := h2\<rparr>)" "only_block p h1 h2"
    "ram_read (ram h2) p (20 + n) = ?img @ replicate n 0" by auto
  have b2: "heap_inv h2" "live h2 p = Some m" using s2(2) b1 by (simp_all add: only_block_def)
  have r2: "ram_read (ram h2) p 20 = ?img"
    using s2(3) by (simp add: ram_read_add [of _ _ 20 n])
  from k_store_splice [of "k\<lparr>k_heap := h2\<rparr>" p m 10 "st16 ?c" 20 ?img] b2 r2 assms(3)
  obtain h3 where s3: "k_store p 10 (st16 ?c) (k\<lparr>k_heap := h2\<rparr>) = Some (k\<lparr>k_heap := h3\<rparr>)" "only_block p h2 h3"
    "ram_read (ram h3) p 20 = take 10 ?img @ st16 ?c @ drop 12 ?img" by auto
  have b3: "heap_inv h3" "live h3 p = Some m" using s3(2) b2 by (simp_all add: only_block_def)
  have r3: "ram_read (ram h3) p 20 = ipv4_image (ipv4_out_header src dst proto n ?c)"
    using s3(3) ipv4_image_checksum [of "ipv4_out_header src dst proto n 0" ?c]
    by (simp add: ipv4_out_header_def)
  from k_store_append [of "k\<lparr>k_heap := h3\<rparr>" p m 20 body] b3 r3 assms(3)
  obtain h4 where s4: "k_store p 20 body (k\<lparr>k_heap := h3\<rparr>) = Some (k\<lparr>k_heap := h4\<rparr>)" "only_block p h3 h4"
    "ram_read (ram h4) p (20 + length body) = ipv4_image (ipv4_out_header src dst proto n ?c) @ body" by auto
  have "only_block p (k_heap k) h4"
    using s1(2) s2(2) s3(2) s4(2) only_block_trans by blast
  moreover have "ram_read (ram h4) p (20 + n) = ipv4_packet src dst proto body"
    using s4(3) by (simp add: ipv4_packet_def n)
  ultimately show ?thesis using s1(1) s2(1) r2 s3(1) s4(1) by blast
qed

lemma ipv4_send_cases:
  assumes inv: "tx_inv k" and len: "unat n \<le> length payload" and small: "unat n \<le> 2 ^ 30"
  obtains
    (down) "global_vnet_dev k = None" "ipv4_send dst proto payload n k = Some k"
  | (nomem) u h where "heap_inv h" "heap_ext (k_heap k) h" "live h = live (k_heap k)"
      "ipv4_send dst proto payload n k = Some (k\<lparr>k_uart := u, k_heap := h\<rparr>)"
  | (built) p m u h where "p \<noteq> 0" "live (k_heap k) p = None" "live h = (live (k_heap k))(p \<mapsto> m)"
      "heap_inv h" "heap_ext (k_heap k) h"
      "ipv4_send dst proto payload n k =
        do { k \<leftarrow> ethernet_send GATEWAY_MAC ETH_TYPE_IPV4
               (ipv4_packet (aether_ip k) dst proto (take (unat n) payload)) (20 + n)
               (k\<lparr>k_uart := u, k_heap := h\<rparr>);
             k_kfree p k }"
proof (cases "global_vnet_dev k")
  case None
  then show thesis by (intro down) (simp_all add: ipv4_send_def)
next
  case (Some vdev)
  have h0: "heap_inv (k_heap k)" using inv by (simp add: tx_inv_def)
  have tot: "unat (20 + n) = 20 + unat n" using small by (simp add: unat_word_ariths)
  have tot16: "(ucast (20 + n) :: u16) = of_nat (20 + unat n)"
    by (simp only: word_unat_eq_iff unat_ucast tot unat_of_nat)
  have big: "unat (ucast (20 + n) :: u64) \<le> 2 ^ 32" using tot small by simp
  from h0 big show thesis
  proof (cases rule: k_kmalloc_cases)
    case (null u h)
    then show thesis
      using Some by (intro nomem [of h u]) (simp_all add: ipv4_send_def IPV4_HEADER_SIZE_def)
  next
    case (block p m u h)
    let ?k = "k\<lparr>k_uart := u, k_heap := h\<rparr>" and ?body = "take (unat n) payload"
    have hp: "heap_inv (k_heap ?k)" "live (k_heap ?k) p = Some m" "20 + length ?body \<le> m"
      "aether_ip k = aether_ip ?k" "unat n = length ?body"
      using block tot len by simp_all
    from ipv4_fill [OF hp, of dst proto] obtain h1 h2 h3 h' where
      fill: "k_store p 0 (replicate (20 + unat n) 0) ?k = Some (?k\<lparr>k_heap := h1\<rparr>)"
        "k_store p 0 (ipv4_image (ipv4_out_header (aether_ip k) dst proto (unat n) 0)) (?k\<lparr>k_heap := h1\<rparr>)
           = Some (?k\<lparr>k_heap := h2\<rparr>)"
        "ram_read (ram h2) p 20 = ipv4_image (ipv4_out_header (aether_ip k) dst proto (unat n) 0)"
        "k_store p 10 (st16 (ipv4_out_checksum (aether_ip k) dst proto (unat n))) (?k\<lparr>k_heap := h2\<rparr>)
           = Some (?k\<lparr>k_heap := h3\<rparr>)"
        "k_store p 20 ?body (?k\<lparr>k_heap := h3\<rparr>) = Some (?k\<lparr>k_heap := h'\<rparr>)"
      and ob: "only_block p h h'"
      and rd: "ram_read (ram h') p (20 + unat n) = ipv4_packet (aether_ip k) dst proto ?body"
      by auto
    have hdr: "ipv4_out_header (aether_ip k) dst proto (unat n) 0 =
        \<lparr>ip_version_ihl = 0x45, ip_tos = 0, ip_total_len = htons (ucast (20 + n)), ip_id = htons 1,
         ip_flags_fragment = htons 0, ip_ttl = 64, ip_protocol = proto, ip_checksum = 0,
         ip_src_ip = htonl (aether_ip k), ip_dest_ip = htonl dst\<rparr>"
      unfolding ipv4_out_header_def tot16 by simp
    have "ipv4_send dst proto payload n k =
        do { k \<leftarrow> ethernet_send GATEWAY_MAC ETH_TYPE_IPV4 (ipv4_packet (aether_ip k) dst proto ?body) (20 + n)
               (k\<lparr>k_uart := u, k_heap := h'\<rparr>);
             k_kfree p k }"
      using Some block(1,4) fill [unfolded hdr] rd len
        ipv4_out_checksum_Some [of "aether_ip k" dst proto "unat n", unfolded hdr]
      by (simp add: ipv4_send_def IPV4_HEADER_SIZE_def tot rd_bytes_take Let_def)
    moreover have "live h' = (live (k_heap k))(p \<mapsto> m)" "heap_inv h'"
      using ob block(7) by (simp_all add: only_block_def)
    moreover have "heap_ext (k_heap k) h'" using heap_ext_only_block [OF block(3,5) ob] .
    ultimately show thesis using block(4,5)
      by (intro built [where p = p and h = h' and m = m and u = u]) simp_all
  qed
qed

text \<open>
  The packet's own buffer is gone again after the send: the layer below copied it. So sending a
  packet is a sender in the sense of the interface.
\<close>

lemma ipv4_send_safe:
  assumes inv: "tx_inv k" and len: "unat n \<le> length payload" and small: "unat n \<le> 2 ^ 30"
  shows "\<exists>k'. ipv4_send dst proto payload n k = Some k' \<and> sent_ok k k'"
  using assms
proof (cases rule: ipv4_send_cases [where dst = dst and proto = proto])
  case down
  then show ?thesis using sent_ok_refl [OF inv] by simp
next
  case (nomem u h)
  then have "sent_ok k (k\<lparr>k_uart := u, k_heap := h\<rparr>)"
    using inv by (auto simp: sent_ok_def tx_inv_def tx_up_def tx_bufs_def tx_buf_def [abs_def] same_conns_def)
  with nomem show ?thesis by blast
next
  case (built p m u h)
  let ?k = "k\<lparr>k_uart := u, k_heap := h\<rparr>"
  let ?pkt = "ipv4_packet (aether_ip k) dst proto (take (unat n) payload)"
  have buf: "tx_buf ?k = tx_buf k" by (simp add: tx_buf_def [abs_def])
  have inv': "tx_inv ?k"
    using inv built(2-4) by (auto simp: tx_inv_def tx_up_def buf)
  have tot: "unat (20 + n) = 20 + unat n" using small by (simp add: unat_word_ariths)
  have "6 \<le> length GATEWAY_MAC" by (simp add: GATEWAY_MAC_def)
  moreover have "unat (20 + n) \<le> length ?pkt" "unat (20 + n) \<le> 2 ^ 31" using tot len small by simp_all
  ultimately obtain k1 where k1: "ethernet_send GATEWAY_MAC ETH_TYPE_IPV4 ?pkt (20 + n) ?k = Some k1"
    "sent_ok ?k k1"
    using ethernet_send_safe [OF inv'] by blast
  from free_own_block [OF inv built(2,3,5) k1(2)] obtain h' where
    "k_kfree p k1 = Some (k1\<lparr>k_heap := h'\<rparr>)" "sent_ok k (k1\<lparr>k_heap := h'\<rparr>)" by blast
  then show ?thesis using built(6) k1(1) by simp
qed

interpretation ipv4: sender
  "\<lambda>(dst, proto, payload, n). ipv4_send dst proto payload n"
  "\<lambda>(dst, proto, payload, n). unat n \<le> length payload \<and> unat n \<le> 2 ^ 30"
  by unfold_locales (auto intro: ipv4_send_safe)

section \<open>Properties\<close>

lemma ipv4_checksum_prefix: "length d = 20 \<Longrightarrow> ipv4_checksum (d @ e) 20 = ipv4_checksum d 20"
proof -
  assume d: "length d = 20"
  obtain c where c: "ipv4_checksum (d @ e) 20 = Some c" "unat c = 65535 - oc (word_total be16 (take 20 (d @ e)))"
    using ipv4_checksum_total [of 20 "d @ e"] d by auto
  obtain c' where c': "ipv4_checksum d 20 = Some c'" "unat c' = 65535 - oc (word_total be16 (take 20 d))"
    using ipv4_checksum_total [of 20 d] d by auto
  have "take 20 (d @ e) = take 20 d" using d by simp
  then have "unat c = unat c'" by (simp only: c(2) c'(2))
  then have "c = c'" by (simp only: word_unat_eq_iff)
  then show ?thesis using c(1) c'(1) by simp
qed

text \<open>
  What the receive handler checks: it compares the checksum it computes, a big-endian sum, with
  the checksum field as the machine loads it. RFC 791 asks for the checksum in network order.
\<close>

definition ipv4_header_accepted :: "bytes \<Rightarrow> nat \<Rightarrow> bool" where
  "ipv4_header_accepted d n \<longleftrightarrow>
     ipv4_checksum (d[10 := 0, 11 := 0]) n = Some (le16 (d ! 10) (d ! 11))"

text \<open>
  The send allocates a packet and gives it back: it returns, leaves every block and every
  connection alone, and when there is memory it is the send of one Ethernet frame that carries,
  to the fixed gateway address, a 20-byte header and the payload. The header says version 4, five
  words, the total length, time to live 64, the protocol and both addresses in network order,
  and the checksum stored as the code stores it, which its own receive check accepts.
\<close>

lemma ipv4_send_sends_packet:
  assumes "tx_inv k" and "unat n \<le> length payload" and "unat n \<le> 2 ^ 15"
    and "global_vnet_dev k \<noteq> None"
  shows "\<exists>k'. ipv4_send dst proto payload n k = Some k' \<and> sent_ok k k'
    \<and> (live (k_heap k') = live (k_heap k) \<and> tx_queue k' = tx_queue k
       \<or> (\<exists>p m k1 k2. live (k_heap k1) = (live (k_heap k))(p \<mapsto> m)
            \<and> ethernet_send GATEWAY_MAC ETH_TYPE_IPV4
                (ipv4_packet (aether_ip k) dst proto (take (unat n) payload)) (20 + n) k1 = Some k2
            \<and> k_kfree p k2 = Some k'))
    \<and> (let pkt = ipv4_packet (aether_ip k) dst proto (take (unat n) payload) in
         take 10 pkt = [0x45, 0] @ rev (st16 (20 + ucast n)) @ [0, 1, 0, 0, 64, proto]
         \<and> drop 12 pkt = be32_bytes (aether_ip k) @ be32_bytes dst @ take (unat n) payload
         \<and> ipv4_header_accepted pkt 20)"
proof -
  have small: "unat n \<le> 2 ^ 30" using assms(3) by simp
  from ipv4_send_safe [OF assms(1,2) small, of dst proto] obtain k' where
    k': "ipv4_send dst proto payload n k = Some k'" "sent_ok k k'" by blast
  have out: "live (k_heap k') = live (k_heap k) \<and> tx_queue k' = tx_queue k
       \<or> (\<exists>p m k1 k2. live (k_heap k1) = (live (k_heap k))(p \<mapsto> m)
            \<and> ethernet_send GATEWAY_MAC ETH_TYPE_IPV4
                (ipv4_packet (aether_ip k) dst proto (take (unat n) payload)) (20 + n) k1 = Some k2
            \<and> k_kfree p k2 = Some k')"
    using assms(1,2) small
  proof (cases rule: ipv4_send_cases [where dst = dst and proto = proto])
    case down
    with assms(4) show ?thesis by simp
  next
    case (nomem u h)
    with k' show ?thesis by auto
  next
    case (built p m u h)
    then obtain k2 where "ethernet_send GATEWAY_MAC ETH_TYPE_IPV4
        (ipv4_packet (aether_ip k) dst proto (take (unat n) payload)) (20 + n)
        (k\<lparr>k_uart := u, k_heap := h\<rparr>) = Some k2" "k_kfree p k2 = Some k'"
      using k'(1) by (auto split: Option.bind_splits)
    with built(3) show ?thesis
      by (intro disjI2 exI [of _ p] exI [of _ m] exI [of _ "k\<lparr>k_uart := u, k_heap := h\<rparr>"] exI [of _ k2]) simp
  qed
  let ?body = "take (unat n) payload" and ?src = "aether_ip k"
  let ?pkt = "ipv4_packet ?src dst proto ?body"
  have len: "length ?body = unat n" using assms(2) by simp
  have "(of_nat (20 + unat n) :: u16) = 20 + ucast n"
    using assms(3) by (simp add: word_unat_eq_iff unat_word_ariths unat_of_nat unat_ucast)
  then have hd: "take 10 ?pkt = [0x45, 0] @ rev (st16 (20 + ucast n)) @ [0, 1, 0, 0, 64, proto]"
    unfolding ipv4_packet_def len
    by (simp add: ipv4_image_def ipv4_out_header_def htons_bswap16 st16_bswap16) (simp add: st16_def)
  have tl: "drop 12 ?pkt = be32_bytes ?src @ be32_bytes dst @ ?body"
    by (simp add: ipv4_packet_def ipv4_image_def ipv4_out_header_def htonl_bswap32 bswap32_bytes)
  have acc: "ipv4_header_accepted ?pkt 20"
  proof -
    let ?c = "ipv4_out_checksum ?src dst proto (unat n)"
    have f: "?pkt ! 10 = ucast ?c" "?pkt ! 11 = ucast (drop_bit 8 ?c)"
      unfolding ipv4_packet_def len
      by (simp_all add: ipv4_image_def ipv4_out_header_def st16_def)
    have "?pkt[10 := 0, 11 := 0] = ipv4_image (ipv4_out_header ?src dst proto (unat n) 0) @ ?body"
      unfolding ipv4_packet_def len by (simp add: ipv4_image_def ipv4_out_header_def st16_def)
    then have "ipv4_checksum (?pkt[10 := 0, 11 := 0]) 20 = Some ?c"
      by (simp add: ipv4_checksum_prefix ipv4_out_checksum_Some)
    then show ?thesis by (simp add: ipv4_header_accepted_def f)
  qed
  show ?thesis using k' out hd tl acc by (simp add: Let_def)
qed



end
