(* ===== verification/Tcp.thy ===== *)
theory Tcp
  imports Ipv4
begin

text \<open>
  The TCP core: the list of connection blocks (src/drivers/ethernet/tcp/tcp.c) and the segment
  builder with its helpers (tcp_output.c). Input processing is in its own theory, above the
  HTTP layer it calls.
\<close>

section \<open>Segments\<close>

record tcp_hdr =
  th_src_port :: u16
  th_dst_port :: u16
  th_seq :: u32
  th_ack :: u32
  th_offset_reserved :: u8
  th_flags :: u8
  th_window :: u16
  th_checksum :: u16
  th_urgent_ptr :: u16

definition TCP_HDR_SIZE :: u16 where "TCP_HDR_SIZE = 20"

definition tcp_cast :: "bytes \<Rightarrow> tcp_hdr option" where
  "tcp_cast d = (if length d < 20 then None else Some
     \<lparr>th_src_port = le16 (d ! 0) (d ! 1), th_dst_port = le16 (d ! 2) (d ! 3),
      th_seq = le32 (d ! 4) (d ! 5) (d ! 6) (d ! 7), th_ack = le32 (d ! 8) (d ! 9) (d ! 10) (d ! 11),
      th_offset_reserved = d ! 12, th_flags = d ! 13, th_window = le16 (d ! 14) (d ! 15),
      th_checksum = le16 (d ! 16) (d ! 17), th_urgent_ptr = le16 (d ! 18) (d ! 19)\<rparr>)"

definition tcp_image :: "tcp_hdr \<Rightarrow> bytes" where
  "tcp_image h = st16 (th_src_port h) @ st16 (th_dst_port h) @ st32 (th_seq h) @ st32 (th_ack h)
     @ [th_offset_reserved h, th_flags h] @ st16 (th_window h) @ st16 (th_checksum h)
     @ st16 (th_urgent_ptr h)"

lemma length_tcp_image [simp]: "length (tcp_image h) = 20"
  by (simp add: tcp_image_def)

section \<open>The connection list\<close>

definition tcp_allocate_tcb :: "kstate \<Rightarrow> (addr \<times> kstate) option" where
  "tcp_allocate_tcb k =
     do { (p, k) \<leftarrow> k_kmalloc TCB_SIZE k;
          if p = 0 then Some (0, k_debugps (str ''[TCP] FATAL: TCB allocation failed'' @ lf) k)
          else Some (p, k\<lparr>tcbs := (tcbs k)(p \<mapsto>
              \<lparr>local_ip = aether_ip k, remote_ip = 0, local_port = 0, remote_port = 0,
               tcb_state = TCP_STATE_CLOSED, snd_una = 0, snd_nxt = 0, rcv_nxt = 0,
               rcv_wnd = TCP_DEFAULT_WINDOW, snd_wnd = TCP_DEFAULT_WINDOW, tcb_next = tcp_tcb_list k\<rparr>),
              tcp_tcb_list := p\<rparr>) }"

partial_function (option) remove_loop :: "addr \<Rightarrow> addr \<Rightarrow> addr \<Rightarrow> kstate \<Rightarrow> kstate option" where
  "remove_loop tcb prev cur k =
     (if cur = 0 then Some k
      else do {
        c \<leftarrow> tcbs k cur;
        if cur = tcb
        then do {
          k \<leftarrow> (if prev \<noteq> 0 then k_set_tcb prev (\<lambda>p. p\<lparr>tcb_next := tcb_next c\<rparr>) k
                else Some (k\<lparr>tcp_tcb_list := tcb_next c\<rparr>));
          k \<leftarrow> k_kfree cur k;
          Some (k_debugps (str ''[TCP] TCB purged from memory'' @ lf) k) }
        else remove_loop tcb cur (tcb_next c) k })"

definition tcp_remove_tcb :: "addr \<Rightarrow> kstate \<Rightarrow> kstate option" where
  "tcp_remove_tcb tcb k = (if tcb = 0 then Some k else remove_loop tcb 0 (tcp_tcb_list k) k)"

definition tcb_matches :: "u32 \<Rightarrow> u16 \<Rightarrow> u32 \<Rightarrow> u16 \<Rightarrow> tcp_tcb \<Rightarrow> bool" where
  "tcb_matches src_ip src_port dst_ip dst_port t \<longleftrightarrow>
     remote_ip t = src_ip \<and> remote_port t = src_port \<and> local_ip t = dst_ip \<and> local_port t = dst_port"

definition tcp_find_tcb :: "u32 \<Rightarrow> u16 \<Rightarrow> u32 \<Rightarrow> u16 \<Rightarrow> kstate \<Rightarrow> addr option" where
  "tcp_find_tcb src_ip src_port dst_ip dst_port k =
     walk tcb_next (\<lambda>_. tcb_matches src_ip src_port dst_ip dst_port) (tcbs k) (tcp_tcb_list k)"

section \<open>Sending\<close>

text \<open>The payload pointer may be NULL (\<^term>\<open>None\<close>), as the control segments pass it.\<close>

definition tcp_attach_payload :: "addr \<Rightarrow> bytes option \<Rightarrow> u16 \<Rightarrow> kstate \<Rightarrow> kstate option" where
  "tcp_attach_payload buffer payload payload_len k =
     (if 0 < payload_len \<and> payload \<noteq> None
      then do { body \<leftarrow> rd_bytes (the payload) (unat payload_len);
                k_store buffer (unat TCP_HDR_SIZE) body k }
      else Some k)"

definition tcp_send_segment :: "addr \<Rightarrow> u8 \<Rightarrow> bytes option \<Rightarrow> u16 \<Rightarrow> kstate \<Rightarrow> kstate option" where
  "tcp_send_segment tcb flags payload payload_len k =
     (if tcb = 0 then Some k
      else
        let total_len = TCP_HDR_SIZE + payload_len in
        do {
          (buffer, k) \<leftarrow> k_kmalloc (ucast total_len) k;
          if buffer = 0 then Some (k_debugps (str ''[TCP] TX FATAL: kmalloc failed'' @ lf) k)
          else do {
            t \<leftarrow> tcbs k tcb;
            k \<leftarrow> k_store buffer 0 (tcp_image \<lparr>th_src_port = htons (local_port t),
                th_dst_port = htons (remote_port t), th_seq = htonl (snd_nxt t), th_ack = htonl (rcv_nxt t),
                th_offset_reserved = push_bit 4 5, th_flags = flags, th_window = htons (rcv_wnd t),
                th_checksum = 0, th_urgent_ptr = 0\<rparr>) k;
            k \<leftarrow> tcp_attach_payload buffer payload payload_len k;
            c \<leftarrow> tcp_compute_checksum (local_ip t) (remote_ip t)
                  (ram_read (ram (k_heap k)) buffer (unat total_len)) total_len;
            k \<leftarrow> k_store buffer 16 (st16 c) k;
            k \<leftarrow> ipv4_send (remote_ip t) IP_PROTO_TCP
                  (ram_read (ram (k_heap k)) buffer (unat total_len)) (ucast total_len) k;
            k \<leftarrow> (if flags AND (TCP_FLAG_SYN OR TCP_FLAG_FIN) \<noteq> 0
                  then k_set_tcb tcb (\<lambda>t. t\<lparr>snd_nxt := snd_nxt t + 1\<rparr>) k else Some k);
            k_set_tcb tcb (\<lambda>t. t\<lparr>snd_nxt := snd_nxt t + ucast payload_len\<rparr>) k } })"

definition tcp_send_ack :: "addr \<Rightarrow> kstate \<Rightarrow> kstate option" where
  "tcp_send_ack tcb k = tcp_send_segment tcb TCP_FLAG_ACK None 0 k"

definition tcp_send_synack :: "addr \<Rightarrow> kstate \<Rightarrow> kstate option" where
  "tcp_send_synack tcb k = tcp_send_segment tcb (TCP_FLAG_SYN OR TCP_FLAG_ACK) None 0 k"

definition tcp_send_fin :: "addr \<Rightarrow> kstate \<Rightarrow> kstate option" where
  "tcp_send_fin tcb k = tcp_send_segment tcb (TCP_FLAG_FIN OR TCP_FLAG_ACK) None 0 k"

definition rst_header :: "u16 \<Rightarrow> u16 \<Rightarrow> u32 \<Rightarrow> u32 \<Rightarrow> u16 \<Rightarrow> tcp_hdr" where
  "rst_header src_port dst_port seq ack c =
     \<lparr>th_src_port = htons src_port, th_dst_port = htons dst_port, th_seq = htonl seq, th_ack = htonl ack,
      th_offset_reserved = push_bit 4 5, th_flags = TCP_FLAG_RST OR TCP_FLAG_ACK, th_window = 0,
      th_checksum = c, th_urgent_ptr = 0\<rparr>"

definition tcp_send_rst :: "u32 \<Rightarrow> u32 \<Rightarrow> u16 \<Rightarrow> u16 \<Rightarrow> u32 \<Rightarrow> u32 \<Rightarrow> kstate \<Rightarrow> kstate option" where
  "tcp_send_rst src_ip dst_ip src_port dst_port seq ack k =
     do { c \<leftarrow> tcp_compute_checksum src_ip dst_ip (tcp_image (rst_header src_port dst_port seq ack 0)) TCP_HDR_SIZE;
          ipv4_send dst_ip IP_PROTO_TCP (tcp_image (rst_header src_port dst_port seq ack c)) (ucast TCP_HDR_SIZE) k }"

definition tcp_send_data :: "addr \<Rightarrow> bytes \<Rightarrow> u16 \<Rightarrow> kstate \<Rightarrow> kstate option" where
  "tcp_send_data tcb data n k =
     (if tcb = 0 then Some (k_debugps (str ''[TCP] Send failed: Connection not ESTABLISHED'' @ lf) k)
      else do {
        t \<leftarrow> tcbs k tcb;
        if tcb_state t \<noteq> TCP_STATE_ESTABLISHED
        then Some (k_debugps (str ''[TCP] Send failed: Connection not ESTABLISHED'' @ lf) k)
        else tcp_send_segment tcb (TCP_FLAG_PSH OR TCP_FLAG_ACK) (Some data) n k })"

definition tcp_close :: "addr \<Rightarrow> kstate \<Rightarrow> kstate option" where
  "tcp_close tcb k =
     (if tcb = 0 then Some k
      else do {
        t \<leftarrow> tcbs k tcb;
        if tcb_state t = TCP_STATE_ESTABLISHED \<or> tcb_state t = TCP_STATE_CLOSE_WAIT
        then do {
          k \<leftarrow> k_set_tcb tcb (\<lambda>t. t\<lparr>tcb_state := TCP_STATE_LAST_ACK\<rparr>) k;
          k \<leftarrow> tcp_send_fin tcb k;
          Some (k_debugps (str ''[TCP] Active close -> LAST_ACK'' @ lf) k) }
        else Some k })"

definition tcp_init :: "kstate \<Rightarrow> kstate" where
  "tcp_init k = k_debugps (str ''[TCP] Core Stack Ready'' @ lf) (k\<lparr>tcp_tcb_list := 0\<rparr>)"

section \<open>The shape of a segment\<close>

definition tcp_out_header :: "tcp_tcb \<Rightarrow> u8 \<Rightarrow> u16 \<Rightarrow> tcp_hdr" where
  "tcp_out_header t flags c =
     \<lparr>th_src_port = htons (local_port t), th_dst_port = htons (remote_port t), th_seq = htonl (snd_nxt t),
      th_ack = htonl (rcv_nxt t), th_offset_reserved = push_bit 4 5, th_flags = flags,
      th_window = htons (rcv_wnd t), th_checksum = c, th_urgent_ptr = 0\<rparr>"

definition tcp_out_checksum :: "tcp_tcb \<Rightarrow> u8 \<Rightarrow> bytes \<Rightarrow> u16" where
  "tcp_out_checksum t flags body = the (tcp_compute_checksum (local_ip t) (remote_ip t)
     (tcp_image (tcp_out_header t flags 0) @ body) (of_nat (20 + length body)))"

definition tcp_segment :: "tcp_tcb \<Rightarrow> u8 \<Rightarrow> bytes \<Rightarrow> bytes" where
  "tcp_segment t flags body = tcp_image (tcp_out_header t flags (tcp_out_checksum t flags body)) @ body"

lemma length_tcp_segment [simp]: "length (tcp_segment t flags body) = 20 + length body"
  by (simp add: tcp_segment_def)

lemma tcp_out_checksum_Some:
  assumes "length body \<le> 65515"
  shows "tcp_compute_checksum (local_ip t) (remote_ip t) (tcp_image (tcp_out_header t flags 0) @ body)
      (of_nat (20 + length body)) = Some (tcp_out_checksum t flags body)"
proof -
  have "unat (of_nat (20 + length body) :: u16) \<le> length (tcp_image (tcp_out_header t flags 0) @ body)"
    using assms by (simp add: unat_of_nat del: of_nat_add)
  from tcp_checksum_total [OF this, of "local_ip t" "remote_ip t"] show ?thesis
    by (auto simp: tcp_out_checksum_def)
qed

lemma tcp_image_checksum:
  "take 16 (tcp_image (tcp_out_header t flags 0) @ body) @ st16 c
     @ drop 18 (tcp_image (tcp_out_header t flags 0) @ body)
   = tcp_image (tcp_out_header t flags c) @ body"
  by (simp add: tcp_image_def tcp_out_header_def st16_def st32_def)

section \<open>Sending a segment, step by step\<close>

lemma tcp_fill:
  assumes "heap_inv (k_heap k)" and "live (k_heap k) p = Some m" and "20 + length body \<le> m"
    and "length body \<le> 65515"
  shows "\<exists>h1 h2 h. k_store p 0 (tcp_image (tcp_out_header t flags 0)) k = Some (k\<lparr>k_heap := h1\<rparr>)
    \<and> (if body = [] then h2 = h1 else k_store p 20 body (k\<lparr>k_heap := h1\<rparr>) = Some (k\<lparr>k_heap := h2\<rparr>))
    \<and> ram_read (ram h2) p (20 + length body) = tcp_image (tcp_out_header t flags 0) @ body
    \<and> k_store p 16 (st16 (tcp_out_checksum t flags body)) (k\<lparr>k_heap := h2\<rparr>) = Some (k\<lparr>k_heap := h\<rparr>)
    \<and> only_block p (k_heap k) h
    \<and> ram_read (ram h) p (20 + length body) = tcp_segment t flags body"
proof -
  let ?img = "tcp_image (tcp_out_header t flags 0)" and ?c = "tcp_out_checksum t flags body"
  have z: "ram_read (ram (k_heap k)) p 0 = []" by (simp add: ram_read_def)
  from k_store_append [OF assms(1,2) _ z, of ?img] assms(3) obtain h1 where
    s1: "k_store p 0 ?img k = Some (k\<lparr>k_heap := h1\<rparr>)" "only_block p (k_heap k) h1"
    "ram_read (ram h1) p 20 = ?img" by auto
  have b1: "heap_inv h1" "live h1 p = Some m" using s1(2) assms(2) by (simp_all add: only_block_def)
  obtain h2 where s2: "if body = [] then h2 = h1 else k_store p 20 body (k\<lparr>k_heap := h1\<rparr>) = Some (k\<lparr>k_heap := h2\<rparr>)"
    "only_block p (k_heap k) h2" "ram_read (ram h2) p (20 + length body) = ?img @ body"
  proof (cases "body = []")
    case True
    then show thesis using that [of h1] s1 by simp
  next
    case False
    from k_store_append [of "k\<lparr>k_heap := h1\<rparr>" p m 20 body ?img] b1 s1(3) assms(3)
    obtain h2 where "k_store p 20 body (k\<lparr>k_heap := h1\<rparr>) = Some (k\<lparr>k_heap := h2\<rparr>)" "only_block p h1 h2"
      "ram_read (ram h2) p (20 + length body) = ?img @ body" by auto
    then show thesis using that [of h2] False only_block_trans [OF s1(2)] by simp
  qed
  have b2: "heap_inv h2" "live h2 p = Some m" using s2(2) assms(2) by (simp_all add: only_block_def)
  from k_store_splice [of "k\<lparr>k_heap := h2\<rparr>" p m 16 "st16 ?c" "20 + length body" "?img @ body"] b2 s2(3) assms(3)
  obtain h3 where s3: "k_store p 16 (st16 ?c) (k\<lparr>k_heap := h2\<rparr>) = Some (k\<lparr>k_heap := h3\<rparr>)"
    "only_block p h2 h3"
    "ram_read (ram h3) p (20 + length body) = take 16 (?img @ body) @ st16 ?c @ drop 18 (?img @ body)" by auto
  have "ram_read (ram h3) p (20 + length body) = tcp_segment t flags body"
    unfolding s3(3) tcp_image_checksum by (simp add: tcp_segment_def)
  moreover have "only_block p (k_heap k) h3" using s2(2) s3(2) only_block_trans by blast
  ultimately show ?thesis using s1(1) s2(1,3) s3(1) by blast
qed

definition seg_body :: "bytes option \<Rightarrow> u16 \<Rightarrow> bytes" where
  "seg_body payload n = (case payload of None \<Rightarrow> [] | Some d \<Rightarrow> take (unat n) d)"

definition seq_advance :: "u8 \<Rightarrow> u16 \<Rightarrow> u32" where
  "seq_advance flags n = (if flags AND (TCP_FLAG_SYN OR TCP_FLAG_FIN) \<noteq> 0 then 1 else 0) + ucast n"

text \<open>A payload the sender can read: none for a control segment, or enough bytes.\<close>

definition payload_ok :: "bytes option \<Rightarrow> u16 \<Rightarrow> bool" where
  "payload_ok payload n \<longleftrightarrow> unat n \<le> 65515 \<and> (case payload of None \<Rightarrow> n = 0 | Some d \<Rightarrow> unat n \<le> length d)"

lemma payload_ok_body:
  "payload_ok payload n \<Longrightarrow> length (seg_body payload n) = unat n"
  by (auto simp: payload_ok_def seg_body_def split: option.splits)

lemma tx_inv_heap:
  assumes "tx_inv k" and "heap_inv h" and "heap_ext (k_heap k) h"
  shows "tx_inv (k\<lparr>k_uart := u, k_heap := h\<rparr>)" "tx_bufs (k\<lparr>k_uart := u, k_heap := h\<rparr>) = tx_bufs k"
proof -
  have buf: "tx_buf (k\<lparr>k_uart := u, k_heap := h\<rparr>) = tx_buf k" by (simp add: tx_buf_def [abs_def])
  then show "tx_bufs (k\<lparr>k_uart := u, k_heap := h\<rparr>) = tx_bufs k" by (simp add: tx_bufs_def)
  have "\<exists>n. live h (tx_buf k i) = Some n \<and> unat (vd_len (desc (tx_queue k) ! i)) \<le> n"
    if "i \<in> in_flight (tx_queue k)" for i
    using assms(1,3) that by (auto simp: tx_inv_def heap_ext_def)
  moreover have "dom (tcbs k) \<subseteq> dom (live h)"
    by (rule order_trans [OF _ heap_ext_dom [OF assms(3)]]) (use assms(1) in \<open>simp add: tx_inv_def\<close>)
  ultimately show "tx_inv (k\<lparr>k_uart := u, k_heap := h\<rparr>)"
    using assms(1,2) by (simp add: tx_inv_def tx_up_def buf)
qed

lemma net_inv_heap:
  assumes "net_inv k" and "heap_inv h" and "heap_ext (k_heap k) h"
  shows "net_inv (k\<lparr>k_uart := u, k_heap := h\<rparr>)"
proof -
  from assms(1) obtain as where c: "conns k as" and t: "tx_inv k" by (auto simp: net_inv_def)
  have "conns (k\<lparr>k_uart := u, k_heap := h\<rparr>) as"
    using c tx_inv_heap(2) [OF t assms(2,3)] assms(3) by (simp add: conns_def heap_ext_def) blast
  then show ?thesis using tx_inv_heap(1) [OF t assms(2,3)] by (auto simp: net_inv_def)
qed

lemma k_debugps_fields [simp]:
  "k_heap (k_debugps s k) = k_heap k" "tx_queue (k_debugps s k) = tx_queue k" "tcbs (k_debugps s k) = tcbs k"
  "tcp_tcb_list (k_debugps s k) = tcp_tcb_list k" "aether_mac (k_debugps s k) = aether_mac k"
  "aether_ip (k_debugps s k) = aether_ip k" "arp_cache (k_debugps s k) = arp_cache k"
  "global_vnet_dev (k_debugps s k) = global_vnet_dev k" "tcp_global_isn (k_debugps s k) = tcp_global_isn k"
  "rx_queue (k_debugps s k) = rx_queue k" "rx_buffers (k_debugps s k) = rx_buffers k"
  "k_stats (k_debugps s k) = k_stats k" "k_hw (k_debugps s k) = k_hw k"
  by (simp_all add: k_debugps_def)

lemma tcp_send_segment_cases:
  assumes inv: "net_inv k" and t: "tcbs k a = Some t" and pay: "payload_ok payload n"
  obtains
    (nomem) u h where "heap_inv h" "heap_ext (k_heap k) h" "live h = live (k_heap k)"
      "tcp_send_segment a flags payload n k =
         Some (k_debugps (str ''[TCP] TX FATAL: kmalloc failed'' @ lf) (k\<lparr>k_uart := u, k_heap := h\<rparr>))"
  | (sent) p m u h k1 where "p \<noteq> 0" "live (k_heap k) p = None" "live h = (live (k_heap k))(p \<mapsto> m)"
      "heap_inv h" "heap_ext (k_heap k) h" "sent_ok (k\<lparr>k_uart := u, k_heap := h\<rparr>) k1"
      "ipv4_send (remote_ip t) IP_PROTO_TCP (tcp_segment t flags (seg_body payload n))
         (ucast (TCP_HDR_SIZE + n)) (k\<lparr>k_uart := u, k_heap := h\<rparr>) = Some k1"
      "tcp_send_segment a flags payload n k = Some (k1\<lparr>tcbs :=
         (tcbs k)(a \<mapsto> t\<lparr>snd_nxt := snd_nxt t + seq_advance flags n\<rparr>)\<rparr>)"
proof -
  from inv obtain as where c: "conns k as" and tx: "tx_inv k" by (auto simp: net_inv_def)
  have h0: "heap_inv (k_heap k)" using tx by (simp add: tx_inv_def)
  have as: "path tcb_next (tcbs k) (tcp_tcb_list k) as" "a \<in> set as" using c t by (auto simp: conns_def)
  then have a0: "a \<noteq> 0" using path_nonnull [OF as] by simp
  let ?body = "seg_body payload n"
  have len: "length ?body = unat n" by (rule payload_ok_body [OF pay])
  have tot: "unat (20 + n) = 20 + unat n" using pay by (simp add: payload_ok_def unat_word_ariths)
  have tot': "20 + n = of_nat (20 + length ?body)"
    by (simp only: word_unat_eq_iff tot len unat_of_nat) (use pay in \<open>simp add: payload_ok_def\<close>)
  have big: "unat (ucast (20 + n) :: u64) \<le> 2 ^ 32" using unat_u16_less [of "20 + n"] by (simp del: unat_u16_less)
  from h0 big show thesis
  proof (cases rule: k_kmalloc_cases)
    case (null u h)
    then show thesis
      using a0 by (intro nomem [of h u]) (simp_all add: tcp_send_segment_def TCP_HDR_SIZE_def)
  next
    case (block p m u h)
    let ?k = "k\<lparr>k_uart := u, k_heap := h\<rparr>"
    have hp: "heap_inv (k_heap ?k)" "live (k_heap ?k) p = Some m" "20 + length ?body \<le> m" "length ?body \<le> 65515"
      using block tot len pay by (simp_all add: payload_ok_def)
    from tcp_fill [OF hp, of t flags] obtain h1 h2 h' where
      fill: "k_store p 0 (tcp_image (tcp_out_header t flags 0)) ?k = Some (?k\<lparr>k_heap := h1\<rparr>)"
        "if ?body = [] then h2 = h1 else k_store p 20 ?body (?k\<lparr>k_heap := h1\<rparr>) = Some (?k\<lparr>k_heap := h2\<rparr>)"
        "ram_read (ram h2) p (20 + unat n) = tcp_image (tcp_out_header t flags 0) @ ?body"
        "k_store p 16 (st16 (tcp_out_checksum t flags ?body)) (?k\<lparr>k_heap := h2\<rparr>) = Some (?k\<lparr>k_heap := h'\<rparr>)"
      and ob: "only_block p h h'"
      and rd: "ram_read (ram h') p (20 + unat n) = tcp_segment t flags ?body"
      by (auto simp: len)
    have body: "tcp_attach_payload p payload n (?k\<lparr>k_heap := h1\<rparr>) = Some (?k\<lparr>k_heap := h2\<rparr>)"
    proof (cases "n = 0")
      case True
      then have "?body = []" using len by simp
      then show ?thesis using fill(2) True by (simp add: tcp_attach_payload_def)
    next
      case False
      then have pos: "0 < n" by (simp add: word_neq_0_conv)
      have "unat n \<noteq> 0" using False by (simp add: unat_eq_0)
      then have "?body \<noteq> []" using len by auto
      moreover obtain d where "payload = Some d" "unat n \<le> length d"
        using pay False by (auto simp: payload_ok_def split: option.splits)
      ultimately show ?thesis using fill(2) pos
        by (simp add: rd_bytes_take seg_body_def tcp_attach_payload_def TCP_HDR_SIZE_def)
    qed
    have ext: "heap_ext (k_heap k) h'" using heap_ext_only_block [OF block(3,5) ob] .
    have lv: "heap_inv h'" "live h' = (live (k_heap k))(p \<mapsto> m)" using ob block(7) by (simp_all add: only_block_def)
    let ?k' = "k\<lparr>k_uart := u, k_heap := h'\<rparr>"
    have inv': "tx_inv ?k'" by (rule tx_inv_heap [OF tx lv(1) ext])
    have "unat (ucast (20 + n) :: u32) \<le> length (tcp_segment t flags ?body)"
      "unat (ucast (20 + n) :: u32) \<le> 2 ^ 30"
      using tot len unat_u16_less [of "20 + n"] by (simp_all del: unat_u16_less)
    from ipv4_send_safe [OF inv' this, of "remote_ip t" IP_PROTO_TCP] obtain k1 where
      k1: "ipv4_send (remote_ip t) IP_PROTO_TCP (tcp_segment t flags ?body) (ucast (20 + n)) ?k' = Some k1"
        "sent_ok ?k' k1" by blast
    have t1: "tcbs k1 = tcbs k" using k1(2) by (simp add: sent_ok_def same_conns_def)
    have "tcp_send_segment a flags payload n k = Some (k1\<lparr>tcbs :=
         (tcbs k)(a \<mapsto> t\<lparr>snd_nxt := snd_nxt t + seq_advance flags n\<rparr>)\<rparr>)"
      using a0 block(1,4) t fill(1,3,4) body rd k1(1) t1
        tcp_out_checksum_Some [OF hp(4), of t flags, folded tot']
      unfolding tcp_send_segment_def
      by (simp add: TCP_HDR_SIZE_def tot Let_def tcp_out_header_def k_set_tcb_def seq_advance_def)
        (simp add: add.assoc)
    then show thesis using block(4,5) lv ext k1
      by (intro sent [where p = p and h = h' and m = m and u = u and ?k1.0 = k1])
        (simp_all add: TCP_HDR_SIZE_def)
  qed
qed

section \<open>What the output functions leave alone\<close>

text \<open>
  The contract of the output half of TCP: the state stays sound, other blocks and the shape of
  the connection list are untouched; only fields of connections may change.
\<close>

definition out_ok :: "kstate \<Rightarrow> kstate \<Rightarrow> bool" where
  "out_ok k k' \<longleftrightarrow> net_inv k' \<and> heap_ext (k_heap k) (k_heap k') \<and> dom (tcbs k') = dom (tcbs k)
     \<and> tcp_tcb_list k' = tcp_tcb_list k \<and> tcp_global_isn k' = tcp_global_isn k
     \<and> arp_cache k' = arp_cache k \<and> aether_ip k' = aether_ip k \<and> aether_mac k' = aether_mac k
     \<and> rx_queue k' = rx_queue k \<and> rx_buffers k' = rx_buffers k
     \<and> global_vnet_dev k' = global_vnet_dev k"

lemma out_ok_refl: "net_inv k \<Longrightarrow> out_ok k k"
  by (simp add: out_ok_def)

lemma out_ok_trans: "out_ok k k' \<Longrightarrow> out_ok k' k'' \<Longrightarrow> out_ok k k''"
  using heap_ext_trans by (simp add: out_ok_def) blast

lemma sent_ok_out_ok: "net_inv k \<Longrightarrow> sent_ok k k' \<Longrightarrow> out_ok k k'"
  using sent_ok_net_inv by (simp add: out_ok_def sent_ok_def same_conns_def)

lemma out_ok_debugps [simp]: "out_ok k (k_debugps s k') = out_ok k k'"
  using net_inv_cong(1) [of "k_debugps s k'" k'] by (simp add: out_ok_def)

lemma net_inv_set_tcb:
  assumes "net_inv k" and "tcbs k a = Some t" and "tcb_next t' = tcb_next t"
  shows "net_inv (k\<lparr>tcbs := (tcbs k)(a \<mapsto> t')\<rparr>)"
proof -
  let ?k = "k\<lparr>tcbs := (tcbs k)(a \<mapsto> t')\<rparr>"
  from assms(1) obtain as where c: "conns k as" and t: "tx_inv k" by (auto simp: net_inv_def)
  have buf: "tx_buf ?k = tx_buf k" by (simp add: tx_buf_def [abs_def])
  have d: "dom ((tcbs k)(a \<mapsto> t')) = dom (tcbs k)" using assms(2) by auto
  have "tx_inv ?k" using t by (simp add: tx_inv_def tx_up_def buf d del: dom_fun_upd)
  moreover have "path tcb_next ((tcbs k)(a \<mapsto> t')) (tcp_tcb_list k) as"
    using c by (simp add: conns_def path_upd_same [of "tcbs k" a t tcb_next t'] assms(2,3))
  then have "conns ?k as" using c by (simp add: conns_def d tx_bufs_def buf del: dom_fun_upd)
  ultimately show ?thesis by (auto simp: net_inv_def)
qed

lemma out_ok_set_tcb:
  assumes "net_inv k" and "tcbs k a = Some t" and "tcb_next t' = tcb_next t"
  shows "out_ok k (k\<lparr>tcbs := (tcbs k)(a \<mapsto> t')\<rparr>)"
  using net_inv_set_tcb [OF assms] assms(2) by (auto simp: out_ok_def)

lemma tcp_send_segment_ok:
  assumes inv: "net_inv k" and t: "tcbs k a = Some t" and pay: "payload_ok payload n"
  shows "\<exists>k' t'. tcp_send_segment a flags payload n k = Some k' \<and> out_ok k k'
    \<and> tcbs k' = (tcbs k)(a \<mapsto> t') \<and> (t' = t \<or> t' = t\<lparr>snd_nxt := snd_nxt t + seq_advance flags n\<rparr>)"
  using assms
proof (cases rule: tcp_send_segment_cases [where flags = flags])
  case (nomem u h)
  have "net_inv (k\<lparr>k_uart := u, k_heap := h\<rparr>)" using net_inv_heap [OF inv nomem(1,2)] .
  then have "out_ok k (k\<lparr>k_uart := u, k_heap := h\<rparr>)" using nomem(2) by (simp add: out_ok_def)
  then show ?thesis using nomem(4) t by (auto intro!: exI [of _ t])
next
  case (sent p m u h k1)
  let ?k = "k\<lparr>k_uart := u, k_heap := h\<rparr>" and ?t = "t\<lparr>snd_nxt := snd_nxt t + seq_advance flags n\<rparr>"
  have "net_inv ?k" using net_inv_heap [OF inv sent(4,5)] .
  then have o1: "out_ok ?k k1" using sent_ok_out_ok sent(6) by blast
  have o0: "out_ok k ?k" using \<open>net_inv ?k\<close> sent(5) by (simp add: out_ok_def)
  have t1: "tcbs k1 = tcbs k" using sent(6) by (simp add: sent_ok_def same_conns_def)
  have "out_ok k1 (k1\<lparr>tcbs := (tcbs k1)(a \<mapsto> ?t)\<rparr>)"
    using o1 t t1 by (intro out_ok_set_tcb) (simp_all add: out_ok_def)
  then have "out_ok k (k1\<lparr>tcbs := (tcbs k)(a \<mapsto> ?t)\<rparr>)"
    using out_ok_trans [OF out_ok_trans [OF o0 o1]] by (simp only: t1)
  with sent(8) show ?thesis by (intro exI [of _ "k1\<lparr>tcbs := (tcbs k)(a \<mapsto> ?t)\<rparr>"] exI [of _ ?t]) simp
qed

lemma control_ok [simp]: "payload_ok None 0"
  by (simp add: payload_ok_def)

lemma tcp_send_ack_ok:
  assumes "net_inv k" and "tcbs k a = Some t"
  shows "\<exists>k'. tcp_send_ack a k = Some k' \<and> out_ok k k' \<and> tcbs k' = tcbs k"
proof -
  have z: "seq_advance TCP_FLAG_ACK 0 = 0" by (simp add: seq_advance_def tcp_flags)
  from tcp_send_segment_ok [OF assms control_ok, of TCP_FLAG_ACK] show ?thesis
    using assms(2) by (auto simp: z tcp_send_ack_def fun_upd_idem)
qed

text \<open>A control segment with SYN or FIN moves the send sequence by one, unless memory is out.\<close>

lemma tcp_send_ctrl_ok:
  assumes "net_inv k" and "tcbs k a = Some t" and "flags AND (TCP_FLAG_SYN OR TCP_FLAG_FIN) \<noteq> 0"
  shows "\<exists>k' t'. tcp_send_segment a flags None 0 k = Some k' \<and> out_ok k k'
    \<and> tcbs k' = (tcbs k)(a \<mapsto> t') \<and> (t' = t \<or> t' = t\<lparr>snd_nxt := snd_nxt t + 1\<rparr>)"
  using tcp_send_segment_ok [OF assms(1,2) control_ok, of flags] assms(3) by (simp add: seq_advance_def)

lemma tcp_close_ok:
  assumes "net_inv k" and "tcbs k a = Some t" and "a \<noteq> 0"
  shows "\<exists>k' t'. tcp_close a k = Some k' \<and> out_ok k k' \<and> tcbs k' = (tcbs k)(a \<mapsto> t')
    \<and> (if tcb_state t = TCP_STATE_ESTABLISHED \<or> tcb_state t = TCP_STATE_CLOSE_WAIT
       then t' = t\<lparr>tcb_state := TCP_STATE_LAST_ACK\<rparr>
         \<or> t' = t\<lparr>tcb_state := TCP_STATE_LAST_ACK, snd_nxt := snd_nxt t + 1\<rparr>
       else t' = t)"
proof (cases "tcb_state t = TCP_STATE_ESTABLISHED \<or> tcb_state t = TCP_STATE_CLOSE_WAIT")
  case True
  let ?t = "t\<lparr>tcb_state := TCP_STATE_LAST_ACK\<rparr>"
  let ?k = "k\<lparr>tcbs := (tcbs k)(a \<mapsto> ?t)\<rparr>"
  have o: "out_ok k ?k" by (rule out_ok_set_tcb [OF assms(1,2)]) simp
  then have i: "net_inv ?k" by (simp add: out_ok_def)
  have st: "tcbs ?k a = Some ?t" by simp
  have fl: "(TCP_FLAG_FIN OR TCP_FLAG_ACK) AND (TCP_FLAG_SYN OR TCP_FLAG_FIN) \<noteq> 0" by (simp add: tcp_flags)
  from tcp_send_ctrl_ok [OF i st fl] obtain k' t' where k': "tcp_send_segment a (TCP_FLAG_FIN OR TCP_FLAG_ACK) None 0 ?k = Some k'"
    "out_ok ?k k'" "tcbs k' = (tcbs ?k)(a \<mapsto> t')" "t' = ?t \<or> t' = ?t\<lparr>snd_nxt := snd_nxt ?t + 1\<rparr>"
    by blast
  let ?k' = "k_debugps (str ''[TCP] Active close -> LAST_ACK'' @ lf) k'"
  show ?thesis
    unfolding if_P [OF True]
  proof (intro exI conjI)
    show "tcp_close a k = Some ?k'"
      using True assms(2,3) k'(1) by (auto simp: tcp_close_def tcp_send_fin_def k_set_tcb_def)
    show "out_ok k ?k'" using out_ok_trans [OF o k'(2)] by simp
    show "tcbs ?k' = (tcbs k)(a \<mapsto> t')" using k'(3) by simp
    show "t' = ?t \<or> t' = t\<lparr>tcb_state := TCP_STATE_LAST_ACK, snd_nxt := snd_nxt t + 1\<rparr>"
      using k'(4) by simp
  qed
next
  case False
  then show ?thesis
    using assms out_ok_refl by (intro exI [of _ k] exI [of _ t]) (auto simp: tcp_close_def fun_upd_idem)
qed

lemma tcp_send_data_ok:
  assumes "net_inv k" and "tcbs k a = Some t" and "a \<noteq> 0" and "unat n \<le> length d" and "unat n \<le> 65515"
  shows "\<exists>k' t'. tcp_send_data a d n k = Some k' \<and> out_ok k k' \<and> tcbs k' = (tcbs k)(a \<mapsto> t')
    \<and> (t' = t \<or> tcb_state t = TCP_STATE_ESTABLISHED \<and> t' = t\<lparr>snd_nxt := snd_nxt t + ucast n\<rparr>)"
proof (cases "tcb_state t = TCP_STATE_ESTABLISHED")
  case True
  have p: "payload_ok (Some d) n" using assms(4,5) by (simp add: payload_ok_def)
  have adv: "seq_advance (TCP_FLAG_PSH OR TCP_FLAG_ACK) n = ucast n" by (simp add: seq_advance_def tcp_flags)
  from tcp_send_segment_ok [OF assms(1,2) p, of "TCP_FLAG_PSH OR TCP_FLAG_ACK"] show ?thesis
    using True assms(2,3) by (auto simp: tcp_send_data_def adv)
next
  case False
  then show ?thesis
    using assms out_ok_refl by (auto simp: tcp_send_data_def fun_upd_idem intro!: exI [of _ t])
qed

lemma tcp_send_rst_ok:
  assumes "net_inv k"
  shows "\<exists>k'. tcp_send_rst sip dip sp dp seq ack k = Some k' \<and> sent_ok k k' \<and> net_inv k'"
proof -
  have "unat TCP_HDR_SIZE \<le> length (tcp_image (rst_header sp dp seq ack 0))" by (simp add: TCP_HDR_SIZE_def)
  from tcp_checksum_total [OF this, of sip dip] obtain c where
    c: "tcp_compute_checksum sip dip (tcp_image (rst_header sp dp seq ack 0)) TCP_HDR_SIZE = Some c" by blast
  let ?seg = "tcp_image (rst_header sp dp seq ack c)"
  have "unat (ucast TCP_HDR_SIZE :: u32) \<le> length ?seg \<and> unat (ucast TCP_HDR_SIZE :: u32) \<le> 2 ^ 30"
    by (simp add: TCP_HDR_SIZE_def)
  then obtain k' where "ipv4_send dip IP_PROTO_TCP ?seg (ucast TCP_HDR_SIZE) k = Some k'" "sent_ok k k'" "net_inv k'"
    using ipv4.send_net_inv [OF assms, of "(dip, IP_PROTO_TCP, ?seg, ucast TCP_HDR_SIZE)"] by auto
  moreover from this(1) have "tcp_send_rst sip dip sp dp seq ack k = Some k'"
    by (simp only: tcp_send_rst_def c bind.bind_lunit)
  ultimately show ?thesis by blast
qed

section \<open>Allocating and removing connections\<close>

definition link :: "addr list \<Rightarrow> addr" where
  "link as = (case as of [] \<Rightarrow> 0 | a # _ \<Rightarrow> a)"

definition last_or_null :: "addr list \<Rightarrow> addr" where
  "last_or_null as = (if as = [] then 0 else last as)"

lemma link_simps [simp]: "link [] = 0" "link (a # as) = a"
  by (simp_all add: link_def)

lemma path_link: "path nxt m p as \<Longrightarrow> p = link as"
  by (cases as) auto

lemma path_mid: "path nxt m p (us @ a # vs) \<Longrightarrow> \<exists>n. m a = Some n \<and> a \<noteq> 0 \<and> nxt n = link vs"
proof (induction us arbitrary: p)
  case Nil
  then show ?case using path_link by (fastforce split: option.splits)
next
  case (Cons u us)
  then show ?case by (auto split: option.splits)
qed

text \<open>Taking a node out of the middle: its predecessor, or the head, is linked to its successor.\<close>

lemma path_unlink_hd:
  assumes "path nxt m p (a # vs)"
  shows "path nxt (m(a := None)) (link vs) vs"
proof -
  have d: "a \<notin> set vs" using path_distinct [OF assms] by simp
  from assms obtain n where "m a = Some n" "path nxt m (nxt n) vs" by (auto split: option.splits)
  then have "path nxt m (link vs) vs" using path_link by fastforce
  with d show ?thesis by simp
qed

lemma path_unlink:
  assumes "path nxt m p (us @ u # a # vs)" and "m u = Some n" and "nxt n' = link vs"
  shows "path nxt (m(u \<mapsto> n', a := None)) p (us @ u # vs)"
  using assms(1)
proof (induction us arbitrary: p)
  case Nil
  then have n: "path nxt m (nxt n) (a # vs)" "p = u" "u \<noteq> 0" using assms(2) by auto
  have d: "u \<notin> set vs" "u \<noteq> a" "a \<notin> set vs" using path_distinct [OF Nil] by auto
  with path_unlink_hd [OF n(1)] have "path nxt m (link vs) vs" by simp
  then have "path nxt (m(u \<mapsto> n', a := None)) (link vs) vs" using d by simp
  moreover have "(m(u \<mapsto> n', a := None)) u = Some n'" using d by simp
  ultimately show ?case unfolding append_Nil path.simps(2) using n(2,3) by (simp only: option.case assms(3)) simp
next
  case (Cons w us)
  have d: "w \<noteq> u" "w \<noteq> a" using path_distinct [OF Cons.prems] by auto
  from Cons.prems obtain k where k: "m w = Some k" "path nxt m (nxt k) (us @ u # a # vs)" "p = w" "w \<noteq> 0"
    by (auto split: option.splits)
  from Cons.IH [OF k(2)] k d show ?case by simp
qed

lemma remove_loop_steps:
  assumes "path tcb_next (tcbs k) p (us @ xs @ vs)" and "tcb \<notin> set xs"
  shows "remove_loop tcb (last_or_null us) (link (xs @ vs)) k
    = remove_loop tcb (last_or_null (us @ xs)) (link vs) k"
  using assms
proof (induction xs arbitrary: us)
  case Nil
  then show ?case by simp
next
  case (Cons x xs)
  from path_mid [of tcb_next "tcbs k" p us x "xs @ vs"] Cons.prems(1) obtain n where
    n: "tcbs k x = Some n" "x \<noteq> 0" "tcb_next n = link (xs @ vs)" by auto
  have "remove_loop tcb (last_or_null us) (link ((x # xs) @ vs)) k = remove_loop tcb x (link (xs @ vs)) k"
    using n Cons.prems(2) by (subst remove_loop.simps) auto
  moreover have "remove_loop tcb (last_or_null (us @ [x])) (link (xs @ vs)) k
      = remove_loop tcb (last_or_null (us @ x # xs)) (link vs) k"
    using Cons.IH [of "us @ [x]"] Cons.prems by simp
  ultimately show ?case by (simp add: last_or_null_def)
qed

text \<open>The loop for a connection that is in the list, and for one that is not.\<close>

lemma conns_parts:
  assumes "conns k as"
  shows "path tcb_next (tcbs k) (tcp_tcb_list k) as" "dom (tcbs k) = set as" "distinct as" "0 \<notin> set as"
  using assms path_distinct path_nonnull by (fastforce simp: conns_def)+

lemma tcp_remove_absent:
  assumes "conns k as" and "tcb \<notin> set as"
  shows "tcp_remove_tcb tcb k = Some k"
proof -
  note p = conns_parts [OF assms(1)]
  have "remove_loop tcb 0 (tcp_tcb_list k) k = remove_loop tcb (last_or_null as) 0 k"
    using remove_loop_steps [of k "tcp_tcb_list k" "[]" as "[]" tcb] p(1) path_link [OF p(1)] assms(2)
    by (simp add: last_or_null_def)
  also have "\<dots> = Some k" by (subst remove_loop.simps) simp
  finally show ?thesis by (simp add: tcp_remove_tcb_def)
qed

lemma tcp_remove_present:
  assumes inv: "tx_inv k" and c: "conns k (us @ tcb # vs)"
  shows "\<exists>k'. tcp_remove_tcb tcb k = Some k' \<and> net_inv k' \<and> conns k' (us @ vs)
    \<and> live (k_heap k') = (live (k_heap k))(tcb := None) \<and> ram (k_heap k') = ram (k_heap k)
    \<and> (\<forall>a. a \<noteq> tcb \<longrightarrow> map_option (tcb_next_update (\<lambda>_. 0)) (tcbs k' a)
          = map_option (tcb_next_update (\<lambda>_. 0)) (tcbs k a))
    \<and> tcp_global_isn k' = tcp_global_isn k
    \<and> arp_cache k' = arp_cache k \<and> aether_ip k' = aether_ip k \<and> aether_mac k' = aether_mac k
    \<and> rx_queue k' = rx_queue k \<and> rx_buffers k' = rx_buffers k
    \<and> global_vnet_dev k' = global_vnet_dev k"
proof -
  note p = conns_parts [OF c]
  from path_mid [OF p(1)] obtain n where n: "tcbs k tcb = Some n" "tcb \<noteq> 0" "tcb_next n = link vs" by blast
  have nin: "tcb \<notin> set us" "tcb \<notin> set vs" using p(3) by auto
  let ?m = "if us = [] then tcbs k else (tcbs k)(last us \<mapsto> (the (tcbs k (last us)))\<lparr>tcb_next := link vs\<rparr>)"
  let ?h = "if us = [] then link vs else tcp_tcb_list k"
  let ?k = "k\<lparr>tcbs := ?m, tcp_tcb_list := ?h\<rparr>"
  have start: "remove_loop tcb 0 (tcp_tcb_list k) k = remove_loop tcb (last_or_null us) tcb k"
    using remove_loop_steps [of k "tcp_tcb_list k" "[]" us "tcb # vs" tcb] p(1) path_link [OF p(1)] nin
    by (simp add: last_or_null_def)
  have un: "path tcb_next (?m(tcb := None)) ?h (us @ vs)"
  proof (cases us rule: rev_cases)
    case Nil
    then show ?thesis using path_unlink_hd p(1) by fastforce
  next
    case (snoc ws w)
    from path_mid [of tcb_next "tcbs k" "tcp_tcb_list k" ws w "tcb # vs"] p(1) snoc obtain l where
      l: "tcbs k w = Some l" by auto
    from path_unlink [of tcb_next "tcbs k" "tcp_tcb_list k" ws w tcb vs l "l\<lparr>tcb_next := link vs\<rparr>"] p(1) l snoc
    show ?thesis by simp
  qed
  have set_ok: "(if last_or_null us \<noteq> 0 then k_set_tcb (last_or_null us) (\<lambda>p. p\<lparr>tcb_next := tcb_next n\<rparr>) k
      else Some (k\<lparr>tcp_tcb_list := tcb_next n\<rparr>)) = Some ?k"
  proof (cases us rule: rev_cases)
    case Nil
    then show ?thesis by (simp add: last_or_null_def n(3))
  next
    case (snoc ws w)
    from path_mid [of tcb_next "tcbs k" "tcp_tcb_list k" ws w "tcb # vs"] p(1) snoc obtain l where
      "tcbs k w = Some l" "w \<noteq> 0" by auto
    then show ?thesis using snoc by (simp add: last_or_null_def n(3) k_set_tcb_def)
  qed
  have lv: "\<exists>m \<ge> unat TCB_SIZE. live (k_heap k) tcb = Some m" using c by (simp add: conns_def)
  then obtain m where m: "live (k_heap k) tcb = Some m" by blast
  have "heap_inv (k_heap ?k)" "live (k_heap ?k) tcb = Some m" using inv m by (simp_all add: tx_inv_def)
  from k_kfree_block [OF this] obtain h where
    h: "k_kfree tcb ?k = Some (?k\<lparr>k_heap := h, tcbs := ?m(tcb := None)\<rparr>)" "heap_inv h"
    "live h = (live (k_heap k))(tcb := None)" "ram h = ram (k_heap k)" by auto
  let ?r = "?k\<lparr>k_heap := h, tcbs := ?m(tcb := None)\<rparr>"
  let ?kd = "k_debugps (str ''[TCP] TCB purged from memory'' @ lf) ?r"
  have run: "tcp_remove_tcb tcb k = Some ?kd"
    using n(1,2) set_ok h(1) start by (simp add: tcp_remove_tcb_def remove_loop.simps [of tcb _ tcb])
  have buf: "tx_buf ?r = tx_buf k" by (simp add: tx_buf_def [abs_def])
  have bufs: "tx_bufs ?r = tx_bufs k" unfolding tx_bufs_def buf by simp
  have tcb_b: "tcb \<notin> tx_bufs k" using c by (auto simp: conns_def)
  have dm: "dom (?m(tcb := None)) = set (us @ vs)"
  proof -
    have "dom ?m = set (us @ tcb # vs)" using p(2) by (auto simp: last_in_set)
    then show ?thesis using nin by auto
  qed
  have cr: "conns ?r (us @ vs)"
    unfolding conns_def
  proof (intro conjI)
    show "path tcb_next (tcbs ?r) (tcp_tcb_list ?r) (us @ vs)" using un by simp
    show "dom (tcbs ?r) = set (us @ vs)" using dm by simp
    show "\<forall>a \<in> set (us @ vs). \<exists>n \<ge> unat TCB_SIZE. live (k_heap ?r) a = Some n"
      using c nin h(3) by (auto simp: conns_def)
    show "tx_bufs ?r \<inter> set (us @ vs) = {}" unfolding bufs using c by (auto simp: conns_def)
  qed
  have "tx_buf k i \<noteq> tcb" if "i \<in> in_flight (tx_queue k)" for i using tcb_b that by (auto simp: tx_bufs_def)
  then have tr: "tx_inv ?r"
    using inv h(2,3) cr nin p(2) dm unfolding tx_inv_def tx_up_def buf by auto
  have nr: "net_inv ?r" unfolding net_inv_def using cr tr by blast
  have eq: "net_inv ?kd = net_inv ?r" "tx_bufs ?kd = tx_bufs ?r" by (rule net_inv_cong; simp)+
  have "conns ?kd (us @ vs) = conns ?r (us @ vs)" unfolding conns_def k_debugps_fields eq by (rule refl)
  with cr have "conns ?kd (us @ vs)" by (simp only:)
  moreover from nr have "net_inv ?kd" by (simp only: eq)
  moreover have "map_option (tcb_next_update (\<lambda>_. 0)) (tcbs ?kd a) = map_option (tcb_next_update (\<lambda>_. 0)) (tcbs k a)"
    if "a \<noteq> tcb" for a
  proof (cases "us = []")
    case False
    then have "last us \<in> dom (tcbs k)" using p(2) by auto
    then show ?thesis using that False by auto
  qed (use that in simp)
  ultimately show ?thesis using run h(3,4) by (intro exI [of _ ?kd]) simp
qed

lemma tcp_allocate_cases:
  assumes inv: "net_inv k"
  obtains (nomem) k' where "tcp_allocate_tcb k = Some (0, k')" "out_ok k k'" "tcbs k' = tcbs k"
      "live (k_heap k') = live (k_heap k)"
  | (new) p t k' where "tcp_allocate_tcb k = Some (p, k')" "p \<noteq> 0" "tcbs k p = None"
      "live (k_heap k) p = None" "net_inv k'" "heap_ext (k_heap k) (k_heap k')"
      "tcbs k' = (tcbs k)(p \<mapsto> t)" "tcp_tcb_list k' = p" "tcb_next t = tcp_tcb_list k"
      "\<And>as. conns k as \<Longrightarrow> conns k' (p # as)"
      "t = \<lparr>local_ip = aether_ip k, remote_ip = 0, local_port = 0, remote_port = 0,
               tcb_state = TCP_STATE_CLOSED, snd_una = 0, snd_nxt = 0, rcv_nxt = 0,
               rcv_wnd = TCP_DEFAULT_WINDOW, snd_wnd = TCP_DEFAULT_WINDOW, tcb_next = tcp_tcb_list k\<rparr>"
      "k' = k\<lparr>k_uart := k_uart k', k_heap := k_heap k', tcbs := tcbs k', tcp_tcb_list := p\<rparr>"
proof -
  from inv have tx: "tx_inv k" by (simp add: net_inv_def)
  have h0: "heap_inv (k_heap k)" "unat TCB_SIZE \<le> 2 ^ 32" using tx by (simp_all add: tx_inv_def TCB_SIZE_def)
  from h0 show thesis
  proof (cases rule: k_kmalloc_cases)
    case (null u h)
    have "net_inv (k\<lparr>k_uart := u, k_heap := h\<rparr>)" using net_inv_heap [OF inv null(2,3)] .
    then have "out_ok k (k\<lparr>k_uart := u, k_heap := h\<rparr>)" using null(3) by (simp add: out_ok_def)
    then show thesis using null
      by (intro nomem [of "k_debugps (str ''[TCP] FATAL: TCB allocation failed'' @ lf) (k\<lparr>k_uart := u, k_heap := h\<rparr>)"])
        (simp_all add: tcp_allocate_tcb_def)
  next
    case (block p m u h)
    let ?t = "\<lparr>local_ip = aether_ip k, remote_ip = 0, local_port = 0, remote_port = 0,
               tcb_state = TCP_STATE_CLOSED, snd_una = 0, snd_nxt = 0, rcv_nxt = 0,
               rcv_wnd = TCP_DEFAULT_WINDOW, snd_wnd = TCP_DEFAULT_WINDOW, tcb_next = tcp_tcb_list k\<rparr>"
    let ?k = "k\<lparr>k_uart := u, k_heap := h, tcbs := (tcbs k)(p \<mapsto> ?t), tcp_tcb_list := p\<rparr>"
    have al: "tcp_allocate_tcb k = Some (p, ?k)" using block(1,4) by (simp add: tcp_allocate_tcb_def)
    have fresh: "tcbs k p = None" using block(5) tx by (auto simp: tx_inv_def)
    have buf: "tx_buf ?k = tx_buf k" by (simp add: tx_buf_def [abs_def])
    have bufs: "tx_bufs ?k = tx_bufs k" unfolding tx_bufs_def buf by simp
    have own: "tx_bufs k \<subseteq> dom (live (k_heap k))" using tx by (auto simp: tx_inv_def tx_bufs_def)
    have cs: "conns ?k (p # as)" if c: "conns k as" for as
    proof -
      note pp = conns_parts [OF c]
      have "p \<notin> set as" using fresh pp(2) by auto
      then have "path tcb_next ((tcbs k)(p \<mapsto> ?t)) p (p # as)" using pp(1) block(4) by simp
      moreover have "\<exists>n \<ge> unat TCB_SIZE. live h a = Some n" if "a \<in> set (p # as)" for a
        using that c block(6,7) by (auto simp: conns_def)
      moreover have "tx_bufs k \<inter> set (p # as) = {}" using c own block(5) by (auto simp: conns_def)
      ultimately show ?thesis using pp(2) unfolding conns_def bufs by auto
    qed
    have "tx_inv (k\<lparr>k_uart := u, k_heap := h\<rparr>)" by (rule tx_inv_heap [OF tx block(2,3)])
    then have "tx_inv ?k"
      using block(7) by (auto simp: tx_inv_def tx_up_def tx_buf_def [abs_def])
    then have "net_inv ?k" using inv cs by (auto simp: net_inv_def)
    then show thesis using al block(3-5) fresh cs
      by (intro new [of p ?k ?t]) simp_all
  qed
qed

text \<open>The lookup walks to the first connection with the four values, and is total.\<close>

lemma tcp_find_cases:
  assumes "net_inv k"
  obtains (none) "tcp_find_tcb sip sp dip dp k = Some 0"
      "\<And>a t. tcbs k a = Some t \<Longrightarrow> \<not> tcb_matches sip sp dip dp t"
  | (found) a t where "tcp_find_tcb sip sp dip dp k = Some a" "a \<noteq> 0" "tcbs k a = Some t"
      "tcb_matches sip sp dip dp t"
proof -
  from assms obtain as where "conns k as" by (auto simp: net_inv_def)
  then have p: "path tcb_next (tcbs k) (tcp_tcb_list k) as" and d: "dom (tcbs k) = set as"
    by (simp_all add: conns_def)
  from p show thesis
  proof (cases rule: walk_path_cases [where P = "\<lambda>_. tcb_matches sip sp dip dp"])
    case none
    have "\<not> tcb_matches sip sp dip dp t" if "tcbs k a = Some t" for a t
      using none(2) [of a] that d by auto
    with none(1) show thesis by (intro that(1)) (simp_all add: tcp_find_tcb_def)
  next
    case (found a n)
    then show thesis by (intro that(2) [of a n]) (simp_all add: tcp_find_tcb_def)
  qed
qed

section \<open>Properties\<close>

lemma ntohs_bytes: "ntohs (htons w) = w" "ntohl (htonl x) = x"
  by (simp_all add: ntohs_def ntohl_def)

lemma tcp_cast_image: "tcp_cast (tcp_image h @ body) = Some h"
  by (simp add: tcp_cast_def tcp_image_def st16_def st32_def) 

lemma tcp_segment_list_update:
  "(tcp_image (tcp_out_header t flags 0) @ body)[16 := ucast c, 17 := ucast (drop_bit 8 c)]
   = tcp_image (tcp_out_header t flags c) @ body"
  by (simp add: tcp_image_def tcp_out_header_def st16_def st32_def)




definition sample_tcb :: tcp_tcb where
  "sample_tcb = \<lparr>local_ip = 0x0A00020F, remote_ip = 0x0A000202, local_port = 80, remote_port = 40000,
     tcb_state = TCP_STATE_ESTABLISHED, snd_una = 1000, snd_nxt = 1001, rcv_nxt = 5000,
     rcv_wnd = 8192, snd_wnd = 8192, tcb_next = 0\<rparr>"

text \<open>A kernel without device and with one connection.\<close>

lemma sample_conn:
  "\<exists>k. net_inv k \<and> conns k [0x41000018] \<and> tcbs k = [0x41000018 \<mapsto> sample_tcb]
     \<and> tcp_tcb_list k = 0x41000018 \<and> current_mode (k_uart k) = MODE_PORTAL
     \<and> global_vnet_dev k = None \<and> aether_ip k = 0x0A00020F"
proof -
  obtain h where h: "heap_inv h" "live h 0x41000018 = Some 104" using sample_heap by blast
  let ?k = "(boot_state (\<lambda>_. 0) 0)\<lparr>k_heap := h, tcbs := [0x41000018 \<mapsto> sample_tcb], tcp_tcb_list := 0x41000018\<rparr>"
  have b: "tx_bufs ?k = {}" by (simp add: tx_bufs_def in_flight_def boot_state_def fresh_queue_def)
  have "tx_inv ?k"
    using h by (auto simp: tx_inv_def boot_state_def tx_up_def in_flight_def fresh_queue_def AETHER_MAC_ADDR_def)
  moreover have "conns ?k [0x41000018]"
    using h b by (simp add: conns_def sample_tcb_def TCB_SIZE_def)
  ultimately have "net_inv ?k" "conns ?k [0x41000018]" by (auto simp: net_inv_def)
  then show ?thesis by (intro exI [of _ ?k]) (simp add: boot_state_def AETHER_IP_ADDR_def)
qed


text \<open>
  C29: the pointer-linked connection list refines a sequence without repetition: removal deletes
  exactly that connection and frees its block, keeps the order and the contents of all others
  and everything else of the network state, and does nothing when the connection is not there.
\<close>

theorem tcp_remove_deletes_from_sequence:
  assumes "net_inv k" and "conns k as"
  shows "\<exists>k'. tcp_remove_tcb tcb k = Some k' \<and> net_inv k' \<and> conns k' (remove1 tcb as)
    \<and> live (k_heap k') = (if tcb \<in> set as then (live (k_heap k))(tcb := None) else live (k_heap k))
    \<and> ram (k_heap k') = ram (k_heap k)
    \<and> (\<forall>a. a \<noteq> tcb \<longrightarrow> map_option (tcb_next_update (\<lambda>_. 0)) (tcbs k' a)
          = map_option (tcb_next_update (\<lambda>_. 0)) (tcbs k a))"
proof (cases "tcb \<in> set as")
  case True
  then obtain us vs where as: "as = us @ tcb # vs" "tcb \<notin> set us" by (auto dest: split_list_first)
  have "remove1 tcb as = us @ vs" by (simp add: as remove1_append)
  then show ?thesis
    using tcp_remove_present [of k us tcb vs] assms True as(1) by (auto simp: net_inv_def)
next
  case False
  then show ?thesis
    using tcp_remove_absent [OF assms(2) False] assms by (simp add: remove1_idem)
qed

theorem tcp_remove_deletes_from_sequence_witness:
  "\<exists>k k'. conns k [0x41000018] \<and> tcp_remove_tcb 0x41000018 k = Some k' \<and> conns k' []
     \<and> live (k_heap k') 0x41000018 = None"
proof -
  obtain k where k: "net_inv k" "conns k [0x41000018]" using sample_conn by blast
  from tcp_remove_deletes_from_sequence [OF k, of "0x41000018"] k(2) show ?thesis by auto
qed

end
