(* ===== verification/Socket.thy ===== *)
theory Socket
  imports Tcp
begin

text \<open>
  The HTTP responder above TCP (src/drivers/ethernet/socket.c): one static page, sent in answer
  to whatever arrives on an established connection, after which the connection is closed.
\<close>

section \<open>The response\<close>

definition html_body :: bytes where
  "html_body =
     str ''<html>'' @ crlf @ str ''<head><title>Aether WebOS</title></head>'' @ crlf
     @ str ''<body>'' @ crlf @ str ''<h1>Welcome to Aether WebOS</h1>'' @ crlf
     @ str ''<p>Custom TCP Stack Running Bare Metal AArch64</p>'' @ crlf
     @ str ''</body>'' @ crlf @ str ''</html>'' @ crlf"

definition http_header_prefix :: bytes where
  "http_header_prefix =
     str ''HTTP/1.0 200 OK'' @ crlf @ str ''Content-Type: text/html'' @ crlf @ str ''Content-Length: ''"

text \<open>The request check, which nothing calls.\<close>

definition is_http_get :: "bytes \<Rightarrow> u16 \<Rightarrow> bool option" where
  "is_http_get data n =
     (if n < 3 then Some False
      else do { a \<leftarrow> ld8 data 0;
                if a \<noteq> 71 then Some False
                else do { b \<leftarrow> ld8 data 1;
                          if b \<noteq> 69 then Some False
                          else do { c \<leftarrow> ld8 data 2; Some (c = 84) } } })"

text \<open>The digits of the body's length, lowest first; the loop runs at least once.\<close>

function sock_digits :: "nat \<Rightarrow> bytes" where
  "sock_digits temp =
     (of_nat (temp mod 10) + 48) # (if 0 < temp div 10 then sock_digits (temp div 10) else [])"
  by pat_completeness auto
termination
  by (relation "measure id") auto

declare sock_digits.simps [simp del]

text \<open>
  \<open>response[offset++] = c\<close> for each byte of a string; the loop over the header prefix stops at
  its terminator. A store behind the 1024 bytes is a fault.
\<close>

fun resp_puts :: "bytes \<Rightarrow> bytes \<times> nat \<Rightarrow> (bytes \<times> nat) option" where
  "resp_puts [] (buf, off) = Some (buf, off)"
| "resp_puts (c # cs) (buf, off) = do { buf \<leftarrow> put buf off c; resp_puts cs (buf, off + 1) }"

definition build_response :: "bytes \<Rightarrow> (bytes \<times> nat) option" where
  "build_response response =
     do { r \<leftarrow> resp_puts (takeWhile (\<lambda>c. c \<noteq> 0) http_header_prefix) (response, 0);
          let body_len = length html_body;
          r \<leftarrow> resp_puts (rev (sock_digits body_len)) r;
          r \<leftarrow> resp_puts [13, 10, 13, 10] r;
          resp_puts html_body r }"

text \<open>
  The buffer is an uninitialised local. Only the bytes written before are sent, so its contents
  do not matter; the model starts from zeros.
\<close>

definition socket_dispatch :: "addr \<Rightarrow> bytes \<Rightarrow> u16 \<Rightarrow> kstate \<Rightarrow> kstate option" where
  "socket_dispatch tcb payload n k =
     do { let k = k_debugps (str ''[SOCKET] Packet received'' @ lf) k;
          let k = k_debugps (str ''[SOCKET] First bytes: '') k;
          b0 \<leftarrow> ld8 payload 0;
          let k = k_debugpc b0 k;
          b1 \<leftarrow> ld8 payload 1;
          let k = k_debugpc b1 k;
          b2 \<leftarrow> ld8 payload 2;
          let k = k_debugpc b2 k;
          let k = k_debugps lf k;
          let k = k_debugps (str ''[SOCKET] HTTP GET detected'' @ lf) k;
          (response, offset) \<leftarrow> build_response (replicate 1024 0);
          let k = k_debugps (str ''[SOCKET] Sending HTTP response'' @ lf) k;
          k \<leftarrow> tcp_send_data tcb response (of_nat offset) k;
          tcp_close tcb k }"

section \<open>What is sent\<close>

lemma resp_puts_splice:
  "off + length cs \<le> length buf \<Longrightarrow> resp_puts cs (buf, off) = Some (splice buf off cs, off + length cs)"
proof (induction cs arbitrary: buf off)
  case Nil
  then show ?case by simp
next
  case (Cons c cs)
  then have "off + 1 + length cs \<le> length (splice buf off [c])" by simp
  from Cons.IH [OF this] Cons.prems show ?case
    using splice_splice_next [of off "[c]" cs buf] by (simp add: put_splice)
qed

lemma sock_digits_dec_str: "rev (sock_digits n) = dec_str n"
proof (induction n rule: sock_digits.induct)
  case (1 n)
  show ?case
  proof (cases "0 < n div 10")
    case True
    with 1 have "rev (sock_digits (n div 10)) = dec_str (n div 10)" by blast
    with True show ?thesis
      by (subst sock_digits.simps) (simp add: dec_str_step [of n] digit_def del: div_greater_zero_iff)
  next
    case False
    then show ?thesis
      by (subst sock_digits.simps) (simp add: dec_str_step [of n] digit_def del: div_greater_zero_iff)
  qed
qed

definition http_response :: bytes where
  "http_response = http_header_prefix @ dec_str (length html_body) @ [13, 10, 13, 10] @ html_body"

lemma html_body_length: "length html_body = 162"
  by (simp add: html_body_def crlf_def)

lemma dec_str_162: "dec_str 162 = str ''162''"
  by (simp add: dec_str_def dec_digits_rev.simps str_eval)

lemma header_no_0: "0 \<notin> set http_header_prefix"
  by (simp add: http_header_prefix_def crlf_def str_eval)

lemma http_response_length: "length http_response = 227"
  by (simp add: http_response_def dec_str_162 html_body_length http_header_prefix_def crlf_def)

lemma splice_next_0:
  "length ws = q \<Longrightarrow> q + length vs \<le> length buf \<Longrightarrow> splice (splice buf 0 ws) q vs = splice buf 0 (ws @ vs)"
  using splice_splice_next [of 0 ws vs buf] by simp

lemma build_response_splice:
  assumes "length buf = 1024"
  shows "build_response buf = Some (splice buf 0 http_response, length http_response)"
proof -
  have tw: "takeWhile (\<lambda>c. c \<noteq> 0) http_header_prefix = http_header_prefix"
    by (subst takeWhile_eq_all_conv) (metis header_no_0)
  let ?p = http_header_prefix and ?d = "dec_str (length html_body)"
  have len: "length ?p + length ?d + 4 + length html_body \<le> 1024"
    using http_response_length by (simp add: http_response_def)
  show ?thesis
    using assms len unfolding build_response_def tw sock_digits_dec_str http_response_def
    by (simp add: resp_puts_splice splice_next_0 Let_def del: resp_puts.simps)
qed

section \<open>Dispatch\<close>

lemma k_debugpc_fields [simp]:
  "k_heap (k_debugpc s k) = k_heap k" "tx_queue (k_debugpc s k) = tx_queue k" "tcbs (k_debugpc s k) = tcbs k"
  "tcp_tcb_list (k_debugpc s k) = tcp_tcb_list k" "aether_mac (k_debugpc s k) = aether_mac k"
  "aether_ip (k_debugpc s k) = aether_ip k" "arp_cache (k_debugpc s k) = arp_cache k"
  "global_vnet_dev (k_debugpc s k) = global_vnet_dev k" "tcp_global_isn (k_debugpc s k) = tcp_global_isn k"
  "rx_queue (k_debugpc s k) = rx_queue k" "rx_buffers (k_debugpc s k) = rx_buffers k"
  "k_stats (k_debugpc s k) = k_stats k" "k_hw (k_debugpc s k) = k_hw k"
  by (simp_all add: k_debugpc_def)

lemma out_ok_debugpc [simp]: "out_ok k (k_debugpc s k') = out_ok k k'"
  using net_inv_cong(1) [of "k_debugpc s k'" k'] by (simp add: out_ok_def)

definition dispatch_printed :: "bytes \<Rightarrow> kstate \<Rightarrow> kstate" where
  "dispatch_printed payload k =
     k_debugps (str ''[SOCKET] Sending HTTP response'' @ lf)
      (k_debugps (str ''[SOCKET] HTTP GET detected'' @ lf) (k_debugps lf
        (k_debugpc (payload ! 2) (k_debugpc (payload ! 1) (k_debugpc (payload ! 0)
          (k_debugps (str ''[SOCKET] First bytes: '') (k_debugps (str ''[SOCKET] Packet received'' @ lf) k)))))))"

lemma dispatch_printed_fields [simp]:
  "tcbs (dispatch_printed p k) = tcbs k" "k_heap (dispatch_printed p k) = k_heap k"
  "out_ok k (dispatch_printed p k') = out_ok k k'"
  by (simp_all add: dispatch_printed_def)

definition response_image :: bytes where
  "response_image = splice (replicate 1024 0) 0 http_response"

lemma response_image_body: "take 227 response_image = http_response" "length response_image = 1024"
  using http_response_length by (simp_all add: response_image_def splice_def)

lemma socket_dispatch_eq:
  assumes "3 \<le> length payload"
  shows "socket_dispatch tcb payload n k =
    do { k \<leftarrow> tcp_send_data tcb response_image 227 (dispatch_printed payload k); tcp_close tcb k }"
proof -
  have ld: "ld8 payload 0 = Some (payload ! 0)" "ld8 payload 1 = Some (payload ! 1)" "ld8 payload 2 = Some (payload ! 2)"
    using assms by (auto simp: ld8_def)
  have br: "build_response (replicate 1024 0) = Some (response_image, 227)"
    by (simp add: build_response_splice http_response_length response_image_def)
  show ?thesis unfolding socket_dispatch_def ld br dispatch_printed_def by simp
qed

text \<open>The 4-tuple of a connection, which no operation but the passive open sets.\<close>

definition tcb_ends :: "tcp_tcb \<Rightarrow> u32 \<times> u16 \<times> u32 \<times> u16" where
  "tcb_ends t = (remote_ip t, remote_port t, local_ip t, local_port t)"

lemma tcb_matches_ends: "tcb_matches sip sp dip dp t \<longleftrightarrow> tcb_ends t = (sip, sp, dip, dp)"
  by (simp add: tcb_matches_def tcb_ends_def)

lemma tcb_ends_upd [simp]:
  "tcb_ends (t\<lparr>tcb_state := s\<rparr>) = tcb_ends t" "tcb_ends (t\<lparr>snd_una := v\<rparr>) = tcb_ends t"
  "tcb_ends (t\<lparr>snd_nxt := v\<rparr>) = tcb_ends t" "tcb_ends (t\<lparr>rcv_nxt := v\<rparr>) = tcb_ends t"
  "tcb_ends (t\<lparr>tcb_next := a\<rparr>) = tcb_ends t"
  by (simp_all add: tcb_ends_def)

lemma socket_dispatch_ok:
  assumes inv: "net_inv k" and t: "tcbs k a = Some t" and a: "a \<noteq> 0" and len: "3 \<le> length payload"
  shows "\<exists>k' t'. socket_dispatch a payload n k = Some k' \<and> out_ok k k' \<and> tcbs k' = (tcbs k)(a \<mapsto> t')
    \<and> (if tcb_state t = TCP_STATE_ESTABLISHED \<or> tcb_state t = TCP_STATE_CLOSE_WAIT
       then tcb_state t' = TCP_STATE_LAST_ACK else tcb_state t' = tcb_state t)
    \<and> rcv_nxt t' = rcv_nxt t \<and> snd_una t' = snd_una t \<and> tcb_ends t' = tcb_ends t"
proof -
  let ?k = "dispatch_printed payload k"
  have o: "out_ok k ?k" using out_ok_refl [OF inv] by simp
  then have i: "net_inv ?k" by (simp add: out_ok_def)
  have t': "tcbs ?k a = Some t" using t by simp
  have n: "unat (227 :: u16) \<le> length response_image" "unat (227 :: u16) \<le> 65515"
    by (simp_all add: response_image_body)
  from tcp_send_data_ok [OF i t' a n] obtain k1 t1 where k1: "tcp_send_data a response_image 227 ?k = Some k1"
    "out_ok ?k k1" "tcbs k1 = (tcbs ?k)(a \<mapsto> t1)"
    "t1 = t \<or> tcb_state t = TCP_STATE_ESTABLISHED \<and> t1 = t\<lparr>snd_nxt := snd_nxt t + ucast (227 :: u16)\<rparr>" by blast
  have s1: "tcb_state t1 = tcb_state t" "rcv_nxt t1 = rcv_nxt t" "snd_una t1 = snd_una t" "tcb_ends t1 = tcb_ends t"
    using k1(4) by auto
  have i1: "net_inv k1" "tcbs k1 a = Some t1" using k1(2,3) by (simp_all add: out_ok_def)
  from tcp_close_ok [OF i1 a] obtain k2 t2 where k2: "tcp_close a k1 = Some k2" "out_ok k1 k2"
    "tcbs k2 = (tcbs k1)(a \<mapsto> t2)"
    "if tcb_state t1 = TCP_STATE_ESTABLISHED \<or> tcb_state t1 = TCP_STATE_CLOSE_WAIT
       then t2 = t1\<lparr>tcb_state := TCP_STATE_LAST_ACK\<rparr>
         \<or> t2 = t1\<lparr>tcb_state := TCP_STATE_LAST_ACK, snd_nxt := snd_nxt t1 + 1\<rparr>
       else t2 = t1" by blast
  show ?thesis
  proof (intro exI conjI)
    show "socket_dispatch a payload n k = Some k2"
      using k1(1) k2(1) by (simp add: socket_dispatch_eq [OF len])
    show "out_ok k k2" by (rule out_ok_trans [OF out_ok_trans [OF o k1(2)] k2(2)])
    show "tcbs k2 = (tcbs k)(a \<mapsto> t2)" using k1(3) k2(3) by simp
    show "if tcb_state t = TCP_STATE_ESTABLISHED \<or> tcb_state t = TCP_STATE_CLOSE_WAIT
       then tcb_state t2 = TCP_STATE_LAST_ACK else tcb_state t2 = tcb_state t"
      using k2(4) s1(1) by (auto split: if_splits)
    show "rcv_nxt t2 = rcv_nxt t" "snd_una t2 = snd_una t" "tcb_ends t2 = tcb_ends t"
      using k2(4) s1 by (auto split: if_splits)
  qed
qed

section \<open>Properties\<close>

text \<open>
  C30: the HTTP response fits its 1024-byte stack buffer whatever the buffer held before, and is a
  complete HTTP/1.0 message: status line, type, a Content-Length that is the decimal numeral of
  the body's actual length, an empty line, and the page.
\<close>

theorem http_response_is_complete:
  assumes "length buf = 1024"
  shows "\<exists>buf' n. build_response buf = Some (buf', n) \<and> n \<le> 1024 \<and> length buf' = 1024
    \<and> take n buf' = http_header_prefix @ dec_str (length html_body) @ crlf @ crlf @ html_body
    \<and> dec_value (dec_str (length html_body)) = length html_body
    \<and> drop n buf' = drop n buf"
proof -
  have "take (length http_response) (splice buf 0 http_response) = http_response"
    "drop (length http_response) (splice buf 0 http_response) = drop (length http_response) buf"
    by (simp_all add: splice_def)
  moreover have "http_response = http_header_prefix @ dec_str (length html_body) @ crlf @ crlf @ html_body"
    by (simp add: http_response_def crlf_def)
  ultimately show ?thesis
    using build_response_splice [OF assms] assms http_response_length
    by (intro exI [of _ "splice buf 0 http_response"] exI [of _ "length http_response"])
      (simp add: dec_str_value)
qed

theorem http_response_is_complete_witness:
  "\<exists>buf' n. build_response (replicate 1024 0xAA) = Some (buf', n) \<and> n \<le> 1024"
  using http_response_is_complete [of "replicate 1024 0xAA"] by auto

end
