(* ===== verification/Tcp_Input.thy ===== *)
theory Tcp_Input
  imports Socket
begin

text \<open>
  TCP input (src/drivers/ethernet/tcp/tcp_input.c): the checks on an incoming segment, the
  lookup, the passive open and the state machine. Each branch of the state switch is a function.
\<close>

section \<open>The branches\<close>

definition tcp_passive_open ::
  "u32 \<Rightarrow> u16 \<Rightarrow> u32 \<Rightarrow> u16 \<Rightarrow> u32 \<Rightarrow> kstate \<Rightarrow> kstate option" where
  "tcp_passive_open src_ip src_port dst_ip dst_port seg_seq k =
     do { let k = k_debugps (str ''[TCP] New connection request (SYN)'' @ lf) k;
          (tcb, k) \<leftarrow> tcp_allocate_tcb k;
          if tcb = 0 then Some k
          else do {
            k \<leftarrow> k_set_tcb tcb (\<lambda>t. t\<lparr>remote_ip := src_ip, remote_port := src_port,
                   local_port := dst_port, local_ip := dst_ip, rcv_nxt := seg_seq + 1,
                   snd_una := tcp_global_isn k, snd_nxt := tcp_global_isn k\<rparr>) k;
            let k = k\<lparr>tcp_global_isn := tcp_global_isn k + 1000\<rparr>;
            k \<leftarrow> k_set_tcb tcb (\<lambda>t. t\<lparr>tcb_state := TCP_STATE_SYN_RECEIVED\<rparr>) k;
            tcp_send_synack tcb k } }"

definition tcp_in_syn_received :: "addr \<Rightarrow> u8 \<Rightarrow> u32 \<Rightarrow> kstate \<Rightarrow> kstate option" where
  "tcp_in_syn_received tcb flags seg_ack k =
     (if flags AND TCP_FLAG_ACK \<noteq> 0
      then do { k \<leftarrow> k_set_tcb tcb (\<lambda>t. t\<lparr>snd_una := seg_ack, tcb_state := TCP_STATE_ESTABLISHED\<rparr>) k;
                Some (k_debugps (str ''[TCP] 3-way handshake complete.'' @ lf) k) }
      else Some k)"

definition tcp_in_data :: "addr \<Rightarrow> u32 \<Rightarrow> bytes \<Rightarrow> u16 \<Rightarrow> kstate \<Rightarrow> kstate option" where
  "tcp_in_data tcb seg_seq payload payload_len k =
     (if 0 < payload_len
      then do { t \<leftarrow> tcbs k tcb;
                if seg_seq = rcv_nxt t
                then do { k \<leftarrow> k_set_tcb tcb (\<lambda>t. t\<lparr>rcv_nxt := rcv_nxt t + ucast payload_len\<rparr>) k;
                          k \<leftarrow> socket_dispatch tcb payload payload_len k;
                          tcp_send_ack tcb k }
                else Some k }
      else Some k)"

definition tcp_in_fin :: "addr \<Rightarrow> u8 \<Rightarrow> u32 \<Rightarrow> kstate \<Rightarrow> kstate option" where
  "tcp_in_fin tcb flags seg_seq k =
     (if flags AND TCP_FLAG_FIN \<noteq> 0
      then do { k \<leftarrow> k_set_tcb tcb (\<lambda>t. t\<lparr>rcv_nxt := seg_seq + 1\<rparr>) k;
                k \<leftarrow> tcp_send_ack tcb k;
                k \<leftarrow> k_set_tcb tcb (\<lambda>t. t\<lparr>tcb_state := TCP_STATE_CLOSE_WAIT\<rparr>) k;
                tcp_close tcb k }
      else Some k)"

definition tcp_in_last_ack :: "addr \<Rightarrow> u8 \<Rightarrow> kstate \<Rightarrow> kstate option" where
  "tcp_in_last_ack tcb flags k =
     (if flags AND TCP_FLAG_ACK \<noteq> 0
      then do { let k = k_debugps (str ''[TCP] Connection closed gracefully.'' @ lf) k;
                k \<leftarrow> k_set_tcb tcb (\<lambda>t. t\<lparr>tcb_state := TCP_STATE_CLOSED\<rparr>) k;
                tcp_remove_tcb tcb k }
      else Some k)"

definition tcp_in_other :: "addr \<Rightarrow> u8 \<Rightarrow> kstate \<Rightarrow> kstate option" where
  "tcp_in_other tcb flags k = (if flags AND TCP_FLAG_RST \<noteq> 0 then tcp_remove_tcb tcb k else Some k)"

definition tcp_state_switch ::
  "addr \<Rightarrow> u8 \<Rightarrow> u32 \<Rightarrow> u32 \<Rightarrow> bytes \<Rightarrow> u16 \<Rightarrow> kstate \<Rightarrow> kstate option" where
  "tcp_state_switch tcb flags seg_seq seg_ack payload payload_len k =
     do { t \<leftarrow> tcbs k tcb;
          case tcb_state t of
            TCP_STATE_SYN_RECEIVED \<Rightarrow> tcp_in_syn_received tcb flags seg_ack k
          | TCP_STATE_ESTABLISHED \<Rightarrow>
              do { k \<leftarrow> tcp_in_data tcb seg_seq payload payload_len k; tcp_in_fin tcb flags seg_seq k }
          | TCP_STATE_LAST_ACK \<Rightarrow> tcp_in_last_ack tcb flags k
          | _ \<Rightarrow> tcp_in_other tcb flags k }"

section \<open>The entry point\<close>

definition tcp_input_process :: "bytes \<Rightarrow> u16 \<Rightarrow> u32 \<Rightarrow> u32 \<Rightarrow> kstate \<Rightarrow> kstate option" where
  "tcp_input_process segment n src_ip dst_ip k =
     (if n < TCP_HDR_SIZE then Some k
      else do {
        hdr \<leftarrow> tcp_cast segment;
        let src_port = ntohs (th_src_port hdr);
        let dst_port = ntohs (th_dst_port hdr);
        let seg_seq = ntohl (th_seq hdr);
        let seg_ack = ntohl (th_ack hdr);
        let flags = th_flags hdr;
        let header_len = drop_bit 4 (th_offset_reserved hdr) * 4;
        if header_len < 20 \<or> n < ucast header_len then Some k
        else do {
          let payload = drop (unat header_len) segment;
          let payload_len = n - ucast header_len;
          valid \<leftarrow> tcp_validate_checksum src_ip dst_ip segment n;
          if \<not> valid then Some (k_debugps (str ''[TCP] Checksum fail. Dropped.'' @ lf) k)
          else do {
            tcb \<leftarrow> tcp_find_tcb src_ip src_port dst_ip dst_port k;
            if tcb = 0
            then if flags AND TCP_FLAG_SYN \<noteq> 0 \<and> dst_port = 80
                 then tcp_passive_open src_ip src_port dst_ip dst_port seg_seq k
                 else tcp_send_rst dst_ip src_ip dst_port src_port seg_ack 0 k
            else tcp_state_switch tcb flags seg_seq seg_ack payload payload_len k } } })"

section \<open>What input leaves alone\<close>

text \<open>
  Input may free a connection's block, so what it promises to others is about the blocks that
  are not connections.
\<close>

definition in_ok :: "kstate \<Rightarrow> kstate \<Rightarrow> bool" where
  "in_ok k k' \<longleftrightarrow> net_inv k'
     \<and> (\<forall>p n. live (k_heap k) p = Some n \<and> p \<notin> dom (tcbs k) \<longrightarrow>
          live (k_heap k') p = Some n \<and> ram_read (ram (k_heap k')) p n = ram_read (ram (k_heap k)) p n)
     \<and> arp_cache k' = arp_cache k \<and> aether_ip k' = aether_ip k \<and> aether_mac k' = aether_mac k
     \<and> rx_queue k' = rx_queue k \<and> rx_buffers k' = rx_buffers k
     \<and> global_vnet_dev k' = global_vnet_dev k"

lemma out_ok_in_ok: "out_ok k k' \<Longrightarrow> in_ok k k'"
  by (auto simp: out_ok_def in_ok_def heap_ext_def)

lemma in_ok_after_out: "out_ok k k' \<Longrightarrow> in_ok k' k'' \<Longrightarrow> in_ok k k''"
  unfolding in_ok_def out_ok_def heap_ext_def by auto

lemma in_ok_refl: "net_inv k \<Longrightarrow> in_ok k k"
  by (simp add: in_ok_def)

section \<open>The branches, one by one\<close>

lemma conns_nonnull: "net_inv k \<Longrightarrow> tcbs k a = Some t \<Longrightarrow> a \<noteq> 0"
  by (metis conns_parts(2,4) domI net_inv_def)

lemma k_set_tcb_some: "tcbs k a = Some t \<Longrightarrow> k_set_tcb a f k = Some (k\<lparr>tcbs := (tcbs k)(a \<mapsto> f t)\<rparr>)"
  by (simp add: k_set_tcb_def)

lemma net_inv_isn: "net_inv (k\<lparr>tcp_global_isn := i\<rparr>) = net_inv k"
  by (rule net_inv_cong) simp_all

lemma tcp_in_data_ok:
  assumes inv: "net_inv k" and t: "tcbs k a = Some t" and est: "tcb_state t = TCP_STATE_ESTABLISHED"
    and len: "0 < n \<longrightarrow> 3 \<le> length payload"
  shows "\<exists>k' t'. tcp_in_data a seq payload n k = Some k' \<and> out_ok k k' \<and> tcbs k' = (tcbs k)(a \<mapsto> t')
    \<and> (if 0 < n \<and> seq = rcv_nxt t
       then tcb_state t' = TCP_STATE_LAST_ACK \<and> rcv_nxt t' = rcv_nxt t + ucast n \<and> snd_una t' = snd_una t
         \<and> tcb_ends t' = tcb_ends t
       else t' = t)"
proof (cases "0 < n \<and> seq = rcv_nxt t")
  case False
  then show ?thesis
    using inv t out_ok_refl by (auto simp: tcp_in_data_def fun_upd_idem intro!: exI [of _ t])
next
  case True
  let ?t = "t\<lparr>rcv_nxt := rcv_nxt t + ucast n\<rparr>"
  let ?k = "k\<lparr>tcbs := (tcbs k)(a \<mapsto> ?t)\<rparr>"
  have o: "out_ok k ?k" by (rule out_ok_set_tcb [OF inv t]) simp
  then have i: "net_inv ?k" by (simp add: out_ok_def)
  have l: "3 \<le> length payload" and ta: "tcbs ?k a = Some ?t" using len True by simp_all
  from socket_dispatch_ok [OF i ta conns_nonnull [OF inv t] l, of n] obtain k1 t1 where
    k1: "socket_dispatch a payload n ?k = Some k1" "out_ok ?k k1" "tcbs k1 = (tcbs ?k)(a \<mapsto> t1)"
    "tcb_state t1 = TCP_STATE_LAST_ACK" "rcv_nxt t1 = rcv_nxt t + ucast n" "snd_una t1 = snd_una t"
    "tcb_ends t1 = tcb_ends t"
    using est by auto
  have i1: "net_inv k1" "tcbs k1 a = Some t1" using k1(2,3) by (simp_all add: out_ok_def)
  from tcp_send_ack_ok [OF i1] obtain k2 where
    k2: "tcp_send_ack a k1 = Some k2" "out_ok k1 k2" "tcbs k2 = tcbs k1" by blast
  show ?thesis
    unfolding if_P [OF True]
  proof (intro exI conjI)
    show "tcp_in_data a seq payload n k = Some k2"
      using True t k1(1) k2(1) by (simp add: tcp_in_data_def k_set_tcb_def)
    show "out_ok k k2" by (rule out_ok_trans [OF out_ok_trans [OF o k1(2)] k2(2)])
    show "tcbs k2 = (tcbs k)(a \<mapsto> t1)" using k2(3) k1(3) by simp
  qed (rule k1(4-7))+
qed

lemma tcp_in_fin_ok:
  assumes inv: "net_inv k" and t: "tcbs k a = Some t"
  shows "\<exists>k' t'. tcp_in_fin a flags seq k = Some k' \<and> out_ok k k' \<and> tcbs k' = (tcbs k)(a \<mapsto> t')
    \<and> (if flags AND TCP_FLAG_FIN \<noteq> 0
       then tcb_state t' = TCP_STATE_LAST_ACK \<and> rcv_nxt t' = seq + 1 \<and> snd_una t' = snd_una t
         \<and> tcb_ends t' = tcb_ends t
       else t' = t)"
proof (cases "flags AND TCP_FLAG_FIN \<noteq> 0")
  case False
  then show ?thesis
    using inv t out_ok_refl by (auto simp: tcp_in_fin_def fun_upd_idem intro!: exI [of _ t])
next
  case True
  let ?t = "t\<lparr>rcv_nxt := seq + 1\<rparr>"
  let ?k = "k\<lparr>tcbs := (tcbs k)(a \<mapsto> ?t)\<rparr>"
  have o: "out_ok k ?k" by (rule out_ok_set_tcb [OF inv t]) simp
  then have i: "net_inv ?k" by (simp add: out_ok_def)
  have ta: "tcbs ?k a = Some ?t" by simp
  from tcp_send_ack_ok [OF i ta] obtain k1 where
    k1: "tcp_send_ack a ?k = Some k1" "out_ok ?k k1" "tcbs k1 = tcbs ?k" by blast
  let ?t2 = "?t\<lparr>tcb_state := TCP_STATE_CLOSE_WAIT\<rparr>"
  let ?k2 = "k1\<lparr>tcbs := (tcbs k1)(a \<mapsto> ?t2)\<rparr>"
  have i1: "net_inv k1" "tcbs k1 a = Some ?t" using k1(2,3) by (simp_all add: out_ok_def)
  have o2: "out_ok k1 ?k2" by (rule out_ok_set_tcb [OF i1]) simp
  then have i2: "net_inv ?k2" by (simp add: out_ok_def)
  have ta2: "tcbs ?k2 a = Some ?t2" by simp
  from tcp_close_ok [OF i2 ta2 conns_nonnull [OF inv t]] obtain k3 t3 where
    k3: "tcp_close a ?k2 = Some k3" "out_ok ?k2 k3" "tcbs k3 = (tcbs ?k2)(a \<mapsto> t3)"
    "t3 = ?t2\<lparr>tcb_state := TCP_STATE_LAST_ACK\<rparr>
         \<or> t3 = ?t2\<lparr>tcb_state := TCP_STATE_LAST_ACK, snd_nxt := snd_nxt ?t2 + 1\<rparr>" by auto
  show ?thesis
    unfolding if_P [OF True]
  proof (intro exI conjI)
    show "tcp_in_fin a flags seq k = Some k3"
      using True t k1(1) k3(1) i1(2) by (simp add: tcp_in_fin_def k_set_tcb_def)
    show "out_ok k k3" by (rule out_ok_trans [OF out_ok_trans [OF out_ok_trans [OF o k1(2)] o2] k3(2)])
    show "tcbs k3 = (tcbs k)(a \<mapsto> t3)" using k3(3) k1(3) by simp
    show "tcb_state t3 = TCP_STATE_LAST_ACK" "rcv_nxt t3 = seq + 1" "snd_una t3 = snd_una t"
      "tcb_ends t3 = tcb_ends t"
      using k3(4) by auto
  qed
qed

text \<open>All connections but one are as before, up to the link that leads around it.\<close>

definition others_same :: "addr \<Rightarrow> kstate \<Rightarrow> kstate \<Rightarrow> bool" where
  "others_same a k k' \<longleftrightarrow> (\<forall>b. b \<noteq> a \<longrightarrow>
     map_option (tcb_next_update (\<lambda>_. 0)) (tcbs k' b) = map_option (tcb_next_update (\<lambda>_. 0)) (tcbs k b))"

lemma others_same_upd: "tcbs k' = (tcbs k)(a \<mapsto> t) \<Longrightarrow> others_same a k k'"
  by (simp add: others_same_def)

lemma tcp_remove_in_ok:
  assumes inv: "net_inv k" and t: "tcbs k a = Some t"
  shows "\<exists>k'. tcp_remove_tcb a k = Some k' \<and> in_ok k k' \<and> others_same a k k' \<and> tcbs k' a = None"
proof -
  from inv obtain as where c: "conns k as" and tx: "tx_inv k" by (auto simp: net_inv_def)
  have "a \<in> set as" using conns_parts(2) [OF c] t by auto
  then obtain us vs where as: "as = us @ a # vs" by (auto dest: split_list)
  from tcp_remove_present [OF tx c [unfolded as]] obtain k' where
    k': "tcp_remove_tcb a k = Some k'" "net_inv k'" "conns k' (us @ vs)"
    "live (k_heap k') = (live (k_heap k))(a := None)" "ram (k_heap k') = ram (k_heap k)"
    "\<forall>b. b \<noteq> a \<longrightarrow> map_option (tcb_next_update (\<lambda>_. 0)) (tcbs k' b)
          = map_option (tcb_next_update (\<lambda>_. 0)) (tcbs k b)"
    "arp_cache k' = arp_cache k" "aether_ip k' = aether_ip k" "aether_mac k' = aether_mac k"
    "rx_queue k' = rx_queue k" "rx_buffers k' = rx_buffers k" "global_vnet_dev k' = global_vnet_dev k" by blast
  have "a \<notin> set us \<union> set vs" using conns_parts(3) [OF c] as by auto
  then have "tcbs k' a = None" using conns_parts(2) [OF k'(3)] by auto
  moreover have "a \<in> dom (tcbs k)" using t by auto
  then have "in_ok k k'" using k' by (auto simp: in_ok_def)
  ultimately show ?thesis using k'(1,6) by (auto simp: others_same_def)
qed

text \<open>
  The abstract state machine of a connection: the next state, or \<^term>\<open>None\<close> when the connection
  is gone, from the state, the flags and whether the segment carries the next data.
\<close>

definition tcp_spec :: "tcp_state_t \<Rightarrow> u8 \<Rightarrow> bool \<Rightarrow> tcp_state_t option" where
  "tcp_spec s flags next_data =
     (case s of
        TCP_STATE_SYN_RECEIVED \<Rightarrow> Some (if flags AND TCP_FLAG_ACK \<noteq> 0 then TCP_STATE_ESTABLISHED else s)
      | TCP_STATE_ESTABLISHED \<Rightarrow>
          Some (if next_data \<or> flags AND TCP_FLAG_FIN \<noteq> 0 then TCP_STATE_LAST_ACK else s)
      | TCP_STATE_LAST_ACK \<Rightarrow> (if flags AND TCP_FLAG_ACK \<noteq> 0 then None else Some s)
      | _ \<Rightarrow> (if flags AND TCP_FLAG_RST \<noteq> 0 then None else Some s))"

definition tcp_after :: "addr \<Rightarrow> tcp_tcb \<Rightarrow> u8 \<Rightarrow> u32 \<Rightarrow> u32 \<Rightarrow> u16 \<Rightarrow> kstate \<Rightarrow> bool" where
  "tcp_after a t flags seq ack n k' \<longleftrightarrow>
     (case tcp_spec (tcb_state t) flags (0 < n \<and> seq = rcv_nxt t) of
        None \<Rightarrow> tcbs k' a = None
      | Some s \<Rightarrow> \<exists>t'. tcbs k' a = Some t' \<and> tcb_state t' = s \<and> tcb_ends t' = tcb_ends t
          \<and> rcv_nxt t' = (if tcb_state t = TCP_STATE_ESTABLISHED \<and> flags AND TCP_FLAG_FIN \<noteq> 0 then seq + 1
               else if tcb_state t = TCP_STATE_ESTABLISHED \<and> 0 < n \<and> seq = rcv_nxt t then rcv_nxt t + ucast n
               else rcv_nxt t)
          \<and> snd_una t' = (if tcb_state t = TCP_STATE_SYN_RECEIVED \<and> flags AND TCP_FLAG_ACK \<noteq> 0
               then ack else snd_una t))"

lemma tcp_in_syn_received_ok:
  assumes inv: "net_inv k" and t: "tcbs k a = Some t" and st: "tcb_state t = TCP_STATE_SYN_RECEIVED"
  shows "\<exists>k'. tcp_in_syn_received a flags ack k = Some k' \<and> in_ok k k' \<and> others_same a k k'
    \<and> tcp_after a t flags seq ack n k'"
proof (cases "flags AND TCP_FLAG_ACK \<noteq> 0")
  case True
  let ?t = "t\<lparr>snd_una := ack, tcb_state := TCP_STATE_ESTABLISHED\<rparr>"
  have o: "out_ok k (k\<lparr>tcbs := (tcbs k)(a \<mapsto> ?t)\<rparr>)" by (rule out_ok_set_tcb [OF inv t]) simp
  have run: "tcp_in_syn_received a flags ack k =
      Some (k_debugps (str ''[TCP] 3-way handshake complete.'' @ lf) (k\<lparr>tcbs := (tcbs k)(a \<mapsto> ?t)\<rparr>))"
    using True by (simp add: tcp_in_syn_received_def k_set_tcb_some [of k a t, OF t])
  show ?thesis
    unfolding run using out_ok_in_ok [of k] o True st
    by (simp add: others_same_def tcp_after_def tcp_spec_def)
next
  case False
  then show ?thesis
    using in_ok_refl [OF inv] t st by (simp add: tcp_in_syn_received_def others_same_def tcp_after_def tcp_spec_def)
qed

lemma tcp_in_established_ok:
  assumes inv: "net_inv k" and t: "tcbs k a = Some t" and est: "tcb_state t = TCP_STATE_ESTABLISHED"
    and len: "0 < n \<longrightarrow> 3 \<le> length payload"
  shows "\<exists>k'. do { k \<leftarrow> tcp_in_data a seq payload n k; tcp_in_fin a flags seq k } = Some k'
    \<and> in_ok k k' \<and> others_same a k k' \<and> tcp_after a t flags seq ack n k'"
proof -
  from tcp_in_data_ok [OF assms, of seq] obtain k1 t1 where
    k1: "tcp_in_data a seq payload n k = Some k1" "out_ok k k1" "tcbs k1 = (tcbs k)(a \<mapsto> t1)"
    "if 0 < n \<and> seq = rcv_nxt t
       then tcb_state t1 = TCP_STATE_LAST_ACK \<and> rcv_nxt t1 = rcv_nxt t + ucast n \<and> snd_una t1 = snd_una t
         \<and> tcb_ends t1 = tcb_ends t
       else t1 = t" by blast
  have i1: "net_inv k1" "tcbs k1 a = Some t1" using k1(2,3) by (simp_all add: out_ok_def)
  from tcp_in_fin_ok [OF i1, of flags seq] obtain k2 t2 where
    k2: "tcp_in_fin a flags seq k1 = Some k2" "out_ok k1 k2" "tcbs k2 = (tcbs k1)(a \<mapsto> t2)"
    "if flags AND TCP_FLAG_FIN \<noteq> 0
       then tcb_state t2 = TCP_STATE_LAST_ACK \<and> rcv_nxt t2 = seq + 1 \<and> snd_una t2 = snd_una t1
         \<and> tcb_ends t2 = tcb_ends t1
       else t2 = t1" by blast
  have tc: "tcbs k2 = (tcbs k)(a \<mapsto> t2)" using k1(3) k2(3) by simp
  have "tcp_after a t flags seq ack n k2"
    using k1(4) k2(4) est unfolding tcp_after_def tcp_spec_def tc by (auto split: if_splits)
  moreover have "in_ok k k2" by (rule out_ok_in_ok [OF out_ok_trans [OF k1(2) k2(2)]])
  ultimately show ?thesis using k1(1) k2(1) others_same_upd [OF tc] by simp
qed

lemma tcp_in_last_ack_ok:
  assumes inv: "net_inv k" and t: "tcbs k a = Some t" and st: "tcb_state t = TCP_STATE_LAST_ACK"
  shows "\<exists>k'. tcp_in_last_ack a flags k = Some k' \<and> in_ok k k' \<and> others_same a k k'
    \<and> tcp_after a t flags seq ack n k'"
proof (cases "flags AND TCP_FLAG_ACK \<noteq> 0")
  case True
  let ?t = "t\<lparr>tcb_state := TCP_STATE_CLOSED\<rparr>"
  let ?kd = "k_debugps (str ''[TCP] Connection closed gracefully.'' @ lf) k"
  let ?k = "?kd\<lparr>tcbs := (tcbs ?kd)(a \<mapsto> ?t)\<rparr>"
  have od: "out_ok k ?kd" using out_ok_refl [OF inv] by simp
  then have i: "net_inv ?kd" by (simp add: out_ok_def)
  have td: "tcbs ?kd a = Some t" using t by simp
  have o: "out_ok k ?k" by (rule out_ok_trans [OF od out_ok_set_tcb [OF i td]]) simp
  then have i2: "net_inv ?k" by (simp add: out_ok_def)
  have ta: "tcbs ?k a = Some ?t" by simp
  from tcp_remove_in_ok [OF i2 ta] obtain k' where
    k': "tcp_remove_tcb a ?k = Some k'" "in_ok ?k k'" "others_same a ?k k'" "tcbs k' a = None" by blast
  have "tcp_in_last_ack a flags k = Some k'"
    using True k'(1) by (simp add: tcp_in_last_ack_def k_set_tcb_some [OF td])
  moreover have "others_same a k k'" using k'(3) by (simp add: others_same_def)
  moreover have "tcp_after a t flags seq ack n k'" using True st k'(4) by (simp add: tcp_after_def tcp_spec_def)
  ultimately show ?thesis using in_ok_after_out [OF o k'(2)] by blast
next
  case False
  then show ?thesis
    using in_ok_refl [OF inv] t st by (simp add: tcp_in_last_ack_def others_same_def tcp_after_def tcp_spec_def)
qed

lemma tcp_in_other_ok:
  assumes inv: "net_inv k" and t: "tcbs k a = Some t"
    and st: "tcb_state t \<notin> {TCP_STATE_SYN_RECEIVED, TCP_STATE_ESTABLISHED, TCP_STATE_LAST_ACK}"
  shows "\<exists>k'. tcp_in_other a flags k = Some k' \<and> in_ok k k' \<and> others_same a k k'
    \<and> tcp_after a t flags seq ack n k'"
proof (cases "flags AND TCP_FLAG_RST \<noteq> 0")
  case True
  from tcp_remove_in_ok [OF inv t] obtain k' where
    "tcp_remove_tcb a k = Some k'" "in_ok k k'" "others_same a k k'" "tcbs k' a = None" by blast
  then show ?thesis using True st
    by (auto simp: tcp_in_other_def tcp_after_def tcp_spec_def split: tcp_state_t.splits)
next
  case False
  then show ?thesis
    using in_ok_refl [OF inv] t st
    by (auto simp: tcp_in_other_def others_same_def tcp_after_def tcp_spec_def split: tcp_state_t.splits)
qed

lemma tcp_state_switch_ok:
  assumes inv: "net_inv k" and t: "tcbs k a = Some t" and len: "0 < n \<longrightarrow> 3 \<le> length payload"
  shows "\<exists>k'. tcp_state_switch a flags seq ack payload n k = Some k' \<and> in_ok k k' \<and> others_same a k k'
    \<and> tcp_after a t flags seq ack n k'"
proof (cases "tcb_state t")
  case TCP_STATE_SYN_RECEIVED
  with tcp_in_syn_received_ok [OF inv t] t show ?thesis by (simp add: tcp_state_switch_def)
next
  case TCP_STATE_ESTABLISHED
  with tcp_in_established_ok [OF inv t _ len] t show ?thesis by (simp add: tcp_state_switch_def)
next
  case TCP_STATE_LAST_ACK
  with tcp_in_last_ack_ok [OF inv t] t show ?thesis by (simp add: tcp_state_switch_def)
qed (use tcp_in_other_ok [OF inv t] t in \<open>simp add: tcp_state_switch_def\<close>)+

section \<open>The passive open\<close>

definition passive_tcb :: "u32 \<Rightarrow> u16 \<Rightarrow> u32 \<Rightarrow> u16 \<Rightarrow> u32 \<Rightarrow> kstate \<Rightarrow> tcp_tcb" where
  "passive_tcb src_ip src_port dst_ip dst_port seq k =
     \<lparr>local_ip = dst_ip, remote_ip = src_ip, local_port = dst_port, remote_port = src_port,
      tcb_state = TCP_STATE_SYN_RECEIVED, snd_una = tcp_global_isn k, snd_nxt = tcp_global_isn k,
      rcv_nxt = seq + 1, rcv_wnd = TCP_DEFAULT_WINDOW, snd_wnd = TCP_DEFAULT_WINDOW,
      tcb_next = tcp_tcb_list k\<rparr>"

lemma new_conn_isn:
  assumes c: "conns k (p # as)" and tx: "tx_inv k" and t: "tcbs k p = Some t" and n: "tcb_next t' = tcb_next t"
  shows "net_inv (k\<lparr>tcbs := (tcbs k)(p \<mapsto> t'), tcp_global_isn := i\<rparr>)"
    and "conns (k\<lparr>tcbs := (tcbs k)(p \<mapsto> t'), tcp_global_isn := i\<rparr>) (p # as)"
proof -
  have inv: "net_inv k" using c tx by (auto simp: net_inv_def)
  let ?k = "k\<lparr>tcbs := (tcbs k)(p \<mapsto> t')\<rparr>"
  have "net_inv ?k" by (rule net_inv_set_tcb [OF inv t n])
  then show i: "net_inv (k\<lparr>tcbs := (tcbs k)(p \<mapsto> t'), tcp_global_isn := i\<rparr>)"
    using net_inv_isn [of i ?k] by simp
  have d: "dom ((tcbs k)(p \<mapsto> t')) = dom (tcbs k)" using t by auto
  have "path tcb_next ((tcbs k)(p \<mapsto> t')) (tcp_tcb_list k) (p # as)"
    using c path_upd_same [of "tcbs k" p t tcb_next t'] t n by (simp add: conns_def)
  then show "conns (k\<lparr>tcbs := (tcbs k)(p \<mapsto> t'), tcp_global_isn := i\<rparr>) (p # as)"
    using c by (simp add: conns_def d tx_bufs_def tx_buf_def [abs_def] del: dom_fun_upd)
qed

lemma out_ok_conns:
  assumes o: "out_ok k k'" and c: "conns k as" and m: "tcbs k' = (tcbs k)(a \<mapsto> t')"
    and t: "tcbs k a = Some t" and n: "tcb_next t' = tcb_next t"
  shows "conns k' as"
proof -
  from o obtain bs where b: "conns k' bs" by (auto simp: out_ok_def net_inv_def)
  have "path tcb_next (tcbs k') (tcp_tcb_list k') as"
    using c o t n path_upd_same [of "tcbs k" a t tcb_next t'] by (simp add: conns_def out_ok_def m)
  then have "as = bs" using b by (auto simp: conns_def intro: path_unique)
  with b show ?thesis by simp
qed

lemma tcp_passive_open_ok:
  assumes inv: "net_inv k"
  shows "\<exists>k'. tcp_passive_open sip sp dip dp seq k = Some k' \<and> in_ok k k'
    \<and> (tcbs k' = tcbs k
       \<or> (\<exists>p t'. tcbs k p = None \<and> tcbs k' = (tcbs k)(p \<mapsto> t') \<and> (\<forall>as. conns k as \<longrightarrow> conns k' (p # as))
            \<and> tcp_global_isn k' = tcp_global_isn k + 1000
            \<and> (t' = passive_tcb sip sp dip dp seq k
               \<or> t' = (passive_tcb sip sp dip dp seq k)\<lparr>snd_nxt := tcp_global_isn k + 1\<rparr>)))"
proof -
  let ?kd = "k_debugps (str ''[TCP] New connection request (SYN)'' @ lf) k"
  have od: "out_ok k ?kd" using out_ok_refl [OF inv] by simp
  then have id: "net_inv ?kd" by (simp add: out_ok_def)
  from id show ?thesis
  proof (cases rule: tcp_allocate_cases)
    case (nomem k')
    have "out_ok k k'" by (rule out_ok_trans [OF od nomem(2)])
    then show ?thesis using nomem(1,3)
      by (intro exI [of _ k']) (simp add: tcp_passive_open_def out_ok_in_ok)
  next
    case (new p t k0)
    from new(5) have tx: "tx_inv k0" by (simp add: net_inv_def)
    obtain bs where bs: "conns ?kd bs" using id by (auto simp: net_inv_def)
    let ?t = "passive_tcb sip sp dip dp seq k"
    let ?k1 = "k0\<lparr>tcbs := (tcbs k0)(p \<mapsto> ?t), tcp_global_isn := tcp_global_isn k0 + 1000\<rparr>"
    have t0: "tcbs k0 p = Some t" "tcb_next ?t = tcb_next t" using new(6,7,9,11) by (simp_all add: passive_tcb_def)
    have i1: "net_inv ?k1" by (rule new_conn_isn [OF new(10) [OF bs] tx t0])
    have t1: "tcbs ?k1 p = Some ?t" by simp
    have nz: "TCP_FLAG_SYN OR TCP_FLAG_ACK \<noteq> 0" "(TCP_FLAG_SYN OR TCP_FLAG_ACK) AND (TCP_FLAG_SYN OR TCP_FLAG_FIN) \<noteq> 0"
      by (simp_all add: tcp_flags)
    from tcp_send_ctrl_ok [OF i1 t1 nz(2)] obtain k2 t2 where
      k2: "tcp_send_segment p (TCP_FLAG_SYN OR TCP_FLAG_ACK) None 0 ?k1 = Some k2" "out_ok ?k1 k2"
        "tcbs k2 = (tcbs ?k1)(p \<mapsto> t2)" "t2 = ?t \<or> t2 = ?t\<lparr>snd_nxt := snd_nxt ?t + 1\<rparr>" by blast
    have isn: "tcp_global_isn k0 = tcp_global_isn k" by (subst new(12)) (simp add: k_debugps_def)
    have same: "aether_ip k0 = aether_ip k" "aether_mac k0 = aether_mac k" "arp_cache k0 = arp_cache k"
      "rx_queue k0 = rx_queue k" "rx_buffers k0 = rx_buffers k" "global_vnet_dev k0 = global_vnet_dev k"
      by (subst new(12), simp add: k_debugps_def)+
    have comm: "x\<lparr>tcp_global_isn := i, tcbs := m\<rparr> = x\<lparr>tcbs := m, tcp_global_isn := i\<rparr>" for x :: kstate and i m
      by simp
    have run: "tcp_passive_open sip sp dip dp seq k = Some k2"
      using new(1,2,7,11) k2(1) isn
      by (simp add: tcp_passive_open_def k_set_tcb_def tcp_send_synack_def passive_tcb_def Let_def comm)
    have tc: "tcbs k2 = (tcbs k)(p \<mapsto> t2)" using k2(3) new(7) by simp
    have pn: "tcbs k p = None" using new(3) by simp
    have "conns k2 (p # as)" if "conns k as" for as
    proof -
      have "conns ?kd as" using that by (simp add: conns_def tx_bufs_def tx_buf_def [abs_def])
      then have "conns ?k1 (p # as)" by (rule new_conn_isn [OF new(10) tx t0])
      then show ?thesis by (rule out_ok_conns [OF k2(2) _ k2(3) t1]) (use k2(4) in auto)
    qed
    moreover have "in_ok k k2"
      using k2(2) new(6) same by (simp add: in_ok_def out_ok_def heap_ext_def)
    moreover have "t2 = ?t \<or> t2 = ?t\<lparr>snd_nxt := tcp_global_isn k + 1\<rparr>"
      using k2(4) by (simp add: passive_tcb_def)
    moreover have "tcp_global_isn k2 = tcp_global_isn k + 1000" using k2(2) isn by (simp add: out_ok_def)
    ultimately show ?thesis using run tc pn by blast
  qed
qed

section \<open>Dispatch\<close>

definition seg_hlen :: "tcp_hdr \<Rightarrow> u8" where
  "seg_hlen h = drop_bit 4 (th_offset_reserved h) * 4"

definition seg_accepted :: "bytes \<Rightarrow> u16 \<Rightarrow> u32 \<Rightarrow> u32 \<Rightarrow> tcp_hdr \<Rightarrow> bool" where
  "seg_accepted segment n src_ip dst_ip h \<longleftrightarrow>
     20 \<le> n \<and> tcp_cast segment = Some h \<and> 20 \<le> seg_hlen h \<and> ucast (seg_hlen h) \<le> n
     \<and> tcp_validate_checksum src_ip dst_ip segment n = Some True"

lemma tcp_input_accepted:
  assumes "seg_accepted segment n src_ip dst_ip h"
  shows "tcp_input_process segment n src_ip dst_ip k =
     do { tcb \<leftarrow> tcp_find_tcb src_ip (ntohs (th_src_port h)) dst_ip (ntohs (th_dst_port h)) k;
          if tcb = 0
          then if th_flags h AND TCP_FLAG_SYN \<noteq> 0 \<and> ntohs (th_dst_port h) = 80
               then tcp_passive_open src_ip (ntohs (th_src_port h)) dst_ip (ntohs (th_dst_port h)) (ntohl (th_seq h)) k
               else tcp_send_rst dst_ip src_ip (ntohs (th_dst_port h)) (ntohs (th_src_port h)) (ntohl (th_ack h)) 0 k
          else tcp_state_switch tcb (th_flags h) (ntohl (th_seq h)) (ntohl (th_ack h))
                 (drop (unat (seg_hlen h)) segment) (n - ucast (seg_hlen h)) k }"
proof -
  have "\<not> n < TCP_HDR_SIZE" "tcp_cast segment = Some h" "\<not> (seg_hlen h < 20 \<or> n < ucast (seg_hlen h))"
    "tcp_validate_checksum src_ip dst_ip segment n = Some True"
    using assms by (simp_all add: seg_accepted_def TCP_HDR_SIZE_def not_less)
  then show ?thesis
    unfolding tcp_input_process_def Let_def seg_hlen_def [symmetric] by (simp only: if_False bind.bind_lunit) simp
qed

lemma tcp_input_rejected:
  assumes "unat n \<le> length segment" and "\<nexists>h. seg_accepted segment n src_ip dst_ip h"
  shows "tcp_input_process segment n src_ip dst_ip k
     \<in> {Some k, Some (k_debugps (str ''[TCP] Checksum fail. Dropped.'' @ lf) k)}"
proof (cases "20 \<le> n")
  case True
  then have "20 \<le> length segment" using assms(1) by (simp add: word_le_nat_alt)
  then obtain h where h: "tcp_cast segment = Some h" by (simp add: tcp_cast_def)
  obtain v where v: "tcp_validate_checksum src_ip dst_ip segment n = Some v"
    using tcp_validate_total [OF assms(1)] by blast
  show ?thesis
    using assms(2) True h v unfolding tcp_input_process_def Let_def seg_hlen_def [symmetric]
    by (auto simp: seg_accepted_def TCP_HDR_SIZE_def not_less)
qed (simp add: tcp_input_process_def TCP_HDR_SIZE_def not_le)

lemma payload_in_segment:
  assumes "seg_accepted segment n src_ip dst_ip h" and "unat n + 2 \<le> length segment"
  shows "0 < n - ucast (seg_hlen h) \<longrightarrow> 3 \<le> length (drop (unat (seg_hlen h)) segment)"
proof
  assume z: "0 < n - ucast (seg_hlen h)"
  have "ucast (seg_hlen h) \<le> n" using assms(1) by (simp add: seg_accepted_def)
  moreover from this have "unat (n - ucast (seg_hlen h)) = unat n - unat (seg_hlen h)"
    by (simp add: unat_sub unsigned_ucast_eq take_bit_nat_eq_self)
  moreover have "0 < unat (n - ucast (seg_hlen h))" using z by (simp add: word_less_nat_alt)
  ultimately have "unat (seg_hlen h) < unat n" by linarith
  then show "3 \<le> length (drop (unat (seg_hlen h)) segment)" using assms(2) by simp
qed

lemma tcp_input_process_safe:
  assumes inv: "net_inv k" and len: "unat n + 2 \<le> length segment"
  shows "\<exists>k'. tcp_input_process segment n src_ip dst_ip k = Some k' \<and> in_ok k k'"
proof (cases "\<exists>h. seg_accepted segment n src_ip dst_ip h")
  case False
  have "in_ok k (k_debugps s k)" for s using out_ok_in_ok [of k] out_ok_refl [OF inv] by simp
  then show ?thesis using tcp_input_rejected [of n segment src_ip dst_ip k] False len in_ok_refl [OF inv]
    by auto
next
  case True
  then obtain h where h: "seg_accepted segment n src_ip dst_ip h" by blast
  from inv show ?thesis
  proof (cases rule: tcp_find_cases [where sip = src_ip and sp = "ntohs (th_src_port h)" and dip = dst_ip
        and dp = "ntohs (th_dst_port h)"])
    case none
    have k1: "\<exists>k'. tcp_passive_open a b c d e k = Some k' \<and> in_ok k k'" for a b c d e
      using tcp_passive_open_ok [OF inv, of a b c d e] by blast
    obtain k2 where k2: "tcp_send_rst dst_ip src_ip (ntohs (th_dst_port h)) (ntohs (th_src_port h)) (ntohl (th_ack h)) 0 k
        = Some k2" "sent_ok k k2" using tcp_send_rst_ok [OF inv] by blast
    have "in_ok k k2" by (rule out_ok_in_ok [OF sent_ok_out_ok [OF inv k2(2)]])
    then show ?thesis using k1 k2(1) none(1) by (simp add: tcp_input_accepted [OF h])
  next
    case (found a t)
    from tcp_state_switch_ok [OF inv found(3) payload_in_segment [OF h len]] found(1,2) show ?thesis
      by (simp add: tcp_input_accepted [OF h]) blast
  qed
qed

section \<open>Properties\<close>



text \<open>
  C4: the switch refines the abstract state machine of a connection. For an accepted segment of a
  known connection the handler, with its sends and its reply, ends in the state the machine names
  (or with the connection removed), sets the acknowledged and the next expected sequence numbers
  as stated, and leaves every other connection as it was. In the two open states a reset is
  ignored, any acknowledgment number completes the handshake, and a FIN that carries data is
  acknowledged as if it carried none.
\<close>

theorem tcp_input_refines_state_machine:
  assumes "net_inv k" and "unat n + 2 \<le> length segment" and "seg_accepted segment n src_ip dst_ip h"
    and "tcp_find_tcb src_ip (ntohs (th_src_port h)) dst_ip (ntohs (th_dst_port h)) k = Some a" and "a \<noteq> 0"
    and "tcbs k a = Some t"
  shows "\<exists>k'. tcp_input_process segment n src_ip dst_ip k = Some k' \<and> in_ok k k' \<and> others_same a k k'
     \<and> tcp_after a t (th_flags h) (ntohl (th_seq h)) (ntohl (th_ack h)) (n - ucast (seg_hlen h)) k'"
  using tcp_state_switch_ok [OF assms(1,6) payload_in_segment [OF assms(3,2)]] assms(4,5)
  by (simp add: tcp_input_accepted [OF assms(3)])

definition sample_segment :: bytes where
  "sample_segment = [156, 64, 0, 80, 0, 0, 19, 136, 0, 0, 3, 233, 80, 25, 32, 0, 47, 73, 0, 0, 71, 69, 84, 32]"

definition sample_header :: tcp_hdr where
  "sample_header = \<lparr>th_src_port = 0x409C, th_dst_port = 0x5000, th_seq = 0x88130000, th_ack = 0xE9030000,
     th_offset_reserved = 80, th_flags = 25, th_window = 32, th_checksum = 0x492F, th_urgent_ptr = 0\<rparr>"

lemma sample_accepted: "seg_accepted (sample_segment @ [0, 0]) 24 0x0A000202 0x0A00020F sample_header"
proof -
  have "unat (24 :: u16) \<le> length (sample_segment @ [0, 0])" by (simp add: sample_segment_def)
  then have "tcp_validate_checksum 0x0A000202 0x0A00020F (sample_segment @ [0, 0]) 24 = Some True"
    by (subst tcp_validate_total) (simp_all add: tcp_total_def ip_halves_def sample_segment_def le16_def htons_def)
  then show ?thesis
    by (simp add: seg_accepted_def seg_hlen_def sample_header_def tcp_cast_def sample_segment_def le16_def le32_def)
qed

text \<open>A FIN with four bytes of request: the reply acknowledges one byte of the five.\<close>

theorem tcp_input_refines_state_machine_witness:
  "\<exists>k k' t. tcbs k 0x41000018 = Some sample_tcb
     \<and> tcp_input_process (sample_segment @ [0, 0]) 24 0x0A000202 0x0A00020F k = Some k'
     \<and> tcbs k' 0x41000018 = Some t \<and> tcb_state t = TCP_STATE_LAST_ACK \<and> rcv_nxt t = rcv_nxt sample_tcb + 1"
proof -
  obtain k where k: "net_inv k" "tcbs k = [0x41000018 \<mapsto> sample_tcb]" using sample_conn by blast
  let ?a = "0x41000018 :: addr"
  have m: "tcb_matches 0x0A000202 (ntohs (th_src_port sample_header)) 0x0A00020F (ntohs (th_dst_port sample_header)) sample_tcb"
    by (simp add: tcb_matches_def sample_tcb_def sample_header_def ntohs_def htons_def)
  from k(1) have find: "tcp_find_tcb 0x0A000202 (ntohs (th_src_port sample_header)) 0x0A00020F
      (ntohs (th_dst_port sample_header)) k = Some ?a"
    by (cases rule: tcp_find_cases [where sip = "0x0A000202" and sp = "ntohs (th_src_port sample_header)"
          and dip = "0x0A00020F" and dp = "ntohs (th_dst_port sample_header)"])
      (use k(2) m in \<open>auto split: if_splits\<close>)
  have len: "unat (24 :: u16) + 2 \<le> length (sample_segment @ [0, 0])" by (simp add: sample_segment_def)
  have t: "tcbs k ?a = Some sample_tcb" "?a \<noteq> 0" using k(2) by simp_all
  from tcp_input_refines_state_machine [OF k(1) len sample_accepted find t(2,1)] obtain k' where
    k': "tcp_input_process (sample_segment @ [0, 0]) 24 0x0A000202 0x0A00020F k = Some k'"
      "tcp_after ?a sample_tcb (th_flags sample_header) (ntohl (th_seq sample_header)) (ntohl (th_ack sample_header))
        (24 - ucast (seg_hlen sample_header)) k'" by blast
  have s: "th_flags sample_header = 25" "ntohl (th_seq sample_header) = 5000" "tcb_state sample_tcb = TCP_STATE_ESTABLISHED"
    "rcv_nxt sample_tcb = 5000" by (simp_all add: sample_header_def ntohl_def htonl_def sample_tcb_def)
  obtain t' where "tcbs k' ?a = Some t'" "tcb_state t' = TCP_STATE_LAST_ACK" "rcv_nxt t' = 5000 + 1"
    using k'(2) unfolding tcp_after_def tcp_spec_def s by (auto simp: tcp_flags)
  then show ?thesis using t(1) k'(1) s(4) by metis
qed



end
