(* ===== verification/Ipv6.thy ===== *)
theory Ipv6
  imports Utils
begin

text \<open>
  The IPv6 side (src/drivers/ethernet/ipv6.c): the address printer with its \<open>::\<close> compression and
  the handler, which only reports the packet on the console.
\<close>

section \<open>The address printer\<close>

definition v6_words :: "bytes \<Rightarrow> u16 list" where
  "v6_words a = map (\<lambda>i. push_bit 8 (ucast (a ! (i * 2))) OR ucast (a ! (i * 2 + 1))) [0..<8]"

text \<open>The inner loop: the end of the run of zero words from \<open>j\<close>.\<close>

function v6_run_end :: "u16 list \<Rightarrow> nat \<Rightarrow> nat" where
  "v6_run_end ws j = (if j < 8 \<and> ws ! j = 0 then v6_run_end ws (j + 1) else j)"
  by pat_completeness auto
termination
  by (relation "measure (\<lambda>(ws, j). 8 - j)") auto

declare v6_run_end.simps [simp del]

lemma v6_run_end_step: "j < 8 \<Longrightarrow> ws ! j = 0 \<Longrightarrow> v6_run_end ws j = v6_run_end ws (Suc j)"
  by (simp add: v6_run_end.simps [of ws j])

lemma v6_run_end_spec:
  "j \<le> 8 \<Longrightarrow> j \<le> v6_run_end ws j \<and> v6_run_end ws j \<le> 8 \<and> (\<forall>k. j \<le> k \<and> k < v6_run_end ws j \<longrightarrow> ws ! k = 0)
     \<and> (v6_run_end ws j < 8 \<longrightarrow> ws ! v6_run_end ws j \<noteq> 0)"
proof (induction ws j rule: v6_run_end.induct)
  case (1 ws j)
  show ?case
  proof (cases "j < 8 \<and> ws ! j = 0")
    case True
    with 1 have ih: "Suc j \<le> v6_run_end ws (Suc j)" "v6_run_end ws (Suc j) \<le> 8"
      "\<And>k. Suc j \<le> k \<Longrightarrow> k < v6_run_end ws (Suc j) \<Longrightarrow> ws ! k = 0"
      "v6_run_end ws (Suc j) < 8 \<Longrightarrow> ws ! v6_run_end ws (Suc j) \<noteq> 0" by simp_all
    have "ws ! k = 0" if "j \<le> k" "k < v6_run_end ws (Suc j)" for k
      using ih(3) [of k] True that by (cases "k = j") auto
    then show ?thesis using ih True v6_run_end_step [of j ws] by auto
  next
    case False
    then show ?thesis using 1(2) by (auto simp: v6_run_end.simps [of ws j])
  qed
qed

lemma v6_run_end_gt: "i < 8 \<Longrightarrow> ws ! i = 0 \<Longrightarrow> i < v6_run_end ws i"
  using v6_run_end_spec [of "Suc i" ws] v6_run_end_step [of i ws] by simp

text \<open>The outer loop keeps the best run so far; \<open>best_start\<close> begins as -1.\<close>

function v6_scan :: "u16 list \<Rightarrow> nat \<Rightarrow> int \<Rightarrow> nat \<Rightarrow> int \<times> nat" where
  "v6_scan ws i best_start best_len =
     (if 8 \<le> i then (best_start, best_len)
      else if ws ! i = 0
      then let j = v6_run_end ws i; n = j - i in
           if best_len < n then v6_scan ws j (int i) n else v6_scan ws j best_start best_len
      else v6_scan ws (i + 1) best_start best_len)"
  by pat_completeness auto
termination
proof (relation "measure (\<lambda>(ws, i, bs, bl). 8 - i)", goal_cases)
  case (2 ws i bs bl x xa)
  then show ?case using v6_run_end_gt [of i ws] by auto
next
  case (3 ws i bs bl x xa)
  then show ?case using v6_run_end_gt [of i ws] by auto
qed auto

declare v6_scan.simps [simp del]

text \<open>The printing loop. The compressed run has at least two words, so \<open>best_len - 1\<close> is positive.\<close>

function v6_print :: "u16 list \<Rightarrow> int \<Rightarrow> nat \<Rightarrow> nat \<Rightarrow> uart \<Rightarrow> uart" where
  "v6_print ws best_start best_len i u =
     (if 8 \<le> i then u
      else if int i = best_start
      then v6_print ws best_start best_len (i + (best_len - 1) + 1) (uart_puts (str ''::'') u)
      else let u = uart_print_hex16 (ws ! i) u;
               u = (if i \<noteq> 7 \<and> int (i + 1) \<noteq> best_start then uart_putc 58 u else u)
           in v6_print ws best_start best_len (i + 1) u)"
  by pat_completeness auto
termination
  by (relation "measure (\<lambda>(ws, bs, bl, i, u). 8 - i)") auto

declare v6_print.simps [simp del]

definition print_ipv6 :: "bytes \<Rightarrow> uart \<Rightarrow> uart" where
  "print_ipv6 a u =
     (let ws = v6_words a;
          (best_start, best_len) = v6_scan ws 0 (-1) 0;
          best_start = (if best_len < 2 then -1 else best_start)
      in v6_print ws best_start best_len 0 u)"

section \<open>The handler\<close>

definition IPV6_HEADER_SIZE :: u32 where "IPV6_HEADER_SIZE = 40"

definition ipv6_handle :: "bytes \<Rightarrow> u32 \<Rightarrow> uart \<Rightarrow> uart option" where
  "ipv6_handle data n u =
     (if n < IPV6_HEADER_SIZE then Some u
      else if length data < 40 then None
      else
        let vtf = bswap32 (le32 (data ! 0) (data ! 1) (data ! 2) (data ! 3));
            version = ucast (drop_bit 28 vtf AND 0xF) :: u8
        in if version \<noteq> 6 then Some u
           else let u = uart_puts (str ''[IPv6] src: '') u;
                    u = print_ipv6 (take 16 (drop 8 data)) u;
                    u = uart_puts (str '' -> '') u;
                    next_header = data ! 6
                in Some (if next_header = 58 then uart_puts (str ''ICMPv6'' @ crlf) u
                         else if next_header = 6 then uart_puts (str ''TCP'' @ crlf) u
                         else uart_puts (str ''Unknown Proto'' @ crlf) u))"

section \<open>The chosen run\<close>

definition zero_run :: "u16 list \<Rightarrow> nat \<Rightarrow> nat \<Rightarrow> bool" where
  "zero_run ws i n \<longleftrightarrow> 0 < n \<and> i + n \<le> 8 \<and> (\<forall>k. i \<le> k \<and> k < i + n \<longrightarrow> ws ! k = 0)"

text \<open>The first of the longest runs among those that start before \<open>i\<close>.\<close>

definition best_before :: "u16 list \<Rightarrow> nat \<Rightarrow> int \<Rightarrow> nat \<Rightarrow> bool" where
  "best_before ws i bs bl \<longleftrightarrow>
     (if bl = 0 then bs = -1 else 0 \<le> bs \<and> nat bs < i \<and> zero_run ws (nat bs) bl)
     \<and> (\<forall>s n. zero_run ws s n \<and> s < i \<longrightarrow> s + n \<le> i \<and> n \<le> bl \<and> (n = bl \<longrightarrow> nat bs \<le> s))"

lemma best_before_nonzero:
  assumes "best_before ws i bs bl" and "ws ! i \<noteq> 0"
  shows "best_before ws (Suc i) bs bl"
proof -
  have "\<not> zero_run ws i n" for n using assms(2) by (auto simp: zero_run_def)
  then show ?thesis using assms(1) by (auto simp: best_before_def less_Suc_eq intro: le_SucI split: if_splits)
qed

lemma best_before_run:
  assumes b: "best_before ws i bs bl" and i: "i < 8" and z: "ws ! i = 0"
    and j: "j = v6_run_end ws i"
  shows "best_before ws j (if bl < j - i then int i else bs) (if bl < j - i then j - i else bl)"
proof -
  note e = v6_run_end_spec [of i ws] v6_run_end_gt [OF i z]
  have ij: "i < j" "j \<le> 8" using e i by (simp_all add: j)
  have zs: "\<And>k. i \<le> k \<Longrightarrow> k < j \<Longrightarrow> ws ! k = 0" and nz: "j < 8 \<Longrightarrow> ws ! j \<noteq> 0" using e i by (simp_all add: j)
  have run: "zero_run ws i (j - i)" using ij zs by (simp add: zero_run_def)
  have inside: "s + n \<le> j" if "zero_run ws s n" "i \<le> s" "s < j" for s n
  proof (rule ccontr)
    assume "\<not> s + n \<le> j"
    then have "j < 8" "ws ! j = 0" using that by (auto simp: zero_run_def)
    with nz show False by simp
  qed
  let ?bs = "if bl < j - i then int i else bs" and ?bl = "if bl < j - i then j - i else bl"
  have "s + n \<le> j \<and> n \<le> ?bl \<and> (n = ?bl \<longrightarrow> nat ?bs \<le> s)" if r: "zero_run ws s n" "s < j" for s n
  proof (cases "s < i")
    case True
    then have "s + n \<le> i \<and> n \<le> bl \<and> (n = bl \<longrightarrow> nat bs \<le> s)" using b r(1) by (simp add: best_before_def)
    then show ?thesis using ij by auto
  next
    case False
    then have s: "i \<le> s" by simp
    have n: "s + n \<le> j" "0 < n" using inside [OF r(1) s r(2)] r(1) by (simp_all add: zero_run_def)
    show ?thesis
    proof (cases "bl < j - i")
      case True
      then show ?thesis using n s by auto
    next
      case False
      have "nat bs \<le> s" using b s False ij by (auto simp: best_before_def split: if_splits)
      then show ?thesis using False n s by auto
    qed
  qed
  moreover have "if ?bl = 0 then ?bs = -1 else 0 \<le> ?bs \<and> nat ?bs < j \<and> zero_run ws (nat ?bs) ?bl"
    using b run ij by (auto simp: best_before_def split: if_splits)
  ultimately show ?thesis unfolding best_before_def by blast
qed

lemma v6_scan_best:
  "best_before ws i bs bl \<Longrightarrow> i \<le> 8 \<Longrightarrow> v6_scan ws i bs bl = (bs', bl') \<Longrightarrow> best_before ws 8 bs' bl'"
proof (induction ws i bs bl rule: v6_scan.induct)
  case (1 ws i bs bl)
  show ?case
  proof (cases "i = 8")
    case True
    then show ?thesis using 1(4,6) v6_scan.simps [of ws i bs bl] by simp
  next
    case False
    then have i: "\<not> 8 \<le> i" "i < 8" using 1(5) by simp_all
    show ?thesis
    proof (cases "ws ! i = 0")
      case True
      let ?j = "v6_run_end ws i"
      have b: "best_before ws ?j (if bl < ?j - i then int i else bs) (if bl < ?j - i then ?j - i else bl)"
        by (rule best_before_run [OF 1(4) i(2) True refl])
      have le: "?j \<le> 8" using v6_run_end_spec [of i ws] i by simp
      show ?thesis
      proof (cases "bl < ?j - i")
        case lt: True
        then have "v6_scan ws ?j (int i) (?j - i) = (bs', bl')"
          using 1(6) i True by (simp add: v6_scan.simps [of ws i] Let_def)
        with 1(1) [OF i(1) True refl refl lt] b le lt show ?thesis by simp
      next
        case ge: False
        then have "v6_scan ws ?j bs bl = (bs', bl')"
          using 1(6) i True by (simp add: v6_scan.simps [of ws i] Let_def)
        with 1(2) [OF i(1) True refl refl ge] b le ge show ?thesis by simp
      qed
    next
      case nz: False
      have "v6_scan ws (i + 1) bs bl = (bs', bl')" using 1(6) i nz by (simp add: v6_scan.simps [of ws i])
      with 1(3) [OF i(1) nz] best_before_nonzero [OF 1(4) nz] i show ?thesis by simp
    qed
  qed
qed

lemma v6_scan_start: "best_before ws 0 (-1) 0"
  by (simp add: best_before_def)

section \<open>The text\<close>

definition hex4 :: "u16 \<Rightarrow> bytes" where
  "hex4 w = map (\<lambda>i. str ''0123456789abcdef'' ! unat (drop_bit i w AND 0xF)) [12, 8, 4, 0]"

fun colons :: "u16 list \<Rightarrow> bytes" where
  "colons [] = []"
| "colons [w] = hex4 w"
| "colons (w # v # ws) = hex4 w @ 58 # colons (v # ws)"

lemma console_hex16 [simp]: "console (uart_print_hex16 w u) = console u @ hex4 w"
  by (simp add: uart_print_hex16_def hex4_def)

lemma colons_drop: "i < length ws \<Longrightarrow> colons (drop i ws) =
    hex4 (ws ! i) @ (if Suc i = length ws then [] else 58 # colons (drop (Suc i) ws))"
proof -
  assume i: "i < length ws"
  have "drop i ws = ws ! i # drop (Suc i) ws" using Cons_nth_drop_Suc [OF i] by simp
  then show ?thesis using i by (cases "drop (Suc i) ws") auto
qed

lemma v6_print_plain:
  "length ws = 8 \<Longrightarrow> (\<forall>k \<ge> i. int k \<noteq> bs) \<Longrightarrow> console (v6_print ws bs bl i u) = console u @ colons (drop i ws)"
proof (induction ws bs bl i u rule: v6_print.induct)
  case (1 ws bs bl i u)
  show ?case
  proof (cases "8 \<le> i")
    case True
    then show ?thesis using 1(3) by (simp add: v6_print.simps [of ws bs bl i])
  next
    case False
    have ne: "int i \<noteq> bs" "int (i + 1) \<noteq> bs" using 1(4) by (metis le_refl, metis le_add1)
    let ?u = "if i \<noteq> 7 \<and> int (i + 1) \<noteq> bs then uart_putc 58 (uart_print_hex16 (ws ! i) u)
              else uart_print_hex16 (ws ! i) u"
    have run: "v6_print ws bs bl i u = v6_print ws bs bl (i + 1) ?u"
      using False ne by (simp add: v6_print.simps [of ws bs bl i] Let_def)
    have "console (v6_print ws bs bl (i + 1) ?u) = console ?u @ colons (drop (i + 1) ws)"
      using 1(2) [OF False ne(1) refl refl 1(3)] 1(4) by simp
    then show ?thesis using run False ne 1(3) by (auto simp: colons_drop [of i ws])
  qed
qed

lemma v6_print_run:
  "length ws = 8 \<Longrightarrow> i \<le> b \<Longrightarrow> 2 \<le> bl \<Longrightarrow> b + bl \<le> 8 \<Longrightarrow>
   console (v6_print ws (int b) bl i u) =
     console u @ colons (drop i (take b ws)) @ str ''::'' @ colons (drop (b + bl) ws)"
proof (induction "b - i" arbitrary: i u)
  case 0
  then have i: "i = b" "\<not> 8 \<le> b" "Suc (b + (bl - Suc 0)) = b + bl" by simp_all
  have "console (v6_print ws (int b) bl (b + bl) (uart_puts (str ''::'') u))
      = console (uart_puts (str ''::'') u) @ colons (drop (b + bl) ws)"
    by (rule v6_print_plain) (use 0 in auto)
  then show ?case using i 0 by (simp add: v6_print.simps [of ws "int b" bl b] str_def byte_of_char_def)
next
  case (Suc n)
  then have i: "i < b" "\<not> 8 \<le> i" "int i \<noteq> int b" by simp_all
  let ?u = "if i \<noteq> 7 \<and> int (i + 1) \<noteq> int b then uart_putc 58 (uart_print_hex16 (ws ! i) u)
            else uart_print_hex16 (ws ! i) u"
  have run: "v6_print ws (int b) bl i u = v6_print ws (int b) bl (Suc i) ?u"
    using i by (simp add: v6_print.simps [of ws "int b" bl i] Let_def)
  have "console (v6_print ws (int b) bl (Suc i) ?u) =
      console ?u @ colons (drop (Suc i) (take b ws)) @ str ''::'' @ colons (drop (b + bl) ws)"
    by (rule Suc(1)) (use Suc in auto)
  then show ?case using run i Suc by (auto simp: colons_drop [of i "take b ws"])
qed

definition v6_text :: "u16 list \<Rightarrow> nat \<Rightarrow> nat \<Rightarrow> bytes" where
  "v6_text ws b n = colons (take b ws) @ str ''::'' @ colons (drop (b + n) ws)"

lemma length_v6_words [simp]: "length (v6_words a) = 8"
  by (simp add: v6_words_def)

text \<open>
  The printer writes the eight words as four hex digits each, with colons between, and puts
  \<open>::\<close> for the first of the longest runs of zero words when that run has at least two.
\<close>

lemma print_ipv6_compresses_longest_run:
  "(\<exists>b n. zero_run (v6_words a) b n \<and> 2 \<le> n
       \<and> (\<forall>s m. zero_run (v6_words a) s m \<longrightarrow> m \<le> n \<and> (m = n \<longrightarrow> b \<le> s))
       \<and> console (print_ipv6 a u) = console u @ v6_text (v6_words a) b n)
   \<or> ((\<forall>s m. zero_run (v6_words a) s m \<longrightarrow> m < 2)
       \<and> console (print_ipv6 a u) = console u @ colons (v6_words a))"
proof -
  obtain bs bl where sc: "v6_scan (v6_words a) 0 (-1) 0 = (bs, bl)" by fastforce
  have best: "best_before (v6_words a) 8 bs bl" using v6_scan_best [OF v6_scan_start _ sc] by simp
  have all: "s < 8" if "zero_run (v6_words a) s m" for s m using that by (auto simp: zero_run_def)
  show ?thesis
  proof (cases "bl < 2")
    case True
    then have "\<forall>s m. zero_run (v6_words a) s m \<longrightarrow> m < 2" using best all by (force simp: best_before_def)
    moreover have "print_ipv6 a u = v6_print (v6_words a) (-1) bl 0 u" using sc True by (simp add: print_ipv6_def)
    ultimately show ?thesis using v6_print_plain [of "v6_words a" 0 "-1" bl u] by simp
  next
    case False
    then have b: "0 \<le> bs" "zero_run (v6_words a) (nat bs) bl" "2 \<le> bl" using best by (auto simp: best_before_def)
    then have "print_ipv6 a u = v6_print (v6_words a) (int (nat bs)) bl 0 u"
      using sc by (simp add: print_ipv6_def)
    moreover have "nat bs + bl \<le> 8" using b by (simp add: zero_run_def)
    ultimately have "console (print_ipv6 a u) = console u @ v6_text (v6_words a) (nat bs) bl"
      using v6_print_run [of "v6_words a" 0 "nat bs" bl u] b by (simp add: v6_text_def)
    then show ?thesis using b best all by (intro disjI1 exI [of _ "nat bs"] exI [of _ bl]) (auto simp: best_before_def)
  qed
qed

end
