(* ===== verification/Net_Rx.thy ===== *)
theory Net_Rx
  imports Tcp_Input Ipv6
begin

text \<open>
  The receive path: the IPv4 handler (ipv4.c), the Ethernet demultiplexer (ethernet.c) and the
  VirtIO network driver's queue setup and poll (virtio_net.c). The address of the static array
  \<open>rx_buffers\<close> is a parameter; its contents are \<^term>\<open>rx_buffers\<close> of the state.
\<close>

section \<open>IPv4\<close>

text \<open>The handler clears the checksum field while it sums and puts it back before it goes on.\<close>

definition ipv4_demux :: "u8 \<Rightarrow> bytes \<Rightarrow> u32 \<Rightarrow> u32 \<Rightarrow> u32 \<Rightarrow> kstate \<Rightarrow> kstate option" where
  "ipv4_demux protocol payload payload_len src_ip dst_ip k =
     (if protocol = IP_PROTO_TCP then tcp_input_process payload (ucast payload_len) src_ip dst_ip k
      else if protocol = IP_PROTO_UDP then Some (k_debugps (str ''[IP] UDP packet'' @ crlf) k)
      else if protocol = IP_PROTO_ICMP then Some (k_debugps (str ''[IP] ICMP packet'' @ crlf) k)
      else Some k)"

definition ipv4_handle :: "bytes \<Rightarrow> u32 \<Rightarrow> kstate \<Rightarrow> kstate option" where
  "ipv4_handle data n k =
     (if n < IPV4_HEADER_SIZE then Some k
      else do {
        ip \<leftarrow> ipv4_cast data;
        let version = drop_bit 4 (ip_version_ihl ip);
        let ihl = ip_version_ihl ip AND 0x0F;
        if version \<noteq> 4 \<or> ihl < 5 then Some k
        else do {
          let header_len = (ucast (ihl * 4) :: u32);
          if n < header_len then Some k
          else do {
            computed \<leftarrow> ipv4_checksum (data[10 := 0, 11 := 0]) (unat header_len);
            if computed \<noteq> ip_checksum ip
            then Some (k\<lparr>k_stats := health_report_checksum_error (k_stats k)\<rparr>)
            else do {
              let total_len = ntohs (ip_total_len ip);
              if ucast total_len < header_len \<or> n < ucast total_len then Some k
              else do {
                let src_ip = ntohl (ip_src_ip ip);
                let dst_ip = ntohl (ip_dest_ip ip);
                if dst_ip \<noteq> aether_ip k then Some k
                else ipv4_demux (ip_protocol ip) (drop (unat header_len) data)
                       (ucast total_len - header_len) src_ip dst_ip k } } } } })"

section \<open>Ethernet\<close>

definition k_ipv6_handle :: "bytes \<Rightarrow> u32 \<Rightarrow> kstate \<Rightarrow> kstate option" where
  "k_ipv6_handle data n k = do { u \<leftarrow> ipv6_handle data n (k_uart k); Some (k\<lparr>k_uart := u\<rparr>) }"

definition ethernet_handle_packet :: "bytes \<Rightarrow> u32 \<Rightarrow> kstate \<Rightarrow> kstate option" where
  "ethernet_handle_packet data n k =
     (if n < ETH_HEADER_SIZE then Some k
      else do {
        lo \<leftarrow> ld16 data 12;
        let type = bswap16 lo;
        let payload = drop 14 data;
        let payload_len = n - ETH_HEADER_SIZE;
        if type = ETH_TYPE_ARP then arp_handle payload payload_len k
        else if type = ETH_TYPE_IPV4 then ipv4_handle payload payload_len k
        else if type = 0x86DD then k_ipv6_handle payload payload_len k
        else Some k })"

section \<open>The driver\<close>

definition RX_QUEUE_INDEX :: u16 where "RX_QUEUE_INDEX = 0"
definition TX_QUEUE_INDEX :: u16 where "TX_QUEUE_INDEX = 1"
definition RX_QUEUE_SIZE :: nat where "RX_QUEUE_SIZE = 256"
definition RX_BUF_SIZE :: u32 where "RX_BUF_SIZE = 2048"
definition RING_MEM_SIZE :: nat where "RING_MEM_SIZE = 4 * 4096"

definition rx_buffer_addr :: "addr \<Rightarrow> u16 \<Rightarrow> addr" where
  "rx_buffer_addr rxb i = rxb + 2048 * ucast i"

text \<open>
  The ring memory of a queue: a zeroed array of four pages, seen as the tables
  \<open>virtqueue_init\<close> will lay over it. The driver takes the size from the device and does not
  check it; a size whose rings do not fit is an access past the array.
\<close>

definition ring_memory :: "u16 \<Rightarrow> virtqueue \<Rightarrow> virtqueue option" where
  "ring_memory n vq =
     (if RING_MEM_SIZE < (18 * unat n + 9) div 4 * 4 + 4 + 8 * unat n then None
      else Some (vq\<lparr>desc := replicate (unat n) \<lparr>vd_addr = 0, vd_len = 0, vd_flags = 0, vd_next = 0\<rparr>,
                    avail_idx := 0, avail_ring := replicate (unat n) 0, used_idx := 0,
                    used_ring := replicate (unat n) \<lparr>ue_id = 0, ue_len = 0\<rparr>\<rparr>))"

definition prefill_step :: "addr \<Rightarrow> nat \<Rightarrow> virtqueue \<times> net_stats \<Rightarrow> (virtqueue \<times> net_stats) option" where
  "prefill_step rxb i q =
     do { (d, vq, st) \<leftarrow> virtqueue_add_descriptor (fst q) (rx_buffer_addr rxb (of_nat i)) RX_BUF_SIZE
                            VIRTQ_DESC_F_WRITE (snd q);
          vq \<leftarrow> avail_publish vq d;
          Some (vq, st) }"

primrec prefill :: "addr \<Rightarrow> nat list \<Rightarrow> virtqueue \<times> net_stats \<Rightarrow> (virtqueue \<times> net_stats) option" where
  "prefill rxb [] q = Some q"
| "prefill rxb (i # is) q = do { q \<leftarrow> prefill_step rxb i q; prefill rxb is q }"

definition k_bind_queue :: "virtqueue \<Rightarrow> kstate \<Rightarrow> kstate" where
  "k_bind_queue vq k =
     (let (u, hw) = virtio_pci_bind_queue vq (k_uart k) (k_hw k) in k\<lparr>k_uart := u, k_hw := hw\<rparr>)"

definition k_select_queue :: "u16 \<Rightarrow> kstate \<Rightarrow> kstate" where
  "k_select_queue i k = k\<lparr>k_hw := (k_hw k)\<lparr>queue_select := i\<rparr>\<rparr>"

definition selected_queue_size :: "kstate \<Rightarrow> u16" where
  "selected_queue_size k = queue_size (queues (k_hw k) (queue_select (k_hw k)))"

definition virtio_net_setup_queues ::
  "addr \<Rightarrow> addr \<Rightarrow> addr \<Rightarrow> virtio_pci_device \<Rightarrow> kstate \<Rightarrow> (virtio_pci_device \<times> kstate) option" where
  "virtio_net_setup_queues rxb rx_ring_mem tx_ring_mem vdev k =
     do { let k = k_puts (str ''[NET] Setting up RX/TX queues...'' @ crlf) k;
          let k = k_select_queue RX_QUEUE_INDEX k;
          let rx_size = selected_queue_size k;
          if rx_size = 0 then Some (vdev, k_puts (str ''[ERROR] RX queue size is 0!'' @ crlf) k)
          else do {
            vq \<leftarrow> ring_memory rx_size (rx_queue k);
            vq \<leftarrow> virtqueue_init vq rx_size RX_QUEUE_INDEX rx_ring_mem;
            let k = k_bind_queue vq k;
            let vdev = vdev\<lparr>rx_vq := True\<rparr>;
            (vq, st) \<leftarrow> prefill rxb [0..<unat rx_size] (vq, k_stats k);
            let k = k\<lparr>rx_queue := vq, k_stats := st,
                      k_hw := virtqueue_notify vdev RX_QUEUE_INDEX (k_hw k)\<rparr>;
            let k = k_select_queue TX_QUEUE_INDEX k;
            let tx_size = selected_queue_size k;
            if tx_size = 0 then Some (vdev, k_puts (str ''[ERROR] TX queue size is 0!'' @ crlf) k)
            else do {
              vq \<leftarrow> ring_memory tx_size (tx_queue k);
              vq \<leftarrow> virtqueue_init vq tx_size TX_QUEUE_INDEX tx_ring_mem;
              let k = k_bind_queue vq k;
              Some (vdev\<lparr>rx_vq := True, tx_vq := True\<rparr>,
                    k_puts (str ''[NET] Queues Ready'' @ crlf) (k\<lparr>tx_queue := vq\<rparr>)) } } }"

text \<open>
  A received buffer: the length the device reports counts a 10-byte header, the frame is read
  from offset 12. What lies after a buffer is the next one.
\<close>

definition virtio_net_hdr_size :: u32 where "virtio_net_hdr_size = 10"

definition print_mac :: "bytes \<Rightarrow> kstate \<Rightarrow> kstate option" where
  "print_mac eth_frame k =
     do { mac \<leftarrow> rd_bytes eth_frame 6;
          Some (fold (\<lambda>i k. let k = k_put_hex (ucast (mac ! i)) k
                            in if i < 5 then k_puts (str '':'') k else k) [0..<6] k) }"

definition rx_deliver :: "bytes \<Rightarrow> u32 \<Rightarrow> kstate \<Rightarrow> kstate option" where
  "rx_deliver eth_frame n k =
     do { let eth_len = (if virtio_net_hdr_size < n then n - virtio_net_hdr_size else 0);
          if eth_len = 0 then Some k
          else do {
            let k = k_puts (str ''[RX] Dest MAC: '') k;
            k \<leftarrow> print_mac eth_frame k;
            let k = k_puts crlf k;
            hi \<leftarrow> ld8 eth_frame 12;
            lo \<leftarrow> ld8 eth_frame 13;
            let ethertype = (push_bit 8 (ucast hi) OR ucast lo :: u16);
            let k = k_puts (str ''[RX] EtherType: '') k;
            let k = k_puts crlf (k_put_hex (ucast ethertype) k);
            let k = k\<lparr>k_stats := (k_stats k)\<lparr>rx_packets := rx_packets (k_stats k) + 1\<rparr>\<rparr>;
            ethernet_handle_packet eth_frame eth_len k } }"

definition rx_refill :: "addr \<Rightarrow> virtio_pci_device \<Rightarrow> u16 \<Rightarrow> kstate \<Rightarrow> kstate option" where
  "rx_refill rxb vdev desc_id k =
     do { (new_id, vq, st) \<leftarrow> virtqueue_add_descriptor (rx_queue k) (rx_buffer_addr rxb desc_id) RX_BUF_SIZE
                                VIRTQ_DESC_F_WRITE (k_stats k);
          (vq, hw) \<leftarrow> virtqueue_push_available vdev vq new_id (k_hw k);
          Some (k\<lparr>rx_queue := vq, k_stats := st, k_hw := hw\<rparr>) }"

definition virtio_net_poll :: "addr \<Rightarrow> virtio_pci_device \<Rightarrow> kstate \<Rightarrow> kstate option" where
  "virtio_net_poll rxb vdev k =
     do { (r, vq, st) \<leftarrow> virtqueue_pop_used (rx_queue k) (k_stats k);
          let k = k\<lparr>rx_queue := vq, k_stats := st\<rparr>;
          case r of
            None \<Rightarrow> Some k
          | Some (desc_id, n) \<Rightarrow>
              if length (rx_buffers k) \<le> unat desc_id then None
              else do {
                let eth_frame = drop 12 (concat (drop (unat desc_id) (rx_buffers k)));
                k \<leftarrow> rx_deliver eth_frame n k;
                rx_refill rxb vdev desc_id k } }"

section \<open>What reception leaves alone\<close>

text \<open>The contract of the receive handlers towards the driver that calls them.\<close>

definition rx_ok :: "kstate \<Rightarrow> kstate \<Rightarrow> bool" where
  "rx_ok k k' \<longleftrightarrow> net_inv k' \<and> rx_queue k' = rx_queue k \<and> rx_buffers k' = rx_buffers k
     \<and> global_vnet_dev k' = global_vnet_dev k \<and> aether_ip k' = aether_ip k \<and> aether_mac k' = aether_mac k
     \<and> (cache_ok (arp_cache k) \<longrightarrow> cache_ok (arp_cache k'))"

lemma rx_ok_refl: "net_inv k \<Longrightarrow> rx_ok k k"
  by (simp add: rx_ok_def)

lemma rx_ok_trans: "rx_ok k k' \<Longrightarrow> rx_ok k' k'' \<Longrightarrow> rx_ok k k''"
  by (simp add: rx_ok_def)

lemma in_ok_rx_ok: "in_ok k k' \<Longrightarrow> rx_ok k k'"
  by (simp add: in_ok_def rx_ok_def)

lemma rx_ok_uart [simp]: "rx_ok k (k'\<lparr>k_uart := u\<rparr>) = rx_ok k k'" "rx_ok k (k'\<lparr>k_stats := st\<rparr>) = rx_ok k k'"
  using net_inv_cong(1) [of "k'\<lparr>k_uart := u\<rparr>" k'] net_inv_cong(1) [of "k'\<lparr>k_stats := st\<rparr>" k']
  by (simp_all add: rx_ok_def)

lemma rx_ok_prints [simp]:
  "rx_ok k (k_puts s k') = rx_ok k k'" "rx_ok k (k_put_hex w k') = rx_ok k k'"
  "rx_ok k (k_debugps s k') = rx_ok k k'"
  by (simp_all add: k_puts_def k_put_hex_def k_debugps_def)

lemma ipv4_demux_ok:
  assumes "net_inv k" and "unat pn + 2 \<le> length payload" and "unat pn < 65536"
  shows "\<exists>k'. ipv4_demux proto payload pn sip dip k = Some k' \<and> rx_ok k k'"
proof -
  have "unat (ucast pn :: u16) + 2 \<le> length payload" using assms(2,3) by (simp add: unat_ucast)
  from tcp_input_process_safe [OF assms(1) this, of sip dip] obtain k' where
    "tcp_input_process payload (ucast pn) sip dip k = Some k'" "rx_ok k k'" using in_ok_rx_ok by blast
  then show ?thesis using rx_ok_refl [OF assms(1)] by (simp add: ipv4_demux_def)
qed

lemma ipv4_handle_ok:
  assumes inv: "net_inv k" and len: "unat n + 2 \<le> length data"
  shows "\<exists>k'. ipv4_handle data n k = Some k' \<and> rx_ok k k'"
proof (cases "n < 20")
  case True
  then show ?thesis using rx_ok_refl [OF inv] by (simp add: ipv4_handle_def IPV4_HEADER_SIZE_def)
next
  case False
  then have "20 \<le> length data" using len by (simp add: word_less_nat_alt)
  then obtain ip where ip: "ipv4_cast data = Some ip" by (simp add: ipv4_cast_def)
  let ?hl = "ucast ((ip_version_ihl ip AND 0x0F) * 4) :: u32" and ?tl = "ucast (ntohs (ip_total_len ip)) :: u32"
  have hl: "unat ?hl \<le> 255" 
    using unat_u8_less [of "(ip_version_ihl ip AND 0x0F) * 4"] by (simp add: unat_ucast del: unat_u8_less)
  have tl: "unat ?tl < 65536" using unat_u16_less [of "ntohs (ip_total_len ip)"] by (simp add: unat_ucast del: unat_u16_less)
  show ?thesis
  proof (cases "n < ?hl")
    case True
    then show ?thesis
      using False ip rx_ok_refl [OF inv] unfolding ipv4_handle_def IPV4_HEADER_SIZE_def Let_def by simp
  next
    case fits: False
    then have "unat ?hl \<le> length (data[10 := 0, 11 := 0])" using len by (simp add: word_less_nat_alt)
    then obtain c where c: "ipv4_checksum (data[10 := 0, 11 := 0]) (unat ?hl) = Some c"
      using ipv4_checksum_total [of "unat ?hl" "data[10 := 0, 11 := 0]"] hl by auto
    have dm: "\<exists>k'. ipv4_demux proto (drop (unat ?hl) data) (?tl - ?hl) sip dip k = Some k' \<and> rx_ok k k'"
      if "\<not> ?tl < ?hl" "\<not> n < ?tl" for proto sip dip
    proof -
      have "unat (?tl - ?hl) = unat ?tl - unat ?hl" "unat ?tl \<le> unat n" "unat ?hl \<le> unat ?tl"
        using that by (simp_all add: unat_sub not_less word_le_nat_alt)
      then have "unat (?tl - ?hl) + 2 \<le> length (drop (unat ?hl) data)" "unat (?tl - ?hl) < 65536"
        using len tl unfolding length_drop by linarith+
      then show ?thesis by (rule ipv4_demux_ok [OF inv])
    qed
    show ?thesis
      using False fits ip c dm rx_ok_refl [OF inv]
      unfolding ipv4_handle_def IPV4_HEADER_SIZE_def Let_def
      by (cases "drop_bit 4 (ip_version_ihl ip) \<noteq> 4 \<or> ip_version_ihl ip AND 0x0F < 5";
          cases "c = ip_checksum ip"; cases "?tl < ?hl"; cases "n < ?tl") simp_all
  qed
qed

lemma ipv6_handle_total:
  assumes "unat n \<le> length data"
  shows "\<exists>u'. ipv6_handle data n u = Some u'"
proof -
  have "\<not> n < 40 \<longrightarrow> 40 \<le> length data" using assms by (auto simp: word_less_nat_alt)
  then show ?thesis by (auto simp: ipv6_handle_def IPV6_HEADER_SIZE_def Let_def)
qed

lemma arp_handle_ok:
  assumes inv: "net_inv k" and len: "unat n \<le> length data"
  shows "\<exists>k'. arp_handle data n k = Some k' \<and> rx_ok k k'"
proof (cases "n < 28")
  case True
  then show ?thesis using rx_ok_refl [OF inv] by (simp add: arp_handle_def ARP_PACKET_SIZE_def)
next
  case False
  then have "28 \<le> length data" using len by (simp add: word_less_nat_alt)
  from arp_handle_safe [OF inv this, of n] show ?thesis by (auto simp: rx_ok_def)
qed

lemma ethernet_handle_packet_ok:
  assumes inv: "net_inv k" and len: "unat n + 2 \<le> length data"
  shows "\<exists>k'. ethernet_handle_packet data n k = Some k' \<and> rx_ok k k'"
proof (cases "n < 14")
  case True
  then show ?thesis using rx_ok_refl [OF inv] by (simp add: ethernet_handle_packet_def ETH_HEADER_SIZE_def)
next
  case False
  then have n: "14 \<le> unat n" "unat (n - 14) = unat n - 14"
    by (simp_all add: word_less_nat_alt unat_sub word_le_nat_alt)
  then have pl: "unat (n - 14) + 2 \<le> length (drop 14 data)" using len by simp
  then have pl': "unat (n - 14) \<le> length (drop 14 data)" by linarith
  obtain lo where "ld16 data 12 = Some lo" using n len by (simp add: ld16_def)
  moreover have "\<exists>k'. k_ipv6_handle (drop 14 data) (n - 14) k = Some k' \<and> rx_ok k k'"
    using ipv6_handle_total [OF pl', of "k_uart k"] rx_ok_refl [OF inv] by (auto simp: k_ipv6_handle_def)
  ultimately show ?thesis
    using False arp_handle_ok [OF inv pl'] ipv4_handle_ok [OF inv pl] rx_ok_refl [OF inv]
    by (simp add: ethernet_handle_packet_def ETH_HEADER_SIZE_def Let_def)
qed

section \<open>The poll\<close>

lemma rx_ok_print_mac:
  assumes "rx_ok k k'" and "6 \<le> length f"
  shows "\<exists>k''. print_mac f k' = Some k'' \<and> rx_ok k k''"
proof -
  have "rx_ok k (fold (\<lambda>i k. let k = k_put_hex (ucast (take 6 f ! i)) k
                            in if i < 5 then k_puts (str '':'') k else k) is k')" for "is"
    using assms(1) by (induction "is" arbitrary: k') (simp_all add: Let_def)
  then show ?thesis using assms(2) by (simp add: print_mac_def rd_bytes_take)
qed

lemma rx_deliver_ok:
  assumes inv: "net_inv k" and len: "14 \<le> length f" "unat n \<le> length f + 8"
  shows "\<exists>k'. rx_deliver f n k = Some k' \<and> rx_ok k k'"
proof (cases "10 < n")
  case False
  then show ?thesis using rx_ok_refl [OF inv] by (simp add: rx_deliver_def virtio_net_hdr_size_def Let_def)
next
  case True
  then have n: "n - 10 \<noteq> 0" "unat (n - 10) + 2 \<le> length f"
    using len by (auto simp: unat_sub word_less_nat_alt word_le_nat_alt)
  obtain hi lo where b: "ld8 f 12 = Some hi" "ld8 f 13 = Some lo" using len by (simp add: ld8_def)
  have "rx_ok k (k_puts s k)" for s using rx_ok_refl [OF inv] by simp
  moreover have "6 \<le> length f" using len by simp
  ultimately obtain k1 where
    k1: "print_mac f (k_puts (str ''[RX] Dest MAC: '') k) = Some k1" "rx_ok k k1"
    using rx_ok_print_mac by blast
  define e where "e = (push_bit 8 (ucast hi) OR ucast lo :: u16)"
  let ?k2 = "k_puts crlf (k_put_hex (ucast e) (k_puts (str ''[RX] EtherType: '') (k_puts crlf k1)))"
  let ?k3 = "?k2\<lparr>k_stats := (k_stats ?k2)\<lparr>rx_packets := rx_packets (k_stats ?k2) + 1\<rparr>\<rparr>"
  have k3: "rx_ok k ?k3" using k1(2) by simp
  then have "net_inv ?k3" by (simp add: rx_ok_def)
  from ethernet_handle_packet_ok [OF this n(2)] obtain k' where
    k': "ethernet_handle_packet f (n - 10) ?k3 = Some k'" "rx_ok ?k3 k'" by blast
  have "rx_deliver f n k = ethernet_handle_packet f (n - 10) ?k3"
    using True n(1) k1(1) b unfolding rx_deliver_def virtio_net_hdr_size_def Let_def e_def by simp
  then show ?thesis using k'(1) rx_ok_trans [OF k3 k'(2)] by simp
qed

text \<open>
  The receive side between polls: every descriptor is in flight and describes the buffer of its
  own index, and the device reports lengths of at most 2044 bytes (a frame of up to 1514 bytes
  and its header take 1526).
\<close>

definition rx_ring :: "addr \<Rightarrow> virtqueue \<Rightarrow> (nat \<times> u32) list \<Rightarrow> bool" where
  "rx_ring rxb vq ps \<longleftrightarrow> vq_rep vq [] ps \<and> unat (vq_size vq) \<le> 256
     \<and> (\<forall>i < unat (vq_size vq). vd_addr (desc vq ! i) = rx_buffer_addr rxb (of_nat i)
          \<and> vd_len (desc vq ! i) = RX_BUF_SIZE)
     \<and> (\<forall>p \<in> set ps. unat (snd p) \<le> 2044)"

definition rx_inv :: "addr \<Rightarrow> kstate \<Rightarrow> bool" where
  "rx_inv rxb k \<longleftrightarrow> (\<exists>ps. rx_ring rxb (rx_queue k) ps)
     \<and> length (rx_buffers k) = 256 \<and> (\<forall>b \<in> set (rx_buffers k). length b = 2048)"

lemma rx_frame_length:
  assumes "length bs = 256" and "\<forall>b \<in> set bs. length b = 2048" and "i < 256"
  shows "2036 \<le> length (drop 12 (concat (drop i bs)))"
proof -
  have "drop i bs = bs ! i # drop (Suc i) bs" using assms by (simp add: Cons_nth_drop_Suc)
  moreover have "length (bs ! i) = 2048" using assms by simp
  ultimately show ?thesis by simp
qed

lemma map_eq_nth: "map f xs = map f ys \<Longrightarrow> i < length xs \<Longrightarrow> f (xs ! i) = f (ys ! i)"
  by (metis length_map nth_map)

text \<open>Taking a receipt and giving the buffer back, with any handler between that leaves the queue alone.\<close>

lemma rx_pop_add:
  assumes ring: "rx_ring rxb vq ((i, l) # ps)"
  obtains vq1 where
    "virtqueue_pop_used vq st = Some (Some (of_nat i, l), vq1, pop_stats (queue_index vq) st)"
    "i < 256" "unat (of_nat i :: u16) = i" "unat l \<le> 2044" "vq_size vq1 = vq_size vq"
    "\<And>st' vdev hw. \<exists>vq2 vq3.
       virtqueue_add_descriptor vq1 (rx_buffer_addr rxb (of_nat i)) RX_BUF_SIZE VIRTQ_DESC_F_WRITE st'
         = Some (of_nat i, vq2, st'\<lparr>buffer_usage := buffer_usage st' + 1\<rparr>)
       \<and> virtqueue_push_available vdev vq2 (of_nat i) hw = Some (vq3, virtqueue_notify vdev (queue_index vq) hw)
       \<and> rx_ring rxb vq3 ps \<and> vq_size vq3 = vq_size vq \<and> avail_idx vq3 = avail_idx vq + 1
       \<and> avail_ring vq3 = (avail_ring vq)[unat (avail_idx vq) mod unat (vq_size vq) := of_nat i]"
proof -
  have rep: "vq_rep vq [] ((i, l) # ps)" using ring by (simp add: rx_ring_def)
  from vq_reap_some [OF rep, of st] obtain vq1 where
    v1: "virtqueue_pop_used vq st = Some (Some (of_nat i, l), vq1, pop_stats (queue_index vq) st)"
    "vq_rep vq1 [i] ps" "vq_size vq1 = vq_size vq" "queue_index vq1 = queue_index vq"
    "avail_idx vq1 = avail_idx vq" "avail_ring vq1 = avail_ring vq"
    "map vd_addr (desc vq1) = map vd_addr (desc vq)" "map vd_len (desc vq1) = map vd_len (desc vq)" by blast
  have len: "length (desc vq1) = unat (vq_size vq)" "length (desc vq) = unat (vq_size vq)"
    using v1(2,3) rep by (simp_all add: vq_rep_def vq_free_def)
  have i: "i < unat (vq_size vq)" "i < 256" using vq_rep_sets(5) [OF rep] ring by (auto simp: rx_ring_def)
  have ui: "unat (of_nat i :: u16) = i" using i(2) by (simp add: unat_of_nat)
  have l: "unat l \<le> 2044" using ring by (simp add: rx_ring_def)
  let ?d = "\<lparr>vd_addr = rx_buffer_addr rxb (of_nat i), vd_len = RX_BUF_SIZE, vd_flags = VIRTQ_DESC_F_WRITE, vd_next = 0\<rparr>"
  have rest: "\<exists>vq2 vq3.
       virtqueue_add_descriptor vq1 (rx_buffer_addr rxb (of_nat i)) RX_BUF_SIZE VIRTQ_DESC_F_WRITE st'
         = Some (of_nat i, vq2, st'\<lparr>buffer_usage := buffer_usage st' + 1\<rparr>)
       \<and> virtqueue_push_available vdev vq2 (of_nat i) hw = Some (vq3, virtqueue_notify vdev (queue_index vq) hw)
       \<and> rx_ring rxb vq3 ps \<and> vq_size vq3 = vq_size vq \<and> avail_idx vq3 = avail_idx vq + 1
       \<and> avail_ring vq3 = (avail_ring vq)[unat (avail_idx vq) mod unat (vq_size vq) := of_nat i]" for st' vdev hw
  proof -
    from vq_take_some [OF v1(2), of "rx_buffer_addr rxb (of_nat i)" RX_BUF_SIZE VIRTQ_DESC_F_WRITE st'] obtain vq2 where
      v2: "virtqueue_add_descriptor vq1 (rx_buffer_addr rxb (of_nat i)) RX_BUF_SIZE VIRTQ_DESC_F_WRITE st'
         = Some (of_nat i, vq2, st'\<lparr>buffer_usage := buffer_usage st' + 1\<rparr>)"
      "vq_rep vq2 [] ps" "vq_size vq2 = vq_size vq1" "queue_index vq2 = queue_index vq1"
      "avail_idx vq2 = avail_idx vq1" "avail_ring vq2 = avail_ring vq1" "desc vq2 = (desc vq1)[i := ?d]" by blast
    from push_available_free [OF v2(2), of vdev "of_nat i" hw] obtain vq3 where
      v3: "virtqueue_push_available vdev vq2 (of_nat i) hw = Some (vq3, virtqueue_notify vdev (queue_index vq2) hw)"
      "vq_rep vq3 [] ps" "vq_size vq3 = vq_size vq2" "desc vq3 = desc vq2" "avail_idx vq3 = avail_idx vq2 + 1"
      "avail_ring vq3 = (avail_ring vq2)[unat (avail_idx vq2) mod unat (vq_size vq2) := of_nat i]" by blast
    have "vd_addr (desc vq3 ! j) = rx_buffer_addr rxb (of_nat j) \<and> vd_len (desc vq3 ! j) = RX_BUF_SIZE"
      if j: "j < unat (vq_size vq)" for j
      using map_eq_nth [OF v1(7), of j] map_eq_nth [OF v1(8), of j] ring j len v2(7) v3(4)
      by (cases "j = i") (auto simp: rx_ring_def)
    then have "rx_ring rxb vq3 ps" using v3(2,3) v2(3) v1(3) ring by (simp add: rx_ring_def)
    then show ?thesis
      using v2 v3 v1(3-6) by (intro exI [of _ vq2] exI [of _ vq3]) simp
  qed
  show thesis by (rule that [OF v1(1) i(2) ui l v1(3) rest])
qed

lemma rx_poll_none:
  assumes "rx_ring rxb (rx_queue k) []"
  shows "virtio_net_poll rxb vdev k = Some k"
proof -
  have "vq_rep (rx_queue k) [] []" using assms by (simp add: rx_ring_def)
  from vq_reap_none [OF this, of "k_stats k"] show ?thesis by (simp add: virtio_net_poll_def)
qed

lemma rx_poll_some:
  assumes inv: "net_inv k" and rx: "rx_inv rxb k" and ring: "rx_ring rxb (rx_queue k) ((i, l) # ps)"
  obtains vq1 k2 vq3 where
    "rx_deliver (drop 12 (concat (drop i (rx_buffers k)))) l
       (k\<lparr>rx_queue := vq1, k_stats := pop_stats (queue_index (rx_queue k)) (k_stats k)\<rparr>) = Some k2"
    "rx_ok (k\<lparr>rx_queue := vq1, k_stats := pop_stats (queue_index (rx_queue k)) (k_stats k)\<rparr>) k2"
    "virtio_net_poll rxb vdev k = Some (k2\<lparr>rx_queue := vq3,
       k_stats := (k_stats k2)\<lparr>buffer_usage := buffer_usage (k_stats k2) + 1\<rparr>,
       k_hw := virtqueue_notify vdev (queue_index (rx_queue k)) (k_hw k2)\<rparr>)"
    "rx_ring rxb vq3 ps"
    "vq_size vq3 = vq_size (rx_queue k)" "avail_idx vq3 = avail_idx (rx_queue k) + 1"
    "avail_ring vq3 = (avail_ring (rx_queue k))[unat (avail_idx (rx_queue k)) mod unat (vq_size (rx_queue k)) := of_nat i]"
proof (rule rx_pop_add [OF ring, of "k_stats k"], goal_cases)
  case (1 vq1)
  let ?k1 = "k\<lparr>rx_queue := vq1, k_stats := pop_stats (queue_index (rx_queue k)) (k_stats k)\<rparr>"
  let ?f = "drop 12 (concat (drop i (rx_buffers k)))"
  have i1: "net_inv ?k1" using inv net_inv_cong(1) [of ?k1 k] by simp
  have f: "2036 \<le> length ?f" by (rule rx_frame_length [OF _ _ 1(3)]) (use rx in \<open>simp_all add: rx_inv_def\<close>)
  then have len: "14 \<le> length ?f" "unat l \<le> length ?f + 8" using 1(5) by linarith+
  from rx_deliver_ok [OF i1 len] obtain k2 where k2: "rx_deliver ?f l ?k1 = Some k2" "rx_ok ?k1 k2" by blast
  have q2: "rx_queue k2 = vq1" using k2(2) by (simp add: rx_ok_def)
  from 1(7) [of "k_stats k2" vdev "k_hw k2"] obtain vq2 vq3 where
    v: "virtqueue_add_descriptor vq1 (rx_buffer_addr rxb (of_nat i)) RX_BUF_SIZE VIRTQ_DESC_F_WRITE (k_stats k2)
         = Some (of_nat i, vq2, (k_stats k2)\<lparr>buffer_usage := buffer_usage (k_stats k2) + 1\<rparr>)"
       "virtqueue_push_available vdev vq2 (of_nat i) (k_hw k2) = Some (vq3, virtqueue_notify vdev (queue_index (rx_queue k)) (k_hw k2))"
       "rx_ring rxb vq3 ps" "vq_size vq3 = vq_size (rx_queue k)" "avail_idx vq3 = avail_idx (rx_queue k) + 1"
       "avail_ring vq3 = (avail_ring (rx_queue k))[unat (avail_idx (rx_queue k)) mod unat (vq_size (rx_queue k)) := of_nat i]"
    by blast
  let ?k' = "k2\<lparr>rx_queue := vq3, k_stats := (k_stats k2)\<lparr>buffer_usage := buffer_usage (k_stats k2) + 1\<rparr>,
       k_hw := virtqueue_notify vdev (queue_index (rx_queue k)) (k_hw k2)\<rparr>"
  have "virtio_net_poll rxb vdev k = Some ?k'"
    using 1(2,3,4) k2(1) q2 v(1,2) rx by (simp add: virtio_net_poll_def rx_inv_def rx_refill_def)
  then show thesis by (rule that [OF k2 _ v(3-6)])
qed

lemma virtio_net_poll_ok:
  assumes inv: "net_inv k" and rx: "rx_inv rxb k"
  shows "\<exists>k'. virtio_net_poll rxb vdev k = Some k' \<and> net_inv k' \<and> rx_inv rxb k'
    \<and> global_vnet_dev k' = global_vnet_dev k \<and> (cache_ok (arp_cache k) \<longrightarrow> cache_ok (arp_cache k'))"
proof -
  obtain ps where ring: "rx_ring rxb (rx_queue k) ps" using rx by (auto simp: rx_inv_def)
  show ?thesis
  proof (cases ps)
    case Nil
    then show ?thesis using rx_poll_none [of rxb k vdev] ring inv rx by simp
  next
    case (Cons p ps')
    with ring have ring: "rx_ring rxb (rx_queue k) ((fst p, snd p) # ps')" by simp
    show ?thesis
    proof (rule rx_poll_some [OF inv rx ring, of vdev], goal_cases)
      case (1 vq1 k2 vq3)
      let ?k' = "k2\<lparr>rx_queue := vq3, k_stats := (k_stats k2)\<lparr>buffer_usage := buffer_usage (k_stats k2) + 1\<rparr>,
         k_hw := virtqueue_notify vdev (queue_index (rx_queue k)) (k_hw k2)\<rparr>"
      have "net_inv ?k'" using 1(2) net_inv_cong(1) [of ?k' k2] by (simp add: rx_ok_def)
      moreover have "rx_inv rxb ?k'" using 1(2,4) rx by (auto simp: rx_inv_def rx_ok_def)
      ultimately show ?thesis using 1(2,3) by (intro exI [of _ ?k']) (simp add: rx_ok_def)
    qed
  qed
qed

section \<open>The setup\<close>

lemma prefill_ok:
  assumes "vq_rep vq [j..<n] []" and "n = unat (vq_size vq)" and "j \<le> n" and "n \<le> 256"
    and "\<And>i. i < j \<Longrightarrow> vd_addr (desc vq ! i) = rx_buffer_addr rxb (of_nat i) \<and> vd_len (desc vq ! i) = RX_BUF_SIZE"
    and "avail_idx vq = of_nat j" and "take j (avail_ring vq) = map of_nat [0..<j]"
  shows "\<exists>vq'. prefill rxb [j..<n] (vq, st) = Some (vq', st\<lparr>buffer_usage := buffer_usage st + of_nat (n - j)\<rparr>)
    \<and> rx_ring rxb vq' [] \<and> vq_size vq' = vq_size vq \<and> queue_index vq' = queue_index vq
    \<and> avail_idx vq' = of_nat n \<and> avail_ring vq' = map of_nat [0..<n]"
  using assms
proof (induction "n - j" arbitrary: j vq st)
  case 0
  then have "j = n" by simp
  moreover have "length (avail_ring vq) = n" using 0 by (simp add: vq_rep_def vq_free_def)
  ultimately show ?case using 0 by (simp add: rx_ring_def)
next
  case (Suc m)
  then have j: "j < n" by simp
  then have up: "[j..<n] = j # [Suc j..<n]" by (simp add: upt_conv_Cons)
  have len: "length (desc vq) = n" "length (avail_ring vq) = n" using Suc(3,4) by (simp_all add: vq_rep_def vq_free_def)
  let ?a = "rx_buffer_addr rxb (of_nat j)"
  from vq_take_some [OF Suc(3) [unfolded up], of ?a RX_BUF_SIZE VIRTQ_DESC_F_WRITE st] obtain vq1 where
    v1: "virtqueue_add_descriptor vq ?a RX_BUF_SIZE VIRTQ_DESC_F_WRITE st
        = Some (of_nat j, vq1, st\<lparr>buffer_usage := buffer_usage st + 1\<rparr>)"
      "vq_rep vq1 [Suc j..<n] []" "vq_size vq1 = vq_size vq" "queue_index vq1 = queue_index vq"
      "avail_idx vq1 = avail_idx vq" "avail_ring vq1 = avail_ring vq"
      "desc vq1 = (desc vq)[j := \<lparr>vd_addr = ?a, vd_len = RX_BUF_SIZE, vd_flags = VIRTQ_DESC_F_WRITE, vd_next = 0\<rparr>]"
    by blast
  from avail_publish_free [OF vq_rep_free [OF v1(2)], of "of_nat j"] obtain vq2 where
    v2: "avail_publish vq1 (of_nat j) = Some vq2" "vq_free vq2 [Suc j..<n]" "unread vq2 = unread vq1"
      "vq_size vq2 = vq_size vq1" "queue_index vq2 = queue_index vq1" "desc vq2 = desc vq1"
      "avail_idx vq2 = avail_idx vq1 + 1"
      "avail_ring vq2 = (avail_ring vq1)[unat (avail_idx vq1) mod unat (vq_size vq1) := of_nat j]" by blast
  have pos: "unat (avail_idx vq1) mod unat (vq_size vq1) = j"
    using Suc(4,6,8) j v1(3,5) by (simp add: unat_of_nat)
  have ring: "avail_ring vq2 = (avail_ring vq)[j := of_nat j]" using v2(8) v1(6) unfolding pos by simp
  have "vq_rep vq2 [Suc j..<n] []" using v1(2) v2(2,3) by (simp add: vq_rep_def)
  moreover have "vd_addr (desc vq2 ! i) = rx_buffer_addr rxb (of_nat i) \<and> vd_len (desc vq2 ! i) = RX_BUF_SIZE"
    if "i < Suc j" for i
    using that Suc(7) [of i] j len by (cases "i = j") (auto simp: v2(6) v1(7))
  moreover have "take (Suc j) (avail_ring vq2) = map of_nat [0..<Suc j]"
    using Suc(9) j len by (simp add: ring take_Suc_conv_app_nth)
  ultimately have "\<exists>vq'. prefill rxb [Suc j..<n] (vq2, st\<lparr>buffer_usage := buffer_usage st + 1\<rparr>)
        = Some (vq', (st\<lparr>buffer_usage := buffer_usage st + 1\<rparr>)\<lparr>buffer_usage := buffer_usage st + 1 + of_nat (n - Suc j)\<rparr>)
    \<and> rx_ring rxb vq' [] \<and> vq_size vq' = vq_size vq2 \<and> queue_index vq' = queue_index vq2
    \<and> avail_idx vq' = of_nat n \<and> avail_ring vq' = map of_nat [0..<n]"
  proof -
    have c: "m = n - Suc j" "n = unat (vq_size vq2)" "Suc j \<le> n" "avail_idx vq2 = of_nat (Suc j)"
      using Suc(2,4,8) v1(3,5) v2(4,7) j by (simp_all add: add.commute)
    assume p: "vq_rep vq2 [Suc j..<n] []"
      "\<And>i. i < Suc j \<Longrightarrow> vd_addr (desc vq2 ! i) = rx_buffer_addr rxb (of_nat i) \<and> vd_len (desc vq2 ! i) = RX_BUF_SIZE"
      "take (Suc j) (avail_ring vq2) = map of_nat [0..<Suc j]"
    from Suc(1) [OF c(1) p(1) c(2,3) Suc(6) p(2) c(4) p(3), of "st\<lparr>buffer_usage := buffer_usage st + 1\<rparr>"]
    show ?thesis using p(2) by simp
  qed
  moreover have "prefill rxb [j..<n] (vq, st) = prefill rxb [Suc j..<n] (vq2, st\<lparr>buffer_usage := buffer_usage st + 1\<rparr>)"
    using up v1(1) v2(1) by (simp add: prefill_step_def)
  moreover have "buffer_usage st + 1 + of_nat (n - Suc j) = buffer_usage st + of_nat (n - j)"
    using Suc_diff_Suc [OF j] by (metis add.assoc of_nat_Suc)
  ultimately show ?case using v1(3,4) v2(4,5) by auto
qed

lemma ring_memory_init:
  assumes "0 < n" and "unat n dvd 65536" and "unat n \<le> 512"
  shows "\<exists>vq1 vq2. ring_memory n vq = Some vq1 \<and> virtqueue_init vq1 n index p = Some vq2
    \<and> vq_rep vq2 [0..<unat n] [] \<and> vq_size vq2 = n \<and> queue_index vq2 = index \<and> avail_idx vq2 = 0"
proof -
  have fits: "\<not> RING_MEM_SIZE < (18 * unat n + 9) div 4 * 4 + 4 + 8 * unat n"
    using assms(3) div_times_less_eq_dividend [of "18 * unat n + 9" 4] unfolding RING_MEM_SIZE_def by linarith
  let ?vq = "vq\<lparr>desc := replicate (unat n) \<lparr>vd_addr = 0, vd_len = 0, vd_flags = 0, vd_next = 0\<rparr>,
      avail_idx := 0, avail_ring := replicate (unat n) 0, used_idx := 0,
      used_ring := replicate (unat n) \<lparr>ue_id = 0, ue_len = 0\<rparr>\<rparr>"
  have "unat n \<le> 32768" "length (desc ?vq) = unat n" "length (avail_ring ?vq) = unat n"
    "length (used_ring ?vq) = unat n" "used_idx ?vq = 0" using assms(3) by simp_all
  from virtqueue_init_free [OF assms(1,2) this, of index p] obtain vq2 where
    "virtqueue_init ?vq n index p = Some vq2" "vq_free vq2 [0..<unat n]" "vq_size vq2 = n"
    "queue_index vq2 = index" "unread vq2 = []" "avail_idx vq2 = avail_idx ?vq" by blast
  then show ?thesis using fits
    by (intro exI [of _ ?vq] exI [of _ vq2]) (simp add: ring_memory_def vq_rep_def)
qed

text \<open>What the setup needs of the device: two rings whose sizes are powers of two that fit the static arrays.\<close>

definition ring_sizes_ok :: "kstate \<Rightarrow> bool" where
  "ring_sizes_ok k \<longleftrightarrow>
     (let rn = queue_size (queues (k_hw k) 0); tn = queue_size (queues (k_hw k) 1)
      in 0 < rn \<and> unat rn dvd 65536 \<and> unat rn \<le> 256 \<and> 0 < tn \<and> unat tn dvd 65536 \<and> unat tn \<le> 512)"

lemma k_print_fields [simp]:
  "k_heap (k_puts s k) = k_heap k" "tcbs (k_puts s k) = tcbs k" "tcp_tcb_list (k_puts s k) = tcp_tcb_list k"
  "aether_mac (k_puts s k) = aether_mac k" "rx_buffers (k_puts s k) = rx_buffers k" "k_hw (k_puts s k) = k_hw k"
  "tx_queue (k_puts s k) = tx_queue k" "rx_queue (k_puts s k) = rx_queue k" "k_stats (k_puts s k) = k_stats k"
  by (simp_all add: k_puts_def)

lemma k_bind_fields [simp]:
  "k_heap (k_bind_queue vq k) = k_heap k" "tcbs (k_bind_queue vq k) = tcbs k"
  "tcp_tcb_list (k_bind_queue vq k) = tcp_tcb_list k" "aether_mac (k_bind_queue vq k) = aether_mac k"
  "rx_buffers (k_bind_queue vq k) = rx_buffers k" "k_stats (k_bind_queue vq k) = k_stats k"
  "tx_queue (k_bind_queue vq k) = tx_queue k" "rx_queue (k_bind_queue vq k) = rx_queue k"
  by (simp_all add: k_bind_queue_def split_beta)

lemma bind_queue_other:
  "i \<noteq> queue_index vq \<Longrightarrow> queues (k_hw (k_bind_queue vq k)) i = queues (k_hw k) i"
  by (simp add: k_bind_queue_def virtio_pci_bind_queue_def Let_def)

lemma k_select_fields [simp]:
  "k_heap (k_select_queue i k) = k_heap k" "tcbs (k_select_queue i k) = tcbs k"
  "tcp_tcb_list (k_select_queue i k) = tcp_tcb_list k" "aether_mac (k_select_queue i k) = aether_mac k"
  "rx_buffers (k_select_queue i k) = rx_buffers k" "k_stats (k_select_queue i k) = k_stats k"
  "tx_queue (k_select_queue i k) = tx_queue k" "rx_queue (k_select_queue i k) = rx_queue k"
  "selected_queue_size (k_select_queue i k) = queue_size (queues (k_hw k) i)"
  "queues (k_hw (k_select_queue i k)) = queues (k_hw k)"
  by (simp_all add: k_select_queue_def selected_queue_size_def)

lemma notify_queues [simp]: "queues (virtqueue_notify vdev i hw) = queues hw"
  by (simp add: virtqueue_notify_def Let_def)

lemma setup_queues_ok:
  assumes sizes: "ring_sizes_ok k"
  shows "\<exists>k' rq tq. virtio_net_setup_queues rxb rm tm vdev k = Some (vdev\<lparr>rx_vq := True, tx_vq := True\<rparr>, k')
    \<and> rx_queue k' = rq \<and> tx_queue k' = tq
    \<and> rx_ring rxb rq [] \<and> avail_ring rq = map of_nat [0..<unat (queue_size (queues (k_hw k) 0))]
    \<and> avail_idx rq = of_nat (unat (queue_size (queues (k_hw k) 0)))
    \<and> vq_rep tq [0..<unat (queue_size (queues (k_hw k) 1))] [] \<and> vq_size tq = queue_size (queues (k_hw k) 1)
    \<and> queue_index rq = 0 \<and> queue_index tq = 1
    \<and> k_heap k' = k_heap k \<and> tcbs k' = tcbs k \<and> tcp_tcb_list k' = tcp_tcb_list k
    \<and> aether_mac k' = aether_mac k \<and> rx_buffers k' = rx_buffers k"
proof -
  let ?rn = "queue_size (queues (k_hw k) 0)" and ?tn = "queue_size (queues (k_hw k) 1)"
  have rn: "0 < ?rn" "unat ?rn dvd 65536" "unat ?rn \<le> 256" and tn: "0 < ?tn" "unat ?tn dvd 65536" "unat ?tn \<le> 512"
    using sizes by (simp_all add: ring_sizes_ok_def Let_def)
  let ?k1 = "k_select_queue 0 (k_puts (str ''[NET] Setting up RX/TX queues...'' @ crlf) k)"
  have "unat ?rn \<le> 512" using rn by simp
  from ring_memory_init [OF rn(1,2) this, of "rx_queue k" 0 rm] obtain m0 q0 where
    q0: "ring_memory ?rn (rx_queue k) = Some m0" "virtqueue_init m0 ?rn 0 rm = Some q0"
      "vq_rep q0 [0..<unat ?rn] []" "vq_size q0 = ?rn" "queue_index q0 = 0" "avail_idx q0 = 0" by blast
  let ?k2 = "k_bind_queue q0 ?k1"
  have "\<exists>vq'. prefill rxb [0..<unat ?rn] (q0, k_stats k) =
        Some (vq', (k_stats k)\<lparr>buffer_usage := buffer_usage (k_stats k) + of_nat (unat ?rn - 0)\<rparr>)
    \<and> rx_ring rxb vq' [] \<and> vq_size vq' = vq_size q0 \<and> queue_index vq' = queue_index q0
    \<and> avail_idx vq' = of_nat (unat ?rn) \<and> avail_ring vq' = map of_nat [0..<unat ?rn]"
    using q0(3-6) rn(3) by (intro prefill_ok) simp_all
  then obtain q1 st1 where q1: "prefill rxb [0..<unat ?rn] (q0, k_stats k) = Some (q1, st1)" "rx_ring rxb q1 []"
    "queue_index q1 = 0" "avail_idx q1 = of_nat (unat ?rn)" "avail_ring q1 = map of_nat [0..<unat ?rn]"
    using q0(5) by auto
  let ?k3 = "?k2\<lparr>rx_queue := q1, k_stats := st1, k_hw := virtqueue_notify (vdev\<lparr>rx_vq := True\<rparr>) 0 (k_hw ?k2)\<rparr>"
  let ?k4 = "k_select_queue 1 ?k3"
  have t: "selected_queue_size ?k4 = ?tn" using bind_queue_other [of 1 q0 ?k1] q0(5) by simp
  from ring_memory_init [OF tn, of "tx_queue k" 1 tm] obtain m1 q2 where
    q2: "ring_memory ?tn (tx_queue k) = Some m1" "virtqueue_init m1 ?tn 1 tm = Some q2"
      "vq_rep q2 [0..<unat ?tn] []" "vq_size q2 = ?tn" "queue_index q2 = 1" by blast
  let ?k5 = "k_puts (str ''[NET] Queues Ready'' @ crlf) ((k_bind_queue q2 ?k4)\<lparr>tx_queue := q2\<rparr>)"
  have run: "virtio_net_setup_queues rxb rm tm vdev k = Some (vdev\<lparr>rx_vq := True, tx_vq := True\<rparr>, ?k5)"
    unfolding virtio_net_setup_queues_def Let_def RX_QUEUE_INDEX_def TX_QUEUE_INDEX_def
    using rn(1) tn(1) q0(1,2) q1(1) q2(1,2) t by simp
  show ?thesis
    by (intro exI conjI, rule run) (use q1 q2 in simp_all)
qed

section \<open>Runs of the network\<close>

text \<open>
  The driver polls and reaps in any order; in between the device fills receive buffers it owns,
  with any bytes, and completes frames it was given.
\<close>

inductive net_step :: "addr \<Rightarrow> kstate \<Rightarrow> kstate \<Rightarrow> bool" for rxb where
  poll: "global_vnet_dev k = Some vdev \<Longrightarrow> virtio_net_poll rxb vdev k = Some k' \<Longrightarrow> net_step rxb k k'"
| reap: "net_tx_reaper k = Some k' \<Longrightarrow> net_step rxb k k'"
| rx_frame: "i \<in> device_ids (rx_queue k) \<Longrightarrow> length b = 2048 \<Longrightarrow> unat l \<le> 2044 \<Longrightarrow>
    net_step rxb k (k\<lparr>rx_buffers := (rx_buffers k)[i := b], rx_queue := dev_complete i l (rx_queue k)\<rparr>)"
| tx_done: "i \<in> device_ids (tx_queue k) \<Longrightarrow> net_step rxb k (k\<lparr>tx_queue := dev_complete i l (tx_queue k)\<rparr>)"

definition net_start :: "kstate \<Rightarrow> bool" where
  "net_start k \<longleftrightarrow> net_inv k \<and> in_flight (tx_queue k) = {} \<and> cache_ok (arp_cache k)
     \<and> length (rx_buffers k) = 256 \<and> (\<forall>b \<in> set (rx_buffers k). length b = 2048) \<and> ring_sizes_ok k"

inductive net_reach :: "addr \<Rightarrow> kstate \<Rightarrow> bool" for rxb where
  start: "net_start k \<Longrightarrow> virtio_net_setup_queues rxb rm tm vdev k = Some (vdev', k') \<Longrightarrow>
    net_reach rxb (k'\<lparr>global_vnet_dev := Some vdev', arp_cache := arp_cache k\<rparr>)"
| step: "net_reach rxb k \<Longrightarrow> net_step rxb k k' \<Longrightarrow> net_reach rxb k'"

inductive_cases net_stepE: "net_step rxb k k'"

definition net_ok :: "addr \<Rightarrow> kstate \<Rightarrow> bool" where
  "net_ok rxb k \<longleftrightarrow> net_inv k \<and> rx_inv rxb k \<and> tx_up k \<and> cache_ok (arp_cache k)"

lemma net_inv_tx_done:
  assumes inv: "net_inv k" and up: "tx_up k" and i: "i \<in> device_ids (tx_queue k)"
  shows "net_inv (k\<lparr>tx_queue := dev_complete i l (tx_queue k)\<rparr>)"
proof -
  let ?vq = "tx_queue k" and ?vq' = "dev_complete i l (tx_queue k)" and ?k = "k\<lparr>tx_queue := dev_complete i l (tx_queue k)\<rparr>"
  from inv up obtain fs where vf: "vq_free ?vq fs" by (auto simp: net_inv_def tx_inv_def vq_inv_def)
  have vf': "vq_free ?vq' fs"
    using dev_complete_free(1) [OF vf, of i l] i free_ids_eq [OF vf] by (auto simp: device_ids_def in_flight_def)
  have fl: "in_flight ?vq' = in_flight ?vq"
    by (simp add: in_flight_def free_ids_eq [OF vf] free_ids_eq [OF vf']) (simp add: dev_complete_def)
  have d: "desc ?vq' = desc ?vq" by (simp add: dev_complete_def)
  have buf: "tx_buf ?k = tx_buf k" by (simp add: tx_buf_def [abs_def] d)
  have bufs: "tx_bufs ?k = tx_bufs k" by (simp add: tx_bufs_def buf fl)
  have "vq_inv ?vq'" using vf' by (auto simp: vq_inv_def)
  then have "tx_inv ?k" using inv by (simp add: net_inv_def tx_inv_def fl buf d tx_up_def)
  then show ?thesis using inv bufs by (simp add: net_inv_def conns_def)
qed

lemma rx_inv_frame:
  assumes rx: "rx_inv rxb k" and i: "i \<in> device_ids (rx_queue k)" and b: "length b = 2048" and l: "unat l \<le> 2044"
  shows "rx_inv rxb (k\<lparr>rx_buffers := (rx_buffers k)[i := b], rx_queue := dev_complete i l (rx_queue k)\<rparr>)"
proof -
  from rx obtain ps where ring: "rx_ring rxb (rx_queue k) ps" by (auto simp: rx_inv_def)
  then have rep: "vq_rep (rx_queue k) [] ps" by (simp add: rx_ring_def)
  have "i < unat (vq_size (rx_queue k))" "i \<notin> set ([] :: nat list)" "i \<notin> set (done_ids (rx_queue k))"
    using i by (auto simp: device_ids_def in_flight_def)
  note dc = dev_complete_free [OF vq_rep_free [OF rep] this, of l]
  have "unat (of_nat i :: u32) = i"
    using \<open>i < _\<close> ring by (simp add: rx_ring_def unat_of_nat)
  then have "vq_rep (dev_complete i l (rx_queue k)) [] (ps @ [(i, l)])"
    using dc rep by (auto simp: vq_rep_def)
  then have "rx_ring rxb (dev_complete i l (rx_queue k)) (ps @ [(i, l)])"
    using ring l by (auto simp: rx_ring_def dev_complete_def)
  moreover have "\<forall>c \<in> set ((rx_buffers k)[i := b]). length c = 2048"
    using rx b set_update_subset_insert [of "rx_buffers k" i b] by (auto simp: rx_inv_def)
  ultimately show ?thesis using rx by (auto simp: rx_inv_def)
qed

lemma reaper_net_ok:
  assumes ok: "net_ok rxb k"
  shows "\<exists>k'. net_tx_reaper k = Some k' \<and> net_ok rxb k'"
proof -
  have "net_inv k" "tx_up k" using ok by (simp_all add: net_ok_def)
  from reaper_spec [OF this] obtain k' where
    k': "net_tx_reaper k = Some k'" "net_inv k'" "same_conns k k'" by blast
  then have "net_ok rxb k'" using ok by (simp add: net_ok_def rx_inv_def tx_up_def same_conns_def)
  with k'(1) show ?thesis by blast
qed

lemma poll_net_ok: "net_ok rxb k \<Longrightarrow> \<exists>k'. virtio_net_poll rxb vdev k = Some k' \<and> net_ok rxb k'"
  using virtio_net_poll_ok [of k rxb vdev] by (auto simp: net_ok_def tx_up_def)

lemma net_step_ok: "net_step rxb k k' \<Longrightarrow> net_ok rxb k \<Longrightarrow> net_ok rxb k'"
proof (elim net_stepE)
  fix vdev assume "net_ok rxb k" "virtio_net_poll rxb vdev k = Some k'"
  then show "net_ok rxb k'" using poll_net_ok [of rxb k vdev] by auto
next
  assume "net_ok rxb k" "net_tx_reaper k = Some k'"
  then show "net_ok rxb k'" using reaper_net_ok [of rxb k] by auto
next
  fix i b l assume ok: "net_ok rxb k" and i: "i \<in> device_ids (rx_queue k)" "length b = 2048" "unat l \<le> 2044"
    and k': "k' = k\<lparr>rx_buffers := (rx_buffers k)[i := b], rx_queue := dev_complete i l (rx_queue k)\<rparr>"
  have "net_inv k'" using ok net_inv_cong(1) [of k' k] by (simp add: k' net_ok_def)
  moreover have "rx_inv rxb k'" using rx_inv_frame [OF _ i] ok by (simp add: k' net_ok_def)
  ultimately show "net_ok rxb k'" using ok by (simp add: net_ok_def k' tx_up_def)
next
  fix i l assume ok: "net_ok rxb k" and i: "i \<in> device_ids (tx_queue k)"
    and k': "k' = k\<lparr>tx_queue := dev_complete i l (tx_queue k)\<rparr>"
  have "net_inv k'" using net_inv_tx_done [OF _ _ i] ok by (simp add: k' net_ok_def)
  then show "net_ok rxb k'" using ok by (simp add: net_ok_def k' tx_up_def rx_inv_def)
qed

lemma setup_net_ok:
  assumes st: "net_start k" and su: "virtio_net_setup_queues rxb rm tm vdev k = Some (vdev', k')"
  shows "net_ok rxb (k'\<lparr>global_vnet_dev := Some vdev', arp_cache := arp_cache k\<rparr>)"
proof -
  let ?k = "k'\<lparr>global_vnet_dev := Some vdev', arp_cache := arp_cache k\<rparr>"
  have "ring_sizes_ok k" using st by (simp add: net_start_def)
  from setup_queues_ok [OF this, of rxb rm tm vdev] su have
    v: "vdev' = vdev\<lparr>rx_vq := True, tx_vq := True\<rparr>" and rx: "rx_ring rxb (rx_queue k') []"
    and tx: "\<exists>n. vq_rep (tx_queue k') [0..<n] [] \<and> n = unat (vq_size (tx_queue k'))"
    and same: "k_heap k' = k_heap k" "tcbs k' = tcbs k" "tcp_tcb_list k' = tcp_tcb_list k"
      "aether_mac k' = aether_mac k" "rx_buffers k' = rx_buffers k" by auto
  have fl: "in_flight (tx_queue k') = {}" using tx in_flight_rep by fastforce
  have "vq_inv (tx_queue k')" using tx by (auto simp: vq_inv_rep)
  then have "tx_inv ?k" using st same fl by (simp add: net_start_def net_inv_def tx_inv_def)
  moreover obtain as where "conns k as" using st by (auto simp: net_start_def net_inv_def)
  then have "conns ?k as" using same fl by (simp add: conns_def tx_bufs_def)
  ultimately have "net_inv ?k" by (auto simp: net_inv_def)
  then show ?thesis using st rx same v by (auto simp: net_ok_def rx_inv_def net_start_def tx_up_def)
qed

lemma net_reach_ok: "net_reach rxb k \<Longrightarrow> net_ok rxb k"
  by (induction rule: net_reach.induct) (auto intro: setup_net_ok net_step_ok)

section \<open>Properties\<close>

text \<open>
  The setup establishes the network: with ring sizes that fit, it returns with both queues
  live, every receive descriptor in flight over the buffer of its own index and published in
  order, the transmit ring all free, and the invariant of connections and heap intact.
\<close>

lemma setup_publishes_all_receive_buffers:
  assumes "net_start k"
  shows "\<exists>vdev' k'. virtio_net_setup_queues rxb rm tm vdev k = Some (vdev', k')
    \<and> net_ok rxb (k'\<lparr>global_vnet_dev := Some vdev', arp_cache := arp_cache k\<rparr>)
    \<and> free_ids (rx_queue k') = {} \<and> unread (rx_queue k') = []
    \<and> avail_ring (rx_queue k') = map of_nat [0..<unat (queue_size (queues (k_hw k) 0))]
    \<and> (\<forall>i < unat (vq_size (rx_queue k')). vd_addr (desc (rx_queue k') ! i) = rxb + 2048 * of_nat i)
    \<and> in_flight (tx_queue k') = {}"
proof -
  have "ring_sizes_ok k" using assms by (simp add: net_start_def)
  from setup_queues_ok [OF this, of rxb rm tm vdev] obtain k' where
    su: "virtio_net_setup_queues rxb rm tm vdev k = Some (vdev\<lparr>rx_vq := True, tx_vq := True\<rparr>, k')"
    and rx: "rx_ring rxb (rx_queue k') []"
      "avail_ring (rx_queue k') = map of_nat [0..<unat (queue_size (queues (k_hw k) 0))]"
    and tx: "\<exists>n. vq_rep (tx_queue k') [0..<n] [] \<and> n = unat (vq_size (tx_queue k'))" by auto
  have "vq_rep (rx_queue k') [] []" using rx(1) by (simp add: rx_ring_def)
  then have "free_ids (rx_queue k') = {}" "unread (rx_queue k') = []"
    using free_ids_eq [OF vq_rep_free] by (auto simp: vq_rep_def)
  moreover have "in_flight (tx_queue k') = {}" using tx in_flight_rep by fastforce
  moreover have "vd_addr (desc (rx_queue k') ! i) = rxb + 2048 * of_nat i" if i: "i < unat (vq_size (rx_queue k'))" for i
  proof -
    have "i < 256" using i rx(1) by (simp add: rx_ring_def)
    then have "unat (of_nat i :: u16) = i" by (simp add: unat_of_nat)
    then have "(ucast (of_nat i :: u16) :: u64) = of_nat i" by (metis of_nat_unat)
    then show ?thesis using rx(1) i by (simp add: rx_ring_def rx_buffer_addr_def)
  qed
  ultimately show ?thesis using su rx(2) setup_net_ok [OF assms su] by blast
qed

definition sample_boot :: kstate where
  "sample_boot = (boot_state (\<lambda>_. 0) 0)\<lparr>k_hw := (k_hw (boot_state (\<lambda>_. 0) 0))\<lparr>queues := \<lambda>_.
     \<lparr>queue_size = 256, queue_enable = 0, queue_notify_off = 0, queue_desc_lo = 0, queue_desc_hi = 0,
      queue_avail_lo = 0, queue_avail_hi = 0, queue_used_lo = 0, queue_used_hi = 0\<rparr>\<rparr>\<rparr>"

definition sample_vdev :: virtio_pci_device where
  "sample_vdev = \<lparr>bus = 0, dev = 1, func = 0, common = 0x80000000, device = 0x80001000, isr = 0x80002000,
     notify_base = 0x80003000, notify_off_multiplier = 4, rx_vq = False, tx_vq = False\<rparr>"

lemma sample_boot_start: "net_start sample_boot"
proof -
  have "net_inv sample_boot"
    using boot_net_inv [of "\<lambda>_. 0" 0] net_inv_cong(1) [of sample_boot "boot_state (\<lambda>_. 0) 0"]
    by (simp add: sample_boot_def)
  moreover have "cache_ok (replicate n \<lparr>ae_ip = 0, ae_mac = m\<rparr>)" for n m by (cases n) simp_all
  ultimately show ?thesis
    by (simp add: net_start_def sample_boot_def boot_state_def in_flight_def fresh_queue_def ring_sizes_ok_def)
qed

definition receipt_pair :: "virtq_used_elem \<Rightarrow> nat \<times> u32" where
  "receipt_pair e = (unat (ue_id e), ue_len e)"

lemma receipt_pair_inj: "inj receipt_pair"
  by (rule injI, rename_tac x y, case_tac x, case_tac y) (simp add: receipt_pair_def flip: word_unat_eq_iff)

text \<open>
  C9: one poll. Without a receipt nothing changes. With one, the oldest is taken, the frame at
  offset 12 of exactly that descriptor's buffer is handed to the stack with the length the device
  reported, and afterwards the same buffer is given back under the same index: the ring entry is
  that index, every descriptor again describes the buffer of its own index, and the remaining
  receipts are unread. The handlers in between cannot fault and keep the invariant.
\<close>

theorem poll_delivers_oldest_frame_and_recycles:
  assumes "net_inv k" and "rx_inv rxb k"
  shows "(unread (rx_queue k) = [] \<and> virtio_net_poll rxb vdev k = Some k)
    \<or> (\<exists>e es vq1 k2 k'. unread (rx_queue k) = e # es
         \<and> rx_deliver (drop 12 (concat (drop (unat (ue_id e)) (rx_buffers k)))) (ue_len e)
             (k\<lparr>rx_queue := vq1, k_stats := pop_stats (queue_index (rx_queue k)) (k_stats k)\<rparr>) = Some k2
         \<and> virtio_net_poll rxb vdev k = Some k' \<and> net_inv k' \<and> rx_inv rxb k'
         \<and> unread (rx_queue k') = es \<and> k_heap k' = k_heap k2 \<and> tcbs k' = tcbs k2
         \<and> tx_queue k' = tx_queue k2 \<and> arp_cache k' = arp_cache k2
         \<and> avail_idx (rx_queue k') = avail_idx (rx_queue k) + 1
         \<and> avail_ring (rx_queue k') = (avail_ring (rx_queue k))
             [unat (avail_idx (rx_queue k)) mod unat (vq_size (rx_queue k)) := ucast (ue_id e)])"
proof -
  obtain ps where ring: "rx_ring rxb (rx_queue k) ps" using assms(2) by (auto simp: rx_inv_def)
  then have un: "map (\<lambda>e. (unat (ue_id e), ue_len e)) (unread (rx_queue k)) = ps" by (simp add: rx_ring_def vq_rep_def)
  show ?thesis
  proof (cases "unread (rx_queue k)")
    case Nil
    with un have "ps = []" by simp
    then show ?thesis using rx_poll_none [of rxb k vdev] ring Nil by simp
  next
    case (Cons e es)
    obtain ps' where ps: "ps = (unat (ue_id e), ue_len e) # ps'" using un Cons by auto
    show ?thesis
    proof (rule rx_poll_some [OF assms ring [unfolded ps], of vdev], goal_cases)
      case (1 vq1 k2 vq3)
      let ?k' = "k2\<lparr>rx_queue := vq3, k_stats := (k_stats k2)\<lparr>buffer_usage := buffer_usage (k_stats k2) + 1\<rparr>,
         k_hw := virtqueue_notify vdev (queue_index (rx_queue k)) (k_hw k2)\<rparr>"
      have inv: "net_inv ?k'" using 1(2) net_inv_cong(1) [of ?k' k2] by (simp add: rx_ok_def)
      have rxi: "rx_inv rxb ?k'" using 1(2,4) assms(2) by (auto simp: rx_inv_def rx_ok_def)
      have idw: "(of_nat (unat (ue_id e)) :: u16) = ucast (ue_id e)" by simp
      have "map receipt_pair (unread vq3) = map receipt_pair es"
        using 1(4) un Cons ps by (simp add: rx_ring_def vq_rep_def receipt_pair_def [abs_def])
      then have "unread vq3 = es" by (simp add: inj_map_eq_map [OF receipt_pair_inj])
      then show ?thesis using 1 inv rxi Cons idw
        by (intro disjI2 exI [of _ e] exI [of _ es] exI [of _ vq1] exI [of _ k2] exI [of _ ?k']) simp
    qed
  qed
qed

definition sample_up :: "kstate \<Rightarrow> bool" where
  "sample_up k \<longleftrightarrow> net_reach 0x40200000 k \<and> unread (rx_queue k) = [\<lparr>ue_id = 0, ue_len = 70\<rparr>]"

lemma sample_up_exists: "\<exists>k. sample_up k"
proof -
  have "ring_sizes_ok sample_boot" using sample_boot_start by (simp add: net_start_def)
  from setup_queues_ok [OF this, of "0x40200000" "0x40280000" "0x40284000" sample_vdev] obtain k' where
    su: "virtio_net_setup_queues 0x40200000 0x40280000 0x40284000 sample_vdev sample_boot
        = Some (sample_vdev\<lparr>rx_vq := True, tx_vq := True\<rparr>, k')"
    and rx: "rx_ring 0x40200000 (rx_queue k') []" "avail_ring (rx_queue k') = map of_nat [0..<unat (queue_size (queues (k_hw sample_boot) 0))]"
    by auto
  let ?k = "k'\<lparr>global_vnet_dev := Some (sample_vdev\<lparr>rx_vq := True, tx_vq := True\<rparr>), arp_cache := arp_cache sample_boot\<rparr>"
  let ?b = "replicate 2048 0 :: bytes"
  let ?k' = "?k\<lparr>rx_buffers := (rx_buffers ?k)[0 := ?b], rx_queue := dev_complete 0 70 (rx_queue ?k)\<rparr>"
  have r: "net_reach 0x40200000 ?k" by (rule net_reach.start [OF sample_boot_start su])
  have rep: "vq_rep (rx_queue k') [] []" using rx(1) by (simp add: rx_ring_def)
  have "0 < vq_size (rx_queue k')" using rep by (simp add: vq_rep_def vq_free_def)
  then have pos: "0 < unat (vq_size (rx_queue k'))" by (simp add: word_less_nat_alt)
  have "0 \<in> device_ids (rx_queue ?k)" using device_ids_rep [OF rep] pos by simp
  then have s: "net_step 0x40200000 ?k ?k'" by (rule net_step.rx_frame) simp_all
  have "done_ids (rx_queue k') = []" "unread (rx_queue k') = []" using rep by (auto simp: vq_rep_def done_ids_def)
  then have "unread (rx_queue ?k') = [\<lparr>ue_id = 0, ue_len = 70\<rparr>]"
    using dev_complete_free(2) [OF vq_rep_free [OF rep] pos, of 70] by simp
  then show ?thesis using net_reach.step [OF r s] by (auto simp: sample_up_def)
qed

theorem poll_delivers_oldest_frame_and_recycles_witness:
  "\<exists>k vq1 k2 k'. rx_deliver (drop 12 (concat (rx_buffers k))) 70
             (k\<lparr>rx_queue := vq1, k_stats := pop_stats (queue_index (rx_queue k)) (k_stats k)\<rparr>) = Some k2
     \<and> virtio_net_poll 0x40200000 sample_vdev k = Some k' \<and> unread (rx_queue k') = [] \<and> k_heap k' = k_heap k2"
proof -
  obtain k where k: "sample_up k" using sample_up_exists by blast
  then have "net_ok 0x40200000 k" using net_reach_ok by (auto simp: sample_up_def)
  then have i: "net_inv k" "rx_inv 0x40200000 k" by (simp_all add: net_ok_def)
  from poll_delivers_oldest_frame_and_recycles [OF i, of sample_vdev] k show ?thesis
    by (fastforce simp: sample_up_def)
qed



end
