(* ===== verification/Timer.thy ===== *)
theory Timer
  imports Uart
begin

text \<open>
  The system timer (src/drivers/timer.c), the firmware calls (src/drivers/psci.c) and the
  exception handlers (src/kernel/exception.c). System registers are fields of the state; the
  acknowledge register's value, which the interrupt controller supplies, is an argument.
\<close>

section \<open>The timer\<close>

record timer =
  timer_freq :: u64
  uptime_ms :: u64
  cntfrq_el0 :: u64
  cntp_tval_el0 :: u64
  cntp_ctl_el0 :: u64

definition get_timer_freq :: "timer \<Rightarrow> u64" where
  "get_timer_freq t = cntfrq_el0 t"

definition timer_init :: "timer \<Rightarrow> timer" where
  "timer_init t =
     (let t = t\<lparr>timer_freq := get_timer_freq t\<rparr>;
          interval = timer_freq t div 100;
          t = t\<lparr>cntp_tval_el0 := interval\<rparr>
      in t\<lparr>cntp_ctl_el0 := 1\<rparr>)"

definition handle_timer_irq :: "timer \<Rightarrow> timer" where
  "handle_timer_irq t =
     (let t = t\<lparr>uptime_ms := uptime_ms t + 10\<rparr>;
          frq = cntfrq_el0 t
      in t\<lparr>cntp_tval_el0 := frq div 100\<rparr>)"

definition get_system_uptime_ms :: "timer \<Rightarrow> u64" where
  "get_system_uptime_ms t = uptime_ms t"

text \<open>The clock-based sequence number of tcp.c, which nothing calls.\<close>

definition tcp_generate_isn :: "timer \<Rightarrow> u32" where
  "tcp_generate_isn t = ucast (get_system_uptime_ms t * 250)"

section \<open>Interrupts\<close>

definition TIMER_IRQ_ID :: u32 where "TIMER_IRQ_ID = 30"

record cpu =
  tmr :: timer
  eois :: "u32 list"

definition handle_irq_exception :: "u32 \<Rightarrow> cpu \<Rightarrow> cpu" where
  "handle_irq_exception iar c =
     (let irq_id = iar AND 0x3FF;
          c = (if irq_id = TIMER_IRQ_ID then c\<lparr>tmr := handle_timer_irq (tmr c)\<rparr> else c)
      in c\<lparr>eois := eois c @ [iar]\<rparr>)"

section \<open>The panic screen\<close>

definition data_abort_text :: "u32 \<Rightarrow> uart \<Rightarrow> uart" where
  "data_abort_text iss u =
     (let u = uart_puts (str ''Data Abort (EL1)'') u;
          u = (if iss AND 0x3F = 0x05 then uart_puts (str '' [Translation Fault Level 1]'') u else u);
          u = (if iss AND 0x3F = 0x06 then uart_puts (str '' [Translation Fault Level 2]'') u else u)
      in if iss AND 0x3F = 0x0F then uart_puts (str '' [Permission Fault Level 3]'') u else u)"

definition condition_text :: "u32 \<Rightarrow> u32 \<Rightarrow> uart \<Rightarrow> uart" where
  "condition_text ec iss u =
     (if ec = 0x00 then uart_puts (str ''Unknown/Undefined Instruction'') u
      else if ec = 0x21 then uart_puts (str ''Instruction Abort (Lower EL)'') u
      else if ec = 0x25 then data_abort_text iss u
      else if ec = 0x3C then uart_puts (str ''Breakpoint'') u
      else uart_put_hex (ucast ec) (uart_puts (str ''Other Syndrome: '') u))"

definition register_line :: "u64 list \<Rightarrow> nat \<Rightarrow> uart \<Rightarrow> uart" where
  "register_line x i u =
     (let u = uart_puts (str ''x'') u;
          u = (if i < 10 then uart_puts (str ''0'') u else u);
          u = uart_put_int (of_nat i) u;
          u = uart_puts (str '': '') u;
          u = uart_put_hex (x ! i) u
      in if (i + 1) mod 2 = 0 then uart_puts crlf u else uart_puts (str ''    '') u)"

text \<open>
  The handler prints and then spins for ever; the result is the console at that point. The frame
  holds the 31 general registers.
\<close>

definition handle_sync_exception :: "u64 \<Rightarrow> u64 \<Rightarrow> u64 \<Rightarrow> u64 list \<Rightarrow> uart \<Rightarrow> uart option" where
  "handle_sync_exception esr elr far x u =
     (if length x < 31 then None
      else
       let u = uart_puts (crlf @ str ''--- [!!!] KERNEL PANIC: SYNCHRONOUS ABORT [!!!] ---'' @ crlf) u;
           ec = ucast (drop_bit 26 esr AND 0x3F);
           iss = ucast (esr AND 0xFFFFFF);
           u = uart_puts (str ''Condition: '') u;
           u = condition_text ec iss u;
           u = uart_put_hex esr (uart_puts (crlf @ str ''ESR_EL1: '') u);
           u = uart_put_hex far (uart_puts (crlf @ str ''FAR_EL1: '') u);
           u = uart_put_hex elr (uart_puts (crlf @ str ''ELR_EL1: '') u);
           u = uart_puts crlf u;
           u = uart_puts (crlf @ str ''--- General Purpose Registers ---'' @ crlf) u;
           u = fold (register_line x) [0..<31] u;
           u = uart_put_hex (x ! 30) (uart_puts (crlf @ crlf @ str ''LR (x30): '') u)
       in Some (uart_puts (crlf @ str ''--------------------------------------------------'' @ crlf) u))"

section \<open>Power off\<close>

definition PSCI_SYSTEM_OFF :: u32 where "PSCI_SYSTEM_OFF = 0x84000008"
definition PSCI_SYSTEM_RESET :: u32 where "PSCI_SYSTEM_RESET = 0x84000009"

text \<open>
  A firmware call is an event: the function and its arguments. If the firmware returns, the code
  waits for interrupts for ever, so the calls made and the console are all that is left to say.
\<close>

record firmware =
  fw_uart :: uart
  fw_calls :: "(u32 \<times> u64 \<times> u64 \<times> u64) list"

definition psci_call :: "u32 \<Rightarrow> u64 \<Rightarrow> u64 \<Rightarrow> u64 \<Rightarrow> firmware \<Rightarrow> firmware" where
  "psci_call function_id arg1 arg2 arg3 f =
     f\<lparr>fw_calls := fw_calls f @ [(function_id, arg1, arg2, arg3)]\<rparr>"

definition psci_system_off :: "firmware \<Rightarrow> firmware" where
  "psci_system_off f =
     (let f = f\<lparr>fw_uart := uart_puts (str ''[PSCI] Sending SYSTEM_OFF signal...'' @ crlf) (fw_uart f)\<rparr>
      in psci_call PSCI_SYSTEM_OFF 0 0 0 f)"

definition psci_system_reset :: "firmware \<Rightarrow> firmware" where
  "psci_system_reset f =
     (let f = f\<lparr>fw_uart := uart_puts (str ''[PSCI] Sending SYSTEM_RESET signal...'' @ crlf) (fw_uart f)\<rparr>
      in psci_call PSCI_SYSTEM_RESET 0 0 0 f)"

section \<open>Properties of the tick\<close>

text \<open>The uptime counts ten milliseconds for each timer interrupt, and every interrupt is ended.\<close>

definition ticks :: "u32 list \<Rightarrow> nat" where
  "ticks iars = length (filter (\<lambda>iar. iar AND 0x3FF = TIMER_IRQ_ID) iars)"

lemma irqs_cpu:
  "uptime_ms (tmr (fold handle_irq_exception iars c)) = uptime_ms (tmr c) + 10 * of_nat (ticks iars)
   \<and> eois (fold handle_irq_exception iars c) = eois c @ iars
   \<and> cntfrq_el0 (tmr (fold handle_irq_exception iars c)) = cntfrq_el0 (tmr c)
   \<and> cntp_ctl_el0 (tmr (fold handle_irq_exception iars c)) = cntp_ctl_el0 (tmr c)"
  by (induction iars arbitrary: c)
    (simp_all add: ticks_def handle_irq_exception_def handle_timer_irq_def Let_def distrib_left)

lemma tick_reloads:
  assumes "iar AND 0x3FF = TIMER_IRQ_ID"
  shows "cntp_tval_el0 (tmr (handle_irq_exception iar c)) = cntfrq_el0 (tmr c) div 100"
  using assms by (simp add: handle_irq_exception_def handle_timer_irq_def Let_def)

text \<open>
  Over any sequence of interrupts the uptime grows by exactly ten for each one whose number
  is the timer's and by nothing else, modulo 2 to the 64; every interrupt is acknowledged to the
  controller with the value read, in order; the timer stays enabled, and after each tick it is
  reloaded with a hundredth of its frequency.
\<close>

lemma uptime_counts_timer_interrupts:
  "uptime_ms (tmr (fold handle_irq_exception iars c)) = uptime_ms (tmr c) + 10 * of_nat (ticks iars)
   \<and> eois (fold handle_irq_exception iars c) = eois c @ iars
   \<and> cntp_ctl_el0 (tmr (fold handle_irq_exception iars c)) = cntp_ctl_el0 (tmr c)
   \<and> (iars \<noteq> [] \<and> last iars AND 0x3FF = TIMER_IRQ_ID \<longrightarrow>
        cntp_tval_el0 (tmr (fold handle_irq_exception iars c)) = cntfrq_el0 (tmr c) div 100)"
proof (cases iars rule: rev_cases)
  case Nil
  then show ?thesis by (simp add: ticks_def)
next
  case (snoc js iar)
  then show ?thesis using irqs_cpu [of iars c] irqs_cpu [of js c] tick_reloads by simp
qed

end
