(* ===== verification/Portal.thy ===== *)
theory Portal
  imports Net_Rx Timer
begin

text \<open>
  The portal screens (src/kernel/portal.c) and the connection count of src/kernel/health.c, over
  the state of the whole running kernel.
\<close>

section \<open>The state of the running kernel\<close>

record portal_state =
  p_mac :: bytes
  ip_addr :: u32
  link_status :: u8
  packets_rx :: u32
  packets_tx :: u32
  p_uptime_ms :: u64
  heap_usage_kb :: u32
  device_count :: u32
  cpu_load :: u8

text \<open>
  \<open>net\<close> is the kernel's network half; \<open>dev_mac\<close> the six bytes of the device's configuration
  region; \<open>uart_in\<close> the bytes in the console's receive FIFO. The variables of
  \<open>kernel_main\<close> follow: the function-local statics \<open>last_mode\<close> (which starts as -1, no mode) and
  \<open>num\<close>, and the locals of the loop.
\<close>

record sys =
  net :: kstate
  clock :: timer
  total_pci_devices :: u32
  dev_mac :: bytes
  current_state :: portal_state
  portal_active :: bool
  uart_in :: bytes
  last_refresh :: u64
  last_mode :: "kernel_mode_t option"
  esc_state :: nat
  num :: int

definition s_uart :: "sys \<Rightarrow> uart" where
  "s_uart s = k_uart (net s)"

definition s_print :: "(uart \<Rightarrow> uart) \<Rightarrow> sys \<Rightarrow> sys" where
  "s_print f s = s\<lparr>net := (net s)\<lparr>k_uart := f (k_uart (net s))\<rparr>\<rparr>"

definition s_puts :: "bytes \<Rightarrow> sys \<Rightarrow> sys" where
  "s_puts t = s_print (uart_puts t)"

definition s_mode :: "sys \<Rightarrow> kernel_mode_t" where
  "s_mode s = current_mode (k_uart (net s))"

definition s_set_mode :: "kernel_mode_t \<Rightarrow> sys \<Rightarrow> sys" where
  "s_set_mode m = s_print (current_mode_update (\<lambda>_. m))"

section \<open>Connection telemetry\<close>

definition count_established :: "tcp_tcb \<Rightarrow> u32 \<Rightarrow> u32" where
  "count_established t n = (if tcb_state t = TCP_STATE_ESTABLISHED then n + 1 else n)"

definition health_update_tcp_stats :: "kstate \<Rightarrow> kstate option" where
  "health_update_tcp_stats k =
     do { n \<leftarrow> walk_fold tcb_next count_established (tcbs k) (tcp_tcb_list k) 0;
          Some (k\<lparr>k_stats := (k_stats k)\<lparr>tcp_active := ucast n\<rparr>\<rparr>) }"

section \<open>Refreshing the state\<close>

definition portal_refresh_state :: "sys \<Rightarrow> sys" where
  "portal_refresh_state s =
     (let cs = (current_state s)\<lparr>p_uptime_ms := get_system_uptime_ms (clock s),
            heap_usage_kb := ucast (get_heap_usage (k_heap (net s)) div 1024),
            device_count := total_pci_devices s,
            packets_rx := ucast (rx_packets (k_stats (net s))),
            packets_tx := ucast (tx_packets (k_stats (net s)))\<rparr>;
          cs = (case global_vnet_dev (net s) of
                  Some vdev \<Rightarrow> (if device vdev \<noteq> 0
                     then cs\<lparr>link_status := 1, p_mac := map (\<lambda>i. dev_mac s ! i) [0..<6]\<rparr>
                     else cs\<lparr>link_status := 0\<rparr>)
                | None \<Rightarrow> cs\<lparr>link_status := 0\<rparr>)
      in s\<lparr>current_state := cs\<rparr>)"

definition clear_screen :: bytes where
  "clear_screen = 27 # str ''[2J'' @ 27 # str ''[H''"

definition portal_start :: "sys \<Rightarrow> sys" where
  "portal_start s = s_puts clear_screen (s\<lparr>portal_active := True\<rparr>)"

section \<open>The network dashboard\<close>

definition local_ipv6 :: bytes where
  "local_ipv6 = [0xfe, 0x80, 0, 0, 0, 0, 0, 0, 0x52, 0x54, 0x00, 0xff, 0xfe, 0x12, 0x34, 0x56]"

definition mac_text :: "bytes \<Rightarrow> uart \<Rightarrow> uart" where
  "mac_text mac u =
     fold (\<lambda>i u. let u = uart_put_hex_byte (mac ! i) u in if i < 5 then uart_putc 58 u else u) [0..<6] u"

definition counter_line :: "bytes \<Rightarrow> u64 \<Rightarrow> uart \<Rightarrow> uart" where
  "counter_line label v u = uart_puts lf (uart_put_int (ucast v) (uart_puts label u))"

definition dashboard_head :: "sys \<Rightarrow> uart \<Rightarrow> uart" where
  "dashboard_head s u =
     (let st = k_stats (net s);
          u = uart_puts (27 # str ''[H'') u;
          u = uart_puts (str ''#################################################'' @ lf) u;
          u = uart_puts (str ''#           AETHER NETWORK DASHBOARD            #'' @ lf) u;
          u = uart_puts (str ''#################################################'' @ lf @ lf) u;
          u = uart_puts (str ''[LINK LAYER]'' @ lf) u;
          u = uart_puts (str '' - Interface: eth0 (VirtIO-Net-PCI)'' @ lf) u;
          u = uart_puts (str '' - Status:    '') u;
          u = uart_puts (if link_status (current_state s) \<noteq> 0 then str ''UP'' @ lf else str ''DOWN'' @ lf) u;
          u = uart_puts (str '' - MAC:       '') u;
          u = mac_text (p_mac (current_state s)) u;
          u = uart_puts (lf @ lf) u;
          u = uart_puts (str ''[NETWORK LAYER]'' @ lf) u;
          u = uart_puts (str '' - IPv4 Addr: '') u;
          u = uart_print_ip (aether_ip (net s)) u;
          u = uart_puts lf u;
          u = uart_puts (str '' - IPv6 Addr: '') u;
          u = print_ipv6 local_ipv6 u;
          u = uart_puts (lf @ lf) u;
          u = uart_puts (str ''[TRAFFIC STATS]'' @ lf) u;
          u = counter_line (str '' - RX Frames:        '') (rx_packets st) u;
          u = counter_line (str '' - TX Frames:        '') (tx_packets st) u;
          u = counter_line (str '' - Collisions/Drops: '') (dropped_packets st) u;
          u = counter_line (str '' - Mem Buffers:      '') (buffer_usage st) u;
          u = uart_puts lf u;
          u = uart_puts (str ''[TRANSPORT LAYER]'' @ lf) u
      in uart_puts (str '' - TCP Listener: Port 80 (HTTP)'' @ lf) u)"

text \<open>
  The loop steps to the next connection before it reads the state it prints, so the state printed
  is the next one's, and after the last connection the pointer read through is NULL.
\<close>

partial_function (option) dashboard_loop ::
  "(addr \<rightharpoonup> tcp_tcb) \<Rightarrow> addr \<Rightarrow> u32 \<Rightarrow> uart \<Rightarrow> (u32 \<times> uart) option" where
  "dashboard_loop m cur active u =
     (if cur = 0 then Some (active, u)
      else do {
        t \<leftarrow> m cur;
        let active = (if tcb_state t = TCP_STATE_ESTABLISHED then active + 1 else active);
        let cur = tcb_next t;
        let u = uart_puts (str '' - Debug State: '') u;
        t' \<leftarrow> (if cur = 0 then None else m cur);
        let u = uart_put_int (of_nat (tcp_state_code (tcb_state t'))) u;
        dashboard_loop m cur active (uart_puts lf u) })"

definition portal_render_net_dashboard :: "sys \<Rightarrow> sys option" where
  "portal_render_net_dashboard s =
     (if \<not> portal_active s then Some s
      else do {
        let s = s_print (dashboard_head s) s;
        (active, u) \<leftarrow> dashboard_loop (tcbs (net s)) (tcp_tcb_list (net s)) 0 (s_uart s);
        let u = uart_puts (str '' - Active Connections: '') u;
        let u = uart_puts lf (uart_put_int active u);
        let u = uart_puts (lf @ str ''-------------------------------------------------'' @ lf) u;
        let u = uart_puts (str '' [ESC] Main Portal  |  [ENTER] Refresh'' @ lf) u;
        Some (s_print (\<lambda>_. u) s) })"

section \<open>The other screens\<close>

definition portal_render_terminal :: "sys \<Rightarrow> sys" where
  "portal_render_terminal s =
     (if \<not> portal_active s then s
      else
       let u = s_uart s;
           u = uart_puts clear_screen u;
           u = uart_puts (str ''==========================================='' @ lf) u;
           u = uart_puts (str ''         AETHER WebOS :: Portal            '' @ lf) u;
           u = uart_puts (str ''==========================================='' @ lf) u;
           u = uart_puts (str ''[STATUS]  System Online'' @ lf) u;
           u = uart_puts (str ''[MEMORY]  Used: '') u;
           u = uart_put_int (heap_usage_kb (current_state s)) u;
           u = uart_puts (str '' KB'' @ lf) u;
           u = uart_puts (str ''[NETWORK] '') u;
           u = uart_puts (if link_status (current_state s) \<noteq> 0 then str ''UP'' @ lf else str ''DOWN'' @ lf) u;
           u = uart_puts (str ''-------------------------------------------'' @ lf) u;
           u = uart_puts (str ''Aether Ready.'' @ lf) u
       in s_print (\<lambda>_. u) s)"

definition portal_render_confirm_prompt :: "sys \<Rightarrow> sys" where
  "portal_render_confirm_prompt s =
     (let s = s_puts clear_screen s;
          s = s_puts (str ''#########################################'' @ lf) s;
          s = s_puts (str ''#       CONFIRM SYSTEM SHUTDOWN?        #'' @ lf) s;
          s = s_puts (str ''#    [ENTER] Confirm | [ESC] Cancel     #'' @ lf) s
      in s_puts (str ''#########################################'' @ lf) s)"

section \<open>The telemetry counts what is established\<close>

lemma fold_count_established:
  "fold count_established ts n = n + of_nat (length (filter (\<lambda>t. tcb_state t = TCP_STATE_ESTABLISHED) ts))"
  by (induction ts arbitrary: n) (simp_all add: count_established_def)

definition established :: "kstate \<Rightarrow> addr set" where
  "established k = {a. \<exists>t. tcbs k a = Some t \<and> tcb_state t = TCP_STATE_ESTABLISHED}"

lemma health_update_count:
  assumes c: "conns k as"
  shows "health_update_tcp_stats k
     = Some (k\<lparr>k_stats := (k_stats k)\<lparr>tcp_active := ucast (of_nat (card (established k)) :: u32)\<rparr>\<rparr>)"
proof -
  note p = conns_parts [OF c]
  have "established k = set (filter (\<lambda>a. tcb_state (the (tcbs k a)) = TCP_STATE_ESTABLISHED) as)"
  proof -
    have "a \<in> set as \<longleftrightarrow> (\<exists>t. tcbs k a = Some t)" for a using p(2) by auto
    then show ?thesis by (force simp: established_def)
  qed
  moreover have "distinct (filter (\<lambda>a. tcb_state (the (tcbs k a)) = TCP_STATE_ESTABLISHED) as)" using p(3) by simp
  ultimately have "card (established k) = length (filter (\<lambda>a. tcb_state (the (tcbs k a)) = TCP_STATE_ESTABLISHED) as)"
    by (simp only: distinct_card)
  also have "\<dots> = length (filter (\<lambda>t. tcb_state t = TCP_STATE_ESTABLISHED) (map (\<lambda>a. the (tcbs k a)) as))"
    by (simp add: filter_map o_def)
  finally show ?thesis
    by (simp add: health_update_tcp_stats_def walk_fold_path [OF p(1)] fold_count_established)
qed

section \<open>The dashboard reads through NULL\<close>

lemma dashboard_loop_faults:
  "path tcb_next m p as \<Longrightarrow> as \<noteq> [] \<Longrightarrow> dashboard_loop m p n u = None"
proof (induction as arbitrary: p n u)
  case (Cons a as)
  then obtain t where t: "p = a" "a \<noteq> 0" "m a = Some t" "path tcb_next m (tcb_next t) as"
    by (auto split: option.splits)
  show ?case
  proof (cases as)
    case Nil
    with t show ?thesis by (simp add: dashboard_loop.simps [of m a])
  next
    case (Cons b bs)
    with t have b: "tcb_next t = b" "b \<noteq> 0" by (auto split: option.splits)
    have "dashboard_loop m b n' u' = None" for n' u' using Cons.IH [OF t(4)] Cons b by simp
    then show ?thesis using t b by (cases "m b") (simp_all add: dashboard_loop.simps [of m a] Let_def)
  qed
qed simp

lemma dashboard_outcome:
  assumes inv: "net_inv (net s)" and act: "portal_active s"
  shows "portal_render_net_dashboard s = None \<longleftrightarrow> tcbs (net s) \<noteq> Map.empty"
proof -
  obtain as where c: "conns (net s) as" using inv by (auto simp: net_inv_def)
  note p = conns_parts [OF c]
  show ?thesis
  proof (cases "as = []")
    case True
    then have "tcp_tcb_list (net s) = 0" "tcbs (net s) = Map.empty" using p(1,2) by simp_all
    then show ?thesis using act
      by (simp add: portal_render_net_dashboard_def s_print_def dashboard_loop.simps Let_def)
  next
    case False
    then have "tcbs (net s) \<noteq> Map.empty" using p(2) by auto
    then show ?thesis using act dashboard_loop_faults [OF p(1) False]
      by (simp add: portal_render_net_dashboard_def s_print_def Let_def)
  qed
qed

end
