(* ===== verification/Kernel.thy ===== *)
theory Kernel
  imports Portal
begin

text \<open>
  The main loop (src/kernel/kernel.c): one iteration refreshes the screen, decodes at most one
  input byte and runs the network. An iteration is a function on the whole state; the clock, the
  console's receive FIFO and the device's rings change between iterations.
\<close>

section \<open>The screen\<close>

definition debug_banner :: "sys \<Rightarrow> sys" where
  "debug_banner s =
     (let s = s_puts (str ''==========================================='' @ crlf) s;
          s = s_puts (str ''           AETHER DEBUG CONSOLE            '' @ crlf) s
      in s_puts (str ''==========================================='' @ crlf @ crlf) s)"

definition render_entered_mode :: "sys \<Rightarrow> sys option" where
  "render_entered_mode s =
     (case s_mode s of
        MODE_CONFIRM_SHUTDOWN \<Rightarrow> Some (portal_render_confirm_prompt s)
      | MODE_NET_STATS \<Rightarrow> portal_render_net_dashboard s
      | MODE_DEBUG \<Rightarrow> Some (debug_banner s)
      | MODE_PORTAL \<Rightarrow> Some (portal_render_terminal s))"

definition kernel_refresh :: "sys \<Rightarrow> sys option" where
  "kernel_refresh s =
     (let current_time = get_system_uptime_ms (clock s) in
      if 100 \<le> current_time - last_refresh s
      then do {
        let s = portal_refresh_state s;
        s \<leftarrow> (if Some (s_mode s) \<noteq> last_mode s
              then render_entered_mode ((s_puts clear_screen s)\<lparr>last_mode := Some (s_mode s)\<rparr>)
              else if s_mode s = MODE_NET_STATS then portal_render_net_dashboard s
              else Some s);
        Some (s\<lparr>last_refresh := current_time\<rparr>) }
      else Some s)"

section \<open>The keys\<close>

text \<open>
  The boolean says whether the code leaves the iteration (\<open>continue\<close>). The number is a C \<open>int\<close>:
  a digit that takes it past its range is an overflow, which the language leaves undefined.
\<close>

definition INT_MAX :: int where "INT_MAX = 2147483647"

definition function_key :: "int \<Rightarrow> sys \<Rightarrow> sys" where
  "function_key n s =
     (if n = 18 then s_set_mode MODE_CONFIRM_SHUTDOWN (s_puts clear_screen s)
      else if n = 21 then s_set_mode MODE_NET_STATS (s_puts clear_screen s)
      else s)"

definition esc_number :: "u8 \<Rightarrow> sys \<Rightarrow> (bool \<times> sys) option" where
  "esc_number c s =
     (if 48 \<le> c \<and> c \<le> 57
      then let n = num s * 10 + (uint c - 48) in
           if INT_MAX < n then None else Some (True, s\<lparr>num := n\<rparr>)
      else if c = 126 then Some (True, (function_key (num s) s)\<lparr>num := 0, esc_state := 0\<rparr>)
      else Some (False, s\<lparr>esc_state := 0\<rparr>))"

definition esc_o :: "u8 \<Rightarrow> sys \<Rightarrow> sys" where
  "esc_o c s =
     (if c = 80 then s_set_mode MODE_DEBUG (s_puts clear_screen s) else s)\<lparr>esc_state := 0\<rparr>"

definition input_byte :: "u8 \<Rightarrow> sys \<Rightarrow> (bool \<times> sys) option" where
  "input_byte c s =
     (if c = 0x1B then Some (True, s\<lparr>esc_state := 1\<rparr>)
      else if esc_state s = 1 \<and> c = 91 then Some (True, s\<lparr>esc_state := 2\<rparr>)
      else if esc_state s = 1 \<and> c = 79 then Some (True, s\<lparr>esc_state := 20\<rparr>)
      else if esc_state s = 1 then Some (False, s\<lparr>esc_state := 0\<rparr>)
      else if esc_state s = 20 then Some (True, esc_o c s)
      else if esc_state s = 2 then esc_number c s
      else Some (False, s\<lparr>esc_state := 0\<rparr>))"

definition kernel_input :: "sys \<Rightarrow> (bool \<times> sys) option" where
  "kernel_input s =
     (case uart_in s of [] \<Rightarrow> Some (False, s) | c # cs \<Rightarrow> input_byte c (s\<lparr>uart_in := cs\<rparr>))"

section \<open>The network and the iteration\<close>

definition kernel_network :: "addr \<Rightarrow> kstate \<Rightarrow> kstate option" where
  "kernel_network rxb k =
     do { k \<leftarrow> (case global_vnet_dev k of
                  None \<Rightarrow> Some k
                | Some vdev \<Rightarrow> do { k \<leftarrow> virtio_net_poll rxb vdev k; net_tx_reaper k });
          health_update_tcp_stats k }"

definition kernel_iteration :: "addr \<Rightarrow> sys \<Rightarrow> sys option" where
  "kernel_iteration rxb s =
     do { s \<leftarrow> kernel_refresh s;
          (skip, s) \<leftarrow> kernel_input s;
          if skip then Some s
          else do { k \<leftarrow> kernel_network rxb (net s); Some (s\<lparr>net := k\<rparr>) } }"

section \<open>What the keys do\<close>

text \<open>Feeding a sequence of bytes, one per iteration, with nothing else going on.\<close>

fun feed :: "bytes \<Rightarrow> sys \<Rightarrow> sys option" where
  "feed [] s = Some s"
| "feed (c # cs) s = do { (_, s) \<leftarrow> input_byte c s; feed cs s }"

lemma feed_append: "feed (cs @ ds) s = do { s \<leftarrow> feed cs s; feed ds s }"
  by (induction cs arbitrary: s) (auto split: Option.bind_splits)

definition digit_byte_p :: "u8 \<Rightarrow> bool" where
  "digit_byte_p c \<longleftrightarrow> 48 \<le> c \<and> c \<le> 57"

definition key_number :: "int \<Rightarrow> bytes \<Rightarrow> int" where
  "key_number = foldl (\<lambda>n c. n * 10 + (uint c - 48))"

lemma key_number_mono:
  "0 \<le> n \<Longrightarrow> list_all digit_byte_p ds \<Longrightarrow> n \<le> key_number n ds"
proof (induction ds arbitrary: n)
  case (Cons c ds)
  then have c: "0 \<le> uint c - 48" by (simp add: digit_byte_p_def word_le_def)
  then have "n \<le> n * 10 + (uint c - 48)" "0 \<le> n * 10 + (uint c - 48)" using Cons(2) by simp_all
  with Cons show ?case by (fastforce simp: key_number_def)
qed (simp add: key_number_def)

lemma feed_digits:
  "esc_state s = 2 \<Longrightarrow> 0 \<le> num s \<Longrightarrow> list_all digit_byte_p ds \<Longrightarrow> key_number (num s) ds \<le> INT_MAX \<Longrightarrow>
   feed ds s = Some (s\<lparr>num := key_number (num s) ds\<rparr>)"
proof (induction ds arbitrary: s)
  case (Cons c ds)
  let ?n = "num s * 10 + (uint c - 48)"
  have c: "48 \<le> c" "c \<le> 57" "c \<noteq> 0x1B" using Cons(4) by (auto simp: digit_byte_p_def)
  have n: "0 \<le> ?n" using Cons(3) c by (simp add: word_le_def)
  have k: "key_number ?n ds = key_number (num s) (c # ds)" by (simp add: key_number_def)
  have "?n \<le> INT_MAX" using key_number_mono [OF n, of ds] Cons(4,5) k by simp
  then have "feed (c # ds) s = feed ds (s\<lparr>num := ?n\<rparr>)"
    using Cons(2) c by (simp add: input_byte_def esc_number_def Let_def)
  also have "\<dots> = Some ((s\<lparr>num := ?n\<rparr>)\<lparr>num := key_number ?n ds\<rparr>)"
    using Cons(1) [of "s\<lparr>num := ?n\<rparr>"] Cons(2,4,5) n k by simp
  finally show ?case by (simp add: k)
qed (simp add: key_number_def)

lemma feed_sequence:
  assumes "0 \<le> num s" and "list_all digit_byte_p ds" and "key_number (num s) ds \<le> INT_MAX"
  shows "feed (27 # 91 # ds @ [126]) s = Some ((function_key (key_number (num s) ds)
      (s\<lparr>esc_state := 2, num := key_number (num s) ds\<rparr>))\<lparr>num := 0, esc_state := 0\<rparr>)"
proof -
  have "feed (27 # 91 # ds @ [126]) s = feed (ds @ [126]) (s\<lparr>esc_state := 2\<rparr>)"
    by (simp add: input_byte_def)
  also have "\<dots> = feed [126] (s\<lparr>esc_state := 2, num := key_number (num s) ds\<rparr>)"
    using feed_digits [of "s\<lparr>esc_state := 2\<rparr>" ds] assms by (simp add: feed_append)
  also have "\<dots> = Some ((function_key (key_number (num s) ds)
      (s\<lparr>esc_state := 2, num := key_number (num s) ds\<rparr>))\<lparr>num := 0, esc_state := 0\<rparr>)"
    by (simp add: input_byte_def esc_number_def)
  finally show ?thesis .
qed

section \<open>What the screens and keys leave alone\<close>

definition same_net :: "sys \<Rightarrow> sys \<Rightarrow> bool" where
  "same_net s s' \<longleftrightarrow> (\<exists>u. net s' = (net s)\<lparr>k_uart := u\<rparr>)"

lemma same_net_refl [simp]: "same_net s s"
  unfolding same_net_def by (rule exI [of _ "k_uart (net s)"]) simp

lemma same_net_trans: "same_net s s' \<Longrightarrow> same_net s' s'' \<Longrightarrow> same_net s s''"
  by (auto simp: same_net_def)

lemma same_net_print [simp]:
  "same_net s (s_print f s') = same_net s s'" "same_net s (s_puts t s') = same_net s s'"
  "same_net s (s_set_mode m s') = same_net s s'"
proof -
  show 1: "same_net s (s_print f s') = same_net s s'" for f
  proof
    assume "same_net s (s_print f s')"
    then obtain u where "(net s')\<lparr>k_uart := f (k_uart (net s'))\<rparr> = (net s)\<lparr>k_uart := u\<rparr>"
      by (auto simp: same_net_def s_print_def)
    then have "(net s')\<lparr>k_uart := f (k_uart (net s')), k_uart := k_uart (net s')\<rparr> = (net s)\<lparr>k_uart := u, k_uart := k_uart (net s')\<rparr>"
      by simp
    then show "same_net s s'" by (auto simp: same_net_def)
  qed (auto simp: same_net_def s_print_def)
  show "same_net s (s_puts t s') = same_net s s'" "same_net s (s_set_mode m s') = same_net s s'"
    by (simp_all add: s_puts_def s_set_mode_def 1)
qed

lemma same_net_upd [simp]:
  "same_net s (s'\<lparr>num := n\<rparr>) = same_net s s'" "same_net s (s'\<lparr>esc_state := e\<rparr>) = same_net s s'"
  "same_net s (s'\<lparr>last_mode := m\<rparr>) = same_net s s'" "same_net s (s'\<lparr>last_refresh := r\<rparr>) = same_net s s'"
  "same_net s (s'\<lparr>current_state := c\<rparr>) = same_net s s'" "same_net s (s'\<lparr>uart_in := i\<rparr>) = same_net s s'"
  "same_net (s\<lparr>uart_in := i\<rparr>) s' = same_net s s'"
  by (simp_all add: same_net_def)

lemma net_ok_uart: "net_ok rxb (k\<lparr>k_uart := u\<rparr>) = net_ok rxb k" "net_ok rxb (k\<lparr>k_stats := st\<rparr>) = net_ok rxb k"
  using net_inv_cong(1) [of "k\<lparr>k_uart := u\<rparr>" k] net_inv_cong(1) [of "k\<lparr>k_stats := st\<rparr>" k]
  by (simp_all add: net_ok_def rx_inv_def tx_up_def)

lemma same_net_ok: "same_net s s' \<Longrightarrow> net_ok rxb (net s') = net_ok rxb (net s)"
  by (auto simp: same_net_def net_ok_uart)

lemma s_mode_simps [simp]:
  "s_mode (s_puts t s) = s_mode s" "s_mode (s_set_mode m s) = m"
  "s_mode (s\<lparr>num := n\<rparr>) = s_mode s" "s_mode (s\<lparr>esc_state := e\<rparr>) = s_mode s"
  "s_mode (s\<lparr>last_mode := lm\<rparr>) = s_mode s" "s_mode (s\<lparr>last_refresh := r\<rparr>) = s_mode s"
  "s_mode (s\<lparr>uart_in := i\<rparr>) = s_mode s"
  by (simp_all add: s_mode_def s_puts_def s_print_def s_set_mode_def)

lemma s_print_rest [simp]:
  "num (s_print f s) = num s" "esc_state (s_print f s) = esc_state s" "clock (s_print f s) = clock s"
  "uart_in (s_print f s) = uart_in s" "portal_active (s_print f s) = portal_active s"
  "last_refresh (s_print f s) = last_refresh s" "last_mode (s_print f s) = last_mode s"
  by (simp_all add: s_print_def)

lemma s_puts_rest [simp]:
  "num (s_puts t s) = num s" "esc_state (s_puts t s) = esc_state s" "clock (s_puts t s) = clock s"
  "uart_in (s_puts t s) = uart_in s" "portal_active (s_puts t s) = portal_active s"
  "num (s_set_mode m s) = num s" "esc_state (s_set_mode m s) = esc_state s" "clock (s_set_mode m s) = clock s"
  "uart_in (s_set_mode m s) = uart_in s" "portal_active (s_set_mode m s) = portal_active s"
  "last_refresh (s_puts t s) = last_refresh s" "last_refresh (s_set_mode m s) = last_refresh s"
  by (simp_all add: s_puts_def s_set_mode_def)

text \<open>A byte moves the decoder and possibly the mode, and nothing of the network.\<close>

definition decoder_ok :: "sys \<Rightarrow> bool" where
  "decoder_ok s \<longleftrightarrow> esc_state s \<in> {0, 1, 2, 20} \<and> 0 \<le> num s \<and> num s \<le> INT_MAX"

definition number_overflows :: "u8 \<Rightarrow> sys \<Rightarrow> bool" where
  "number_overflows c s \<longleftrightarrow> esc_state s = 2 \<and> digit_byte_p c \<and> INT_MAX < num s * 10 + (uint c - 48)"

lemma input_byte_outcome:
  assumes "decoder_ok s"
  shows "input_byte c s = None \<longleftrightarrow> number_overflows c s"
    and "input_byte c s = Some (b, s') \<Longrightarrow> decoder_ok s' \<and> same_net s s' \<and> clock s' = clock s
      \<and> uart_in s' = uart_in s \<and> portal_active s' = portal_active s
      \<and> (s_mode s' = s_mode s \<or> s_mode s' \<in> {MODE_DEBUG, MODE_CONFIRM_SHUTDOWN, MODE_NET_STATS})"
proof -
  show "input_byte c s = None \<longleftrightarrow> number_overflows c s"
    by (auto simp: input_byte_def esc_number_def number_overflows_def digit_byte_p_def Let_def)
  assume r: "input_byte c s = Some (b, s')"
  have "0 \<le> num s * 10 + (uint c - 48)" if "48 \<le> c"
    using assms that by (simp add: decoder_ok_def word_le_def)
  then show "decoder_ok s' \<and> same_net s s' \<and> clock s' = clock s
      \<and> uart_in s' = uart_in s \<and> portal_active s' = portal_active s
      \<and> (s_mode s' = s_mode s \<or> s_mode s' \<in> {MODE_DEBUG, MODE_CONFIRM_SHUTDOWN, MODE_NET_STATS})"
    using assms r
    by (auto simp: input_byte_def esc_number_def esc_o_def function_key_def decoder_ok_def INT_MAX_def Let_def
        split: if_splits)
qed

section \<open>The refresh and the iteration\<close>

text \<open>A screen changes the text sent to the console and nothing the input or the network reads.\<close>

definition same_rest :: "sys \<Rightarrow> sys \<Rightarrow> bool" where
  "same_rest s s' \<longleftrightarrow> same_net s s' \<and> s_mode s' = s_mode s \<and> num s' = num s \<and> esc_state s' = esc_state s
     \<and> clock s' = clock s \<and> uart_in s' = uart_in s \<and> portal_active s' = portal_active s"

lemma same_rest_trans: "same_rest s s' \<Longrightarrow> same_rest s' s'' \<Longrightarrow> same_rest s s''"
  by (auto simp: same_rest_def intro: same_net_trans)

lemma same_rest_refl: "same_rest s s"
  by (simp add: same_rest_def)

lemma mode_prints [simp]:
  "current_mode (uart_put_int n u) = current_mode u"
  "current_mode (uart_print_ip ip u) = current_mode u"
  "current_mode (uart_put_hex_byte b u) = current_mode u"
  "current_mode (uart_print_hex16 w u) = current_mode u"
  by (simp_all add: uart_put_int_def uart_print_ip_def uart_put_hex_byte_def uart_print_hex16_def Let_def)

lemma mode_v6_print [simp]: "current_mode (v6_print ws bs bl i u) = current_mode u"
proof (induction ws bs bl i u rule: v6_print.induct)
  case (1 ws bs bl i u)
  then show ?case by (subst v6_print.simps) (simp add: Let_def)
qed

lemma mode_print_ipv6 [simp]: "current_mode (print_ipv6 a u) = current_mode u"
  by (simp add: print_ipv6_def Let_def split: prod.split)

lemma mode_mac_text [simp]: "current_mode (mac_text m u) = current_mode u"
  by (simp add: mac_text_def Let_def numeral_eq_Suc)

lemma mode_dashboard_head [simp]: "current_mode (dashboard_head s u) = current_mode u"
  by (simp add: dashboard_head_def counter_line_def Let_def)

lemma same_rest_print: "current_mode (f (k_uart (net s))) = current_mode (k_uart (net s)) \<Longrightarrow> same_rest s (s_print f s)"
  by (simp add: same_rest_def s_mode_def) (simp add: s_print_def)

lemma same_rest_puts: "same_rest s (s_puts t s)"
  by (simp add: s_puts_def same_rest_print)

lemma same_rest_updates [simp]:
  "same_rest s (s'\<lparr>last_mode := m\<rparr>) = same_rest s s'" "same_rest s (s'\<lparr>last_refresh := r\<rparr>) = same_rest s s'"
  "same_rest s (s'\<lparr>current_state := c\<rparr>) = same_rest s s'"
  by (simp_all add: same_rest_def s_mode_def)

lemma same_rest_portal: "same_rest s (portal_refresh_state s)"
  by (simp add: portal_refresh_state_def Let_def same_rest_refl)

lemma same_rest_confirm: "same_rest s (portal_render_confirm_prompt s)"
  unfolding portal_render_confirm_prompt_def Let_def
  by (intro same_rest_trans [OF _ same_rest_puts] same_rest_refl)

lemma same_rest_debug: "same_rest s (debug_banner s)"
  unfolding debug_banner_def Let_def
  by (intro same_rest_trans [OF _ same_rest_puts] same_rest_refl)

lemma same_rest_terminal: "same_rest s (portal_render_terminal s)"
  by (simp add: portal_render_terminal_def Let_def same_rest_refl) (auto intro!: same_rest_print simp: s_uart_def)

lemma same_rest_dashboard:
  assumes inv: "net_inv (net s)" and r: "portal_render_net_dashboard s = Some s'"
  shows "same_rest s s'"
proof (cases "portal_active s")
  case True
  then have "tcbs (net s) = Map.empty" using dashboard_outcome [OF inv] r by simp
  moreover obtain as where "conns (net s) as" using inv by (auto simp: net_inv_def)
  then have "path tcb_next (tcbs (net s)) (tcp_tcb_list (net s)) as" by (rule conns_parts)
  ultimately have "tcp_tcb_list (net s) = 0" by (cases as) auto
  then have "s' = s_print (\<lambda>_. k_uart (net s')) (s_print (dashboard_head s) s) \<and> current_mode (k_uart (net s')) = s_mode s"
    using r True by (auto simp: portal_render_net_dashboard_def dashboard_loop.simps Let_def s_print_def s_mode_def s_uart_def)
  then have "same_rest (s_print (dashboard_head s) s) s'"
    using same_rest_print [of "\<lambda>_. k_uart (net s')" "s_print (dashboard_head s) s"] by (simp add: s_mode_def s_print_def)
  then show ?thesis using same_rest_trans [OF same_rest_print [of "dashboard_head s" s]] by simp
qed (use r in \<open>simp add: portal_render_net_dashboard_def same_rest_refl\<close>)

lemma same_rest_render:
  assumes "net_inv (net s)" and "render_entered_mode s = Some s'"
  shows "same_rest s s'"
  using assms(2) same_rest_dashboard [OF assms(1)]
  by (auto simp: render_entered_mode_def same_rest_confirm same_rest_debug same_rest_terminal split: kernel_mode_t.splits)

definition refresh_due :: "sys \<Rightarrow> bool" where
  "refresh_due s \<longleftrightarrow> 100 \<le> get_system_uptime_ms (clock s) - last_refresh s"

definition dashboard_reads_null :: "sys \<Rightarrow> bool" where
  "dashboard_reads_null s \<longleftrightarrow> s_mode s = MODE_NET_STATS \<and> portal_active s \<and> tcbs (net s) \<noteq> Map.empty"

lemma same_rest_inv:
  assumes "same_rest s s'"
  shows "net_inv (net s') = net_inv (net s)" "dashboard_reads_null s' = dashboard_reads_null s"
proof -
  obtain u where "net s' = (net s)\<lparr>k_uart := u\<rparr>" using assms by (auto simp: same_rest_def same_net_def)
  then show "net_inv (net s') = net_inv (net s)" "dashboard_reads_null s' = dashboard_reads_null s"
    using assms net_inv_cong(1) [of "(net s)\<lparr>k_uart := u\<rparr>" "net s"]
    by (simp_all add: dashboard_reads_null_def same_rest_def)
qed

lemma render_outcome:
  "net_inv (net s) \<Longrightarrow> render_entered_mode s = None \<longleftrightarrow> dashboard_reads_null s"
  using dashboard_outcome [of s]
  by (cases "portal_active s") (auto simp: render_entered_mode_def dashboard_reads_null_def portal_render_net_dashboard_def
      split: kernel_mode_t.splits)

lemma kernel_refresh_outcome:
  assumes inv: "net_inv (net s)"
  shows "kernel_refresh s = None \<longleftrightarrow> refresh_due s \<and> dashboard_reads_null s"
    and "kernel_refresh s = Some s' \<Longrightarrow> same_rest s s'"
proof -
  let ?p = "portal_refresh_state s"
  let ?q = "(s_puts clear_screen ?p)\<lparr>last_mode := Some (s_mode ?p)\<rparr>"
  have p: "same_rest s ?p" by (rule same_rest_portal)
  have q: "same_rest s ?q" using same_rest_trans [OF p same_rest_puts] by simp
  note ip = same_rest_inv [OF p] and iq = same_rest_inv [OF q]
  have dash: "s_mode ?p = MODE_NET_STATS \<Longrightarrow> portal_render_net_dashboard ?p = None \<longleftrightarrow> dashboard_reads_null s"
    using render_outcome [of ?p] ip inv by (simp add: render_entered_mode_def)
  have other: "s_mode ?p \<noteq> MODE_NET_STATS \<Longrightarrow> \<not> dashboard_reads_null s"
    using ip(2) by (simp add: dashboard_reads_null_def)
  show "kernel_refresh s = None \<longleftrightarrow> refresh_due s \<and> dashboard_reads_null s"
    using render_outcome [of ?q] iq inv dash other
    by (simp add: kernel_refresh_def refresh_due_def Let_def bind_eq_None_conv del: not_None_eq)
  assume r: "kernel_refresh s = Some s'"
  show "same_rest s s'"
    using r same_rest_trans [OF q same_rest_render [of ?q]] same_rest_trans [OF p same_rest_dashboard [of ?p]] p iq ip inv
    by (auto simp: kernel_refresh_def Let_def same_rest_refl split: if_splits bind_splits)
qed

lemma same_rest_facts:
  assumes "same_rest s s'"
  shows "net_ok rxb (net s') = net_ok rxb (net s)" "decoder_ok s' = decoder_ok s"
    "number_overflows c s' = number_overflows c s"
    "s_mode s' = s_mode s" "uart_in s' = uart_in s" "clock s' = clock s"
  using assms same_net_ok [of s s' rxb] by (auto simp: same_rest_def decoder_ok_def number_overflows_def)

lemma kernel_network_ok:
  assumes ok: "net_ok rxb k"
  shows "\<exists>k'. kernel_network rxb k = Some k' \<and> net_ok rxb k'"
proof -
  have tel: "\<exists>k''. health_update_tcp_stats k' = Some k'' \<and> net_ok rxb k''" if k': "net_ok rxb k'" for k'
  proof -
    obtain as where "conns k' as" using k' by (auto simp: net_ok_def net_inv_def)
    from health_update_count [OF this] k' show ?thesis by (simp add: net_ok_uart)
  qed
  show ?thesis
  proof (cases "global_vnet_dev k")
    case None
    then show ?thesis using tel [OF ok] by (simp add: kernel_network_def)
  next
    case (Some vdev)
    from poll_net_ok [OF ok, of vdev] obtain k1 where
      k1: "virtio_net_poll rxb vdev k = Some k1" "net_ok rxb k1" by blast
    from reaper_net_ok [OF k1(2)] obtain k2 where k2: "net_tx_reaper k1 = Some k2" "net_ok rxb k2" by blast
    from tel [OF k2(2)] k1 k2 Some show ?thesis by (simp add: kernel_network_def)
  qed
qed

definition input_overflows :: "sys \<Rightarrow> bool" where
  "input_overflows s \<longleftrightarrow> (case uart_in s of [] \<Rightarrow> False | c # _ \<Rightarrow> number_overflows c s)"

definition known_mode :: "sys \<Rightarrow> sys \<Rightarrow> bool" where
  "known_mode s s' \<longleftrightarrow> s_mode s' = s_mode s \<or> s_mode s' \<in> {MODE_DEBUG, MODE_CONFIRM_SHUTDOWN, MODE_NET_STATS}"

lemma kernel_input_outcome:
  assumes d: "decoder_ok s"
  shows "kernel_input s = None \<longleftrightarrow> input_overflows s"
    and "kernel_input s = Some (b, s') \<Longrightarrow> decoder_ok s' \<and> same_net s s' \<and> known_mode s s' \<and> uart_in s' = tl (uart_in s)"
proof -
  have d': "decoder_ok (s\<lparr>uart_in := i\<rparr>)" for i using d by (simp add: decoder_ok_def)
  show "kernel_input s = None \<longleftrightarrow> input_overflows s"
    using input_byte_outcome(1) [OF d']
    by (auto simp: kernel_input_def input_overflows_def number_overflows_def split: list.splits)
  assume "kernel_input s = Some (b, s')"
  then show "decoder_ok s' \<and> same_net s s' \<and> known_mode s s' \<and> uart_in s' = tl (uart_in s)"
    using input_byte_outcome(2) [OF d', of _ _ b s'] d
    by (auto simp: kernel_input_def known_mode_def split: list.splits)
qed

section \<open>Runs of the system\<close>

text \<open>
  Between iterations the timer interrupt may run, bytes may arrive at the console and the device,
  if the kernel has found one, may complete receive or transmit descriptors.
\<close>

inductive sys_step :: "addr \<Rightarrow> sys \<Rightarrow> sys \<Rightarrow> bool" for rxb where
  iterate: "kernel_iteration rxb s = Some s' \<Longrightarrow> sys_step rxb s s'"
| tick: "sys_step rxb s (s\<lparr>clock := handle_timer_irq (clock s)\<rparr>)"
| key: "sys_step rxb s (s\<lparr>uart_in := uart_in s @ [c]\<rparr>)"
| device: "global_vnet_dev (net s) \<noteq> None \<Longrightarrow> net_step rxb (net s) k \<Longrightarrow> sys_step rxb s (s\<lparr>net := k\<rparr>)"

inductive sys_reach :: "addr \<Rightarrow> sys \<Rightarrow> bool" for rxb where
  boot: "net_reach rxb (net s) \<Longrightarrow> esc_state s = 0 \<Longrightarrow> num s = 0 \<Longrightarrow> sys_reach rxb s"
| step: "sys_reach rxb s \<Longrightarrow> sys_step rxb s s' \<Longrightarrow> sys_reach rxb s'"


text \<open>
  The interface between the loop and the network half: what the loop needs of a predicate on the
  network half so that it stays good through screens, keys, the network calls of an iteration and
  what the device does.
\<close>

locale main_loop =
  fixes rxb :: addr and good :: "kstate \<Rightarrow> bool"
  assumes good_inv: "\<And>k. good k \<Longrightarrow> net_inv k"
    and good_uart: "\<And>k u. good k \<Longrightarrow> good (k\<lparr>k_uart := u\<rparr>)"
    and good_network: "\<And>k. good k \<Longrightarrow> \<exists>k'. kernel_network rxb k = Some k' \<and> good k'"
    and good_device: "\<And>k k'. good k \<Longrightarrow> global_vnet_dev k \<noteq> None \<Longrightarrow> net_step rxb k k' \<Longrightarrow> good k'"
begin

lemma good_same_net: "good (net s) \<Longrightarrow> same_net s s' \<Longrightarrow> good (net s')"
  by (auto simp: same_net_def good_uart)

lemma iteration_ok:
  assumes ok: "good (net s)" and d: "decoder_ok s"
  shows "kernel_iteration rxb s = None \<longleftrightarrow> refresh_due s \<and> dashboard_reads_null s \<or> input_overflows s"
    and "kernel_iteration rxb s = Some s' \<Longrightarrow> good (net s') \<and> decoder_ok s' \<and> uart_in s' = tl (uart_in s)"
proof -
  have inv: "net_inv (net s)" using ok by (rule good_inv)
  note rf = kernel_refresh_outcome [OF inv]
  have step: "kernel_input s1 = None \<longleftrightarrow> input_overflows s"
    and after: "kernel_input s1 = Some (b, s2) \<Longrightarrow> good (net s2) \<and> decoder_ok s2 \<and> uart_in s2 = tl (uart_in s)"
    if s1: "kernel_refresh s = Some s1" for s1 b s2
  proof -
    note same = same_rest_facts [OF rf(2) [OF s1]]
    have s1_same: "same_net s s1" using rf(2) [OF s1] by (simp add: same_rest_def)
    note ki = kernel_input_outcome [of s1]
    show "kernel_input s1 = None \<longleftrightarrow> input_overflows s" using ki(1) same d
      by (cases "uart_in s") (simp_all add: input_overflows_def)
    assume "kernel_input s1 = Some (b, s2)"
    then show "good (net s2) \<and> decoder_ok s2 \<and> uart_in s2 = tl (uart_in s)"
      using ki(2) same d good_same_net [OF ok s1_same] good_same_net [of s1 s2] by simp
  qed
  show "kernel_iteration rxb s = None \<longleftrightarrow> refresh_due s \<and> dashboard_reads_null s \<or> input_overflows s"
  proof (cases "kernel_refresh s")
    case None
    then show ?thesis using rf(1) by (simp add: kernel_iteration_def)
  next
    case (Some s1)
    note st = step [OF Some] and af = after [OF Some]
    have "\<not> (refresh_due s \<and> dashboard_reads_null s)" using rf(1) Some by simp
    moreover have "kernel_iteration rxb s = None \<longleftrightarrow> kernel_input s1 = None"
    proof (cases "kernel_input s1")
      case None
      then show ?thesis using Some by (simp add: kernel_iteration_def)
    next
      case in1: (Some p)
      obtain b s2 where p: "p = (b, s2)" by (cases p)
      have "good (net s2)" using af in1 p by simp
      from good_network [OF this] show ?thesis using Some in1 p by (auto simp: kernel_iteration_def)
    qed
    ultimately show ?thesis using st by argo
  qed
  assume r: "kernel_iteration rxb s = Some s'"
  then obtain s1 b s2 where s: "kernel_refresh s = Some s1" "kernel_input s1 = Some (b, s2)"
    by (auto simp: kernel_iteration_def split: bind_splits)
  note af = after [OF s]
  with good_network [of "net s2"] obtain k where "kernel_network rxb (net s2) = Some k" "good k" by blast
  then show "good (net s') \<and> decoder_ok s' \<and> uart_in s' = tl (uart_in s)"
    using r s af by (auto simp: kernel_iteration_def decoder_ok_def split: if_splits)
qed

lemma step_ok:
  assumes "sys_step rxb s s'" and "good (net s)" and "decoder_ok s"
  shows "good (net s') \<and> decoder_ok s'"
  using assms(1)
proof (cases rule: sys_step.cases)
  case iterate
  then show ?thesis using iteration_ok(2) [OF assms(2,3) iterate] by blast
next
  case (device k)
  then show ?thesis using good_device [OF assms(2) device(2,3)] assms(3) by (simp add: decoder_ok_def)
qed (use assms(2,3) in \<open>simp_all add: decoder_ok_def\<close>)

lemma run_ok:
  "(sys_step rxb)\<^sup>*\<^sup>* s s' \<Longrightarrow> good (net s) \<Longrightarrow> decoder_ok s \<Longrightarrow> good (net s') \<and> decoder_ok s'"
  by (induction rule: rtranclp_induct) (simp, blast dest: step_ok)

end

lemma telemetry_keeps:
  assumes "net_inv k"
  shows "\<exists>st. health_update_tcp_stats k = Some (k\<lparr>k_stats := st\<rparr>)"
proof -
  obtain as where "conns k as" using assms by (auto simp: net_inv_def)
  from health_update_count [OF this] show ?thesis by blast
qed

text \<open>With the network card up, and with no card at all.\<close>

interpretation online: main_loop rxb "net_ok rxb" for rxb
proof unfold_locales
  show "net_ok rxb k \<Longrightarrow> net_inv k" for k by (simp add: net_ok_def)
  show "net_ok rxb k \<Longrightarrow> \<exists>k'. kernel_network rxb k = Some k' \<and> net_ok rxb k'" for k by (rule kernel_network_ok)
  show "net_ok rxb k \<Longrightarrow> net_step rxb k k' \<Longrightarrow> net_ok rxb k'" for k k' by (rule net_step_ok)
qed (simp add: net_ok_uart)

interpretation offline: main_loop rxb "\<lambda>k. net_inv k \<and> global_vnet_dev k = None" for rxb
proof unfold_locales
  fix k assume g: "net_inv k \<and> global_vnet_dev k = None"
  from telemetry_keeps g obtain st where "health_update_tcp_stats k = Some (k\<lparr>k_stats := st\<rparr>)" by blast
  then show "\<exists>k'. kernel_network rxb k = Some k' \<and> net_inv k' \<and> global_vnet_dev k' = None"
    using g net_inv_cong(1) [of "k\<lparr>k_stats := st\<rparr>" k] by (simp add: kernel_network_def)
next
  fix k u assume "net_inv k \<and> global_vnet_dev k = None"
  then show "net_inv (k\<lparr>k_uart := u\<rparr>) \<and> global_vnet_dev (k\<lparr>k_uart := u\<rparr>) = None"
    using net_inv_cong(1) [of "k\<lparr>k_uart := u\<rparr>" k] by simp
qed auto

lemma sys_reach_ok: "sys_reach rxb s \<Longrightarrow> net_ok rxb (net s) \<and> decoder_ok s"
proof (induction rule: sys_reach.induct)
  case (boot s)
  then show ?case using net_reach_ok by (auto simp: decoder_ok_def INT_MAX_def)
next
  case (step s s')
  then show ?case using online.step_ok by blast
qed

section \<open>Properties\<close>

text \<open>
  The running system, whatever interleaving of main-loop iterations, timer interrupts, key
  presses, received frames and transmit completions follows the set-up: the invariant of the
  network half and of the key decoder always holds, and an iteration fails in exactly two cases.
  Either a screen refresh is due while the network screen is shown and a TCP connection exists
  (the dashboard then reads through a NULL pointer), or the next byte is a digit that overflows
  the pending key number.
\<close>

lemma system_runs_are_safe:
  assumes "sys_reach rxb s"
  shows "net_ok rxb (net s) \<and> decoder_ok s
    \<and> (kernel_iteration rxb s = None \<longleftrightarrow> refresh_due s \<and> dashboard_reads_null s \<or> input_overflows s)"
  using sys_reach_ok [OF assms] online.iteration_ok(1) [of rxb s] by blast

definition sample_clock :: timer where
  "sample_clock = timer_init \<lparr>timer_freq = 0, uptime_ms = 0, cntfrq_el0 = 62500000, cntp_tval_el0 = 0, cntp_ctl_el0 = 0\<rparr>"

definition sample_sys :: "kstate \<Rightarrow> sys" where
  "sample_sys k = \<lparr>net = k, clock = sample_clock, total_pci_devices = 3, dev_mac = replicate 6 0,
     current_state = \<lparr>p_mac = replicate 6 0, ip_addr = 0, link_status = 0, packets_rx = 0, packets_tx = 0, p_uptime_ms = 0,
       heap_usage_kb = 0, device_count = 0, cpu_load = 0\<rparr>,
     portal_active = True, uart_in = [], last_refresh = 0, last_mode = None, esc_state = 0, num = 0\<rparr>"

text \<open>
  The function keys. The sequence ESC [ digits ~ acts on the number left from before
  continued by its digits: 18 (F7) asks for the shutdown confirmation, 21 (F10) shows the network
  dashboard, any other number leaves the mode. It ends with the decoder and the number reset, and
  ESC O P (F1) selects the debug console. The network state is not touched.
\<close>

lemma function_keys_select_screens:
  assumes "0 \<le> num s" and "list_all digit_byte_p ds" and "key_number (num s) ds \<le> INT_MAX"
  shows "(\<exists>s'. feed (27 # 91 # ds @ [126]) s = Some s' \<and> same_net s s' \<and> num s' = 0 \<and> esc_state s' = 0
      \<and> s_mode s' = (if key_number (num s) ds = 18 then MODE_CONFIRM_SHUTDOWN
                     else if key_number (num s) ds = 21 then MODE_NET_STATS else s_mode s))
    \<and> (\<exists>s'. feed [27, 79, 80] s = Some s' \<and> same_net s s' \<and> s_mode s' = MODE_DEBUG \<and> num s' = num s)"
proof
  show "\<exists>s'. feed (27 # 91 # ds @ [126]) s = Some s' \<and> same_net s s' \<and> num s' = 0 \<and> esc_state s' = 0
      \<and> s_mode s' = (if key_number (num s) ds = 18 then MODE_CONFIRM_SHUTDOWN
                     else if key_number (num s) ds = 21 then MODE_NET_STATS else s_mode s)"
    unfolding feed_sequence [OF assms] by (simp add: function_key_def)
  show "\<exists>s'. feed [27, 79, 80] s = Some s' \<and> same_net s s' \<and> s_mode s' = MODE_DEBUG \<and> num s' = num s"
    by (simp add: input_byte_def esc_o_def)
qed

lemma feed_known_mode:
  "decoder_ok s \<Longrightarrow> feed cs s = Some s' \<Longrightarrow> decoder_ok s' \<and> same_net s s' \<and> known_mode s s'"
proof (induction cs arbitrary: s)
  case (Cons c cs)
  then obtain b s1 where s1: "input_byte c s = Some (b, s1)" "feed cs s1 = Some s'"
    by (auto split: bind_splits)
  note a = input_byte_outcome(2) [OF Cons(2) s1(1)]
  with Cons(1) [of s1] s1(2) have "decoder_ok s' \<and> same_net s1 s' \<and> known_mode s1 s'" by blast
  then show ?case using a same_net_trans [of s s1 s'] by (auto simp: known_mode_def)
qed (simp add: known_mode_def)



end
