(* ===== verification/Mmu.thy ===== *)
theory Mmu
  imports Memory
begin

text \<open>
  Page tables (arch/aarch64/mmu.c) and the mapping of device registers (ioremap in
  src/kernel/memory.c). The five tables are lists of 512 descriptors; \<open>kpt\<close> is the address the
  linker gives the structure, which its attribute aligns to a page. System registers are fields of
  the state, cache maintenance is the list of lines cleaned. What the processor does with the
  tables is the walk of the architecture (4 KB granule, 39-bit addresses, as the TCR selects).
\<close>

unbundle bit_operations_syntax

section \<open>State\<close>

record kernel_pt =
  l1 :: "u64 list"
  l2_periph :: "u64 list"
  l2_ram :: "u64 list"
  l2_dynamic :: "u64 list"
  l3_pool :: "u64 list list"

record mmu =
  kpt :: kernel_pt
  mair_el1 :: u64
  tcr_el1 :: u64
  ttbr0_el1 :: addr
  sctlr_el1 :: u64
  cleaned :: "addr list"
  tlb_flushes :: nat

definition PCIE_PHYS_BASE :: u64 where "PCIE_PHYS_BASE = 0x3f000000"
definition PCIE_EXT_CFG_DATA :: u64 where "PCIE_EXT_CFG_DATA = 0x70000000"
definition PROT_DEVICE_PAGE :: u64 where "PROT_DEVICE_PAGE = 0x3 OR push_bit 2 0x0 OR push_bit 10 1"

text \<open>The addresses of the tables inside the structure at \<open>base\<close>.\<close>

definition l2_periph_at :: "addr \<Rightarrow> addr" where "l2_periph_at base = base + 0x1000"
definition l2_ram_at :: "addr \<Rightarrow> addr" where "l2_ram_at base = base + 0x2000"
definition l2_dynamic_at :: "addr \<Rightarrow> addr" where "l2_dynamic_at base = base + 0x3000"
definition l3_pool_at :: "addr \<Rightarrow> nat \<Rightarrow> addr" where "l3_pool_at base j = base + 0x4000 + of_nat j * 0x1000"
definition KPT_SIZE :: u64 where "KPT_SIZE = 0x8000"

section \<open>Operations\<close>

partial_function (option) clean_lines :: "addr \<Rightarrow> addr \<Rightarrow> mmu \<Rightarrow> mmu option" where
  "clean_lines a e m =
     (if a < e then clean_lines (a + 64) e (m\<lparr>cleaned := cleaned m @ [a]\<rparr>) else Some m)"

definition clean_cache_range :: "addr \<Rightarrow> addr \<Rightarrow> mmu \<Rightarrow> mmu option" where
  "clean_cache_range start e m = clean_lines (start AND NOT 63) e m"

partial_function (option) map_pages ::
  "addr \<Rightarrow> u64 \<Rightarrow> u64 \<Rightarrow> addr \<Rightarrow> u64 \<Rightarrow> u64 \<Rightarrow> mmu \<Rightarrow> mmu option" where
  "map_pages base size0 flags v_addr p_addr mapped m =
     (if mapped < size0
      then do {
        let l2_idx = unat (drop_bit 21 v_addr AND 0x1FF);
        let l3_idx = unat (drop_bit 12 v_addr AND 0x1FF);
        m \<leftarrow> (if l2_idx < 4
              then (let m = m\<lparr>kpt := (kpt m)\<lparr>l3_pool := (l3_pool (kpt m))[l2_idx :=
                              (l3_pool (kpt m) ! l2_idx)[l3_idx := p_addr OR flags OR push_bit 10 1 OR 0x3]]\<rparr>\<rparr>;
                        entry_ptr = l3_pool_at base l2_idx + 8 * of_nat l3_idx
                    in clean_cache_range entry_ptr (entry_ptr + 8) m)
              else Some m);
        map_pages base size0 flags (v_addr + 4096) (p_addr + 4096) (mapped + 4096) m }
      else Some m)"

definition mmu_map_region :: "addr \<Rightarrow> addr \<Rightarrow> u64 \<Rightarrow> u64 \<Rightarrow> u64 \<Rightarrow> mmu \<Rightarrow> mmu option" where
  "mmu_map_region base va pa size0 flags m =
     do { m \<leftarrow> map_pages base size0 flags va (pa AND NOT 0xFFF) 0 m;
          Some (m\<lparr>tlb_flushes := tlb_flushes m + 1\<rparr>) }"

definition periph_entry :: "nat \<Rightarrow> u64" where
  "periph_entry i = push_bit 21 (of_nat i) OR 0x405 OR push_bit 2 0"

definition ram_entry :: "nat \<Rightarrow> u64" where
  "ram_entry i =
     (let virtual_addr = 0x40000000 + push_bit 21 (of_nat i) in
      if PCIE_EXT_CFG_DATA \<le> virtual_addr \<and> virtual_addr < PCIE_EXT_CFG_DATA + 0x08000000
      then (PCIE_PHYS_BASE + (virtual_addr - PCIE_EXT_CFG_DATA)) OR 0x405 OR push_bit 2 0
      else virtual_addr OR 0x401 OR push_bit 2 2)"

definition mmu_tables :: "addr \<Rightarrow> kernel_pt" where
  "mmu_tables base =
     (let zero = replicate 512 0;
          pt = \<lparr>l1 = zero, l2_periph = zero, l2_ram = zero, l2_dynamic = zero, l3_pool = replicate 4 zero\<rparr>;
          pt = pt\<lparr>l1 := (l1 pt)[0 := l2_periph_at base OR 0x3]\<rparr>;
          pt = pt\<lparr>l1 := (l1 pt)[1 := l2_ram_at base OR 0x3]\<rparr>;
          pt = pt\<lparr>l1 := (l1 pt)[2 := l2_dynamic_at base OR 0x3]\<rparr>;
          pt = pt\<lparr>l2_periph := map periph_entry [0..<512]\<rparr>;
          pt = pt\<lparr>l2_ram := map ram_entry [0..<512]\<rparr>
      in fold (\<lambda>i pt. pt\<lparr>l2_dynamic := (l2_dynamic pt)[i := l3_pool_at base i OR 0x3]\<rparr>) [0..<4] pt)"

definition mmu_init :: "addr \<Rightarrow> uart \<Rightarrow> mmu \<Rightarrow> (uart \<times> mmu) option" where
  "mmu_init base u m =
     do { let u = uart_puts (str ''[INFO] MMU: Configuring AETHER OS Memory Map...'' @ crlf) u;
          let m = m\<lparr>mair_el1 := 0xFF4400\<rparr>;
          let m = m\<lparr>kpt := mmu_tables base\<rparr>;
          m \<leftarrow> clean_cache_range base (base + KPT_SIZE) m;
          let tcr = push_bit 0 25 OR push_bit 10 3 OR push_bit 12 3 OR push_bit 32 2;
          let m = m\<lparr>tcr_el1 := tcr\<rparr>;
          let m = m\<lparr>ttbr0_el1 := base\<rparr>;
          let m = m\<lparr>sctlr_el1 := sctlr_el1 m OR 0x1001\<rparr>;
          Some (uart_puts (str ''[OK] MMU ACTIVE: Identity & ECAM Bridge Online.'' @ crlf) u, m) }"

definition ioremap ::
  "addr \<Rightarrow> u64 \<Rightarrow> u64 \<Rightarrow> uart \<Rightarrow> heap \<Rightarrow> mmu \<Rightarrow> (addr \<times> uart \<times> heap \<times> mmu) option" where
  "ioremap base phys_addr size0 u h m =
     (if size0 = 0 then Some (0, u, h, m)
      else
       let phys_page = phys_addr AND PAGE_MASK;
           offset = phys_addr AND (PAGE_SIZE - 1);
           map_size = (offset + size0 + PAGE_SIZE - 1) AND PAGE_MASK;
           (virt_page, u, h) = vmalloc map_size u h
       in if virt_page = 0 then Some (0, u, h, m)
          else do { m \<leftarrow> mmu_map_region base virt_page phys_page map_size PROT_DEVICE_PAGE m;
                    Some (virt_page + offset, u, h, m) })"

section \<open>The translation the tables describe\<close>

definition table_at :: "addr \<Rightarrow> kernel_pt \<Rightarrow> addr \<Rightarrow> u64 list option" where
  "table_at base pt a =
     (if a = base then Some (l1 pt)
      else if a = l2_periph_at base then Some (l2_periph pt)
      else if a = l2_ram_at base then Some (l2_ram pt)
      else if a = l2_dynamic_at base then Some (l2_dynamic pt)
      else map_option (\<lambda>j. l3_pool pt ! j) (List.find (\<lambda>j. a = l3_pool_at base j) [0..<4]))"

definition next_table :: "u64 \<Rightarrow> addr" where
  "next_table d = push_bit 12 (take_bit 36 (drop_bit 12 d))"

definition va_index :: "nat \<Rightarrow> addr \<Rightarrow> nat" where
  "va_index k va = unat (take_bit 9 (drop_bit k va))"

text \<open>The memory type: the byte of the attribute register that bits 2 to 4 select.\<close>

definition mem_attr :: "mmu \<Rightarrow> u64 \<Rightarrow> u8" where
  "mem_attr m d = ucast (drop_bit (8 * unat (take_bit 3 (drop_bit 2 d))) (mair_el1 m))"

definition leaf :: "mmu \<Rightarrow> nat \<Rightarrow> u64 \<Rightarrow> addr \<Rightarrow> (addr \<times> u8) option" where
  "leaf m k d va =
     (if bit d 10 then Some (push_bit k (take_bit (48 - k) (drop_bit k d)) + take_bit k va, mem_attr m d) else None)"

definition translate :: "mmu \<Rightarrow> addr \<Rightarrow> (addr \<times> u8) option" where
  "translate m va =
     (if 2 ^ 39 \<le> va then None
      else do {
        t1 \<leftarrow> table_at (ttbr0_el1 m) (kpt m) (ttbr0_el1 m);
        let d1 = t1 ! va_index 30 va;
        if d1 AND 3 = 1 then leaf m 30 d1 va
        else if d1 AND 3 \<noteq> 3 then None
        else do {
          t2 \<leftarrow> table_at (ttbr0_el1 m) (kpt m) (next_table d1);
          let d2 = t2 ! va_index 21 va;
          if d2 AND 3 = 1 then leaf m 21 d2 va
          else if d2 AND 3 \<noteq> 3 then None
          else do {
            t3 \<leftarrow> table_at (ttbr0_el1 m) (kpt m) (next_table d2);
            let d3 = t3 ! va_index 12 va;
            if d3 AND 3 = 3 then leaf m 12 d3 va else None } } })"

section \<open>Reading descriptors back\<close>

text \<open>\<open>aligned k a\<close>: the low k bits of the address are clear and it fits the output size.\<close>

definition aligned :: "nat \<Rightarrow> u64 \<Rightarrow> bool" where
  "aligned k a \<longleftrightarrow> take_bit k a = 0 \<and> take_bit 48 a = a"

lemma aligned_bits:
  assumes "aligned k a"
    and b: "bit a n"
  shows "k \<le> n \<and> n < 48"
proof -
  have z: "take_bit k a = 0" and t: "take_bit 48 a = a" using assms by (simp_all add: aligned_def)
  have "bit (take_bit 48 a) n" using b t by simp
  then have "n < 48" by (simp add: bit_take_bit_iff)
  moreover have "\<not> bit (take_bit k a) n" by (simp add: z)
  then have "k \<le> n" using b by (auto simp: bit_take_bit_iff)
  ultimately show "k \<le> n \<and> n < 48" by simp
qed

lemma desc_output:
  assumes a: "aligned k a" and w: "take_bit k w = w" and k: "k \<le> 48"
  shows "push_bit k (take_bit (48 - k) (drop_bit k (a OR w))) = a"
proof (rule bit_word_eqI)
  fix n assume n: "n < LENGTH(64)"
  have "\<not> bit w n" if "k \<le> n"
    using bit_take_bit_iff [of k w n] w that by auto
  then show "bit (push_bit k (take_bit (48 - k) (drop_bit k (a OR w)))) n = bit a n"
    using aligned_bits [OF a, of n] n k
    by (auto simp: bit_push_bit_iff bit_take_bit_iff bit_drop_bit_eq bit_or_iff)
qed

lemma desc_low:
  assumes a: "aligned k a"
  shows "2 \<le> k \<Longrightarrow> (a OR w) AND 3 = w AND 3"
    and "10 < k \<Longrightarrow> bit (a OR w) 10 = bit w 10"
    and "5 \<le> k \<Longrightarrow> take_bit 3 (drop_bit 2 (a OR w)) = take_bit 3 (drop_bit 2 w)"
proof -
  note low = aligned_bits [OF a]
  show "(a OR w) AND 3 = w AND 3" if "2 \<le> k"
  proof (rule bit_word_eqI)
    fix n assume "n < LENGTH(64)"
    have "bit (3 :: u64) n \<longleftrightarrow> n < 2" using bit_mask_iff [where 'a = "64 word", of 2 n] by (auto simp: mask_eq_exp_minus_1)
    then show "bit ((a OR w) AND 3) n = bit (w AND 3) n"
      using low [of n] that by (auto simp: bit_and_iff bit_or_iff)
  qed
  show "bit (a OR w) 10 = bit w 10" if "10 < k" using low [of 10] that by (auto simp: bit_or_iff)
  show "take_bit 3 (drop_bit 2 (a OR w)) = take_bit 3 (drop_bit 2 w)" if "5 \<le> k"
    by (rule bit_word_eqI) (use low that in \<open>fastforce simp: bit_take_bit_iff bit_drop_bit_eq bit_or_iff\<close>)
qed

lemma next_table_desc: "aligned 12 a \<Longrightarrow> next_table (a OR 3) = a"
  using desc_output [of 12 a 3] by (simp add: next_table_def)

lemma leaf_desc:
  assumes "aligned k a" and "10 < k" and "k \<le> 48" and "take_bit k w = w" and "bit w 10"
  shows "leaf m k (a OR w) va = Some (a + take_bit k va, mem_attr m w)"
  using assms desc_output [of k a w] desc_low [of k a w] by (simp add: leaf_def mem_attr_def)

lemma va_index_unat: "va_index k va = unat va div 2 ^ k mod 512"
  unfolding va_index_def unsigned_take_bit_eq unat_drop_bit_eq by (simp add: drop_bit_eq_div take_bit_eq_mod)

text \<open>The linker's placement of the tables.\<close>

definition base_ok :: "addr \<Rightarrow> bool" where
  "base_ok base \<longleftrightarrow> take_bit 12 base = 0 \<and> unat base + 0x8000 \<le> 2 ^ 48"

lemma aligned_unat: "aligned k a \<longleftrightarrow> unat a mod 2 ^ k = 0 \<and> unat a < 2 ^ 48"
proof -
  have "take_bit k a = 0 \<longleftrightarrow> unat a mod 2 ^ k = 0"
    by (simp add: unat_eq_0 flip: unsigned_take_bit_eq take_bit_eq_mod)
  moreover have "take_bit 48 a = a \<longleftrightarrow> unat a < 2 ^ 48"
  proof -
    have "take_bit 48 a = a \<longleftrightarrow> take_bit 48 (unat a) = unat a"
      by (simp add: word_unat_eq_iff unsigned_take_bit_eq)
    also have "\<dots> \<longleftrightarrow> unat a < 2 ^ 48" by (rule take_bit_nat_eq_self_iff)
    finally show ?thesis .
  qed
  ultimately show ?thesis by (simp add: aligned_def)
qed

lemma base_plus:
  assumes b: "base_ok base" and c: "c mod 4096 = 0" "c < 0x8000"
  shows "aligned 12 (base + of_nat c)" "unat (base + of_nat c) = unat base + c"
proof -
  have u: "unat (base + of_nat c) = unat base + c"
    using b c by (subst unat_plus_simple [THEN iffD1]) (auto simp: base_ok_def word_le_nat_alt unat_word_ariths unat_of_nat)
  then show "unat (base + of_nat c) = unat base + c" .
  have "unat base mod 4096 = unat (take_bit 12 base)" unfolding unsigned_take_bit_eq by (simp add: take_bit_eq_mod)
  then have "unat base mod 4096 = 0" using b by (simp add: base_ok_def)
  then show "aligned 12 (base + of_nat c)"
    unfolding aligned_unat u using b c by (auto simp: base_ok_def mod_add_eq [symmetric])
qed

section \<open>The walk over the kernel's tables\<close>

lemma table_at_simps [simp]:
  "table_at base pt base = Some (l1 pt)"
  "table_at base pt (l2_periph_at base) = Some (l2_periph pt)"
  "table_at base pt (l2_ram_at base) = Some (l2_ram pt)"
  "table_at base pt (l2_dynamic_at base) = Some (l2_dynamic pt)"
  by (simp_all add: table_at_def l2_periph_at_def l2_ram_at_def l2_dynamic_at_def)

lemma less_4: "(j :: nat) < 4 \<longleftrightarrow> j = 0 \<or> j = 1 \<or> j = 2 \<or> j = 3"
  by auto

lemma upt_4: "[0..<4] = [0, 1, 2, 3]"
  by (simp add: upt_rec)

lemma table_at_pool [simp]: "j < 4 \<Longrightarrow> table_at base pt (l3_pool_at base j) = Some (l3_pool pt ! j)"
  by (auto simp: table_at_def l2_periph_at_def l2_ram_at_def l2_dynamic_at_def l3_pool_at_def less_4 upt_4)

lemma tables_aligned:
  assumes "base_ok base"
  shows "aligned 12 (l2_periph_at base)" "aligned 12 (l2_ram_at base)" "aligned 12 (l2_dynamic_at base)"
    and "j < 4 \<Longrightarrow> aligned 12 (l3_pool_at base j)"
  using base_plus(1) [OF assms, of "0x1000"] base_plus(1) [OF assms, of "0x2000"] base_plus(1) [OF assms, of "0x3000"]
    base_plus(1) [OF assms, of "0x4000"] base_plus(1) [OF assms, of "0x5000"]
    base_plus(1) [OF assms, of "0x6000"] base_plus(1) [OF assms, of "0x7000"]
  by (auto simp: l2_periph_at_def l2_ram_at_def l2_dynamic_at_def l3_pool_at_def less_4 add.assoc)

text \<open>The tables after the set-up: all but the pool of page tables stay as they are.\<close>

definition tables_ok :: "addr \<Rightarrow> mmu \<Rightarrow> bool" where
  "tables_ok base m \<longleftrightarrow> base_ok base \<and> ttbr0_el1 m = base \<and> mair_el1 m = 0xFF4400
     \<and> l1 (kpt m) = l1 (mmu_tables base) \<and> l2_periph (kpt m) = l2_periph (mmu_tables base)
     \<and> l2_ram (kpt m) = l2_ram (mmu_tables base) \<and> l2_dynamic (kpt m) = l2_dynamic (mmu_tables base)
     \<and> length (l3_pool (kpt m)) = 4 \<and> (\<forall>t \<in> set (l3_pool (kpt m)). length t = 512)"

lemma mmu_tables_fields:
  "l2_periph (mmu_tables base) = map periph_entry [0..<512]"
  "l2_ram (mmu_tables base) = map ram_entry [0..<512]"
  "l3_pool (mmu_tables base) = replicate 4 (replicate 512 0)"
  "l1 (mmu_tables base) = (replicate 512 0)[0 := l2_periph_at base OR 0x3, 1 := l2_ram_at base OR 0x3, 2 := l2_dynamic_at base OR 0x3]"
  "l2_dynamic (mmu_tables base) = (replicate 512 0)[0 := l3_pool_at base 0 OR 0x3, 1 := l3_pool_at base 1 OR 0x3,
     2 := l3_pool_at base 2 OR 0x3, 3 := l3_pool_at base 3 OR 0x3]"
  by (simp_all add: mmu_tables_def Let_def upt_4)

lemma tables_ok_fields:
  assumes "tables_ok base m"
  shows "l2_periph (kpt m) = map periph_entry [0..<512]" "l2_ram (kpt m) = map ram_entry [0..<512]"
    "l1 (kpt m) = l1 (mmu_tables base)" "l2_dynamic (kpt m) = l2_dynamic (mmu_tables base)"
  using assms by (simp_all add: tables_ok_def mmu_tables_fields(1,2))

lemma va_index_less [simp]: "va_index k va < 512"
  by (simp add: va_index_unat)

lemma block_aligned:
  assumes "q < 2 ^ 27"
  shows "aligned 21 (push_bit 21 (of_nat q))" "unat (push_bit 21 (of_nat q) :: u64) = q * 2 ^ 21"
proof -
  have "unat (push_bit 21 (of_nat q) :: u64) = q * 2 ^ 21"
    using assms by (simp add: push_bit_eq_mult unat_word_ariths unat_of_nat)
  then show "unat (push_bit 21 (of_nat q) :: u64) = q * 2 ^ 21" "aligned 21 (push_bit 21 (of_nat q))"
    using assms by (simp_all add: aligned_unat)
qed

lemma unat_take_bit: "unat (take_bit k va :: u64) = unat va mod 2 ^ k"
  unfolding unsigned_take_bit_eq by (simp add: take_bit_eq_mod)

lemma leaf_block:
  assumes "q < 2 ^ 27" and "w = 0x405 \<or> w = 0x409"
  shows "leaf m 21 (push_bit 21 (of_nat q) OR w) va
    = Some (of_nat (q * 2 ^ 21 + unat va mod 2 ^ 21), mem_attr m w)"
proof -
  have w: "take_bit 21 w = w" "bit w 10" using assms(2) by auto
  have "(of_nat (q * 2 ^ 21 + unat va mod 2 ^ 21) :: u64)
      = of_nat (unat (push_bit 21 (of_nat q) :: u64)) + of_nat (unat (take_bit 21 va))"
    by (simp only: block_aligned(2) [OF assms(1)] unat_take_bit of_nat_add)
  then show ?thesis using leaf_desc [OF block_aligned(1) [OF assms(1)], of w m va] w by simp
qed

lemma walk_block:
  assumes t: "tables_ok base m" and va: "va < 2 ^ 39"
    and d1: "l1 (kpt m) ! va_index 30 va = a OR 3" "aligned 12 a" "table_at base (kpt m) a = Some tbl"
    and d2: "tbl ! va_index 21 va = push_bit 21 (of_nat q) OR w" "q < 2 ^ 27" "w = 0x405 \<or> w = 0x409"
  shows "translate m va = Some (of_nat (q * 2 ^ 21 + unat va mod 2 ^ 21), mem_attr m w)"
proof -
  have b: "ttbr0_el1 m = base" using t by (simp add: tables_ok_def)
  have "(a OR 3) AND 3 = 3" using desc_low(1) [OF d1(2), of 3] by simp
  moreover have "(push_bit 21 (of_nat q) OR w) AND 3 = 1"
    using desc_low(1) [OF block_aligned(1) [OF d2(2)], of w] d2(3) by auto
  ultimately show ?thesis
    using va d1 d2 leaf_block [OF d2(2,3)] by (simp add: translate_def b next_table_desc Let_def)
qed

lemma mem_attr_blocks:
  assumes "mair_el1 m = 0xFF4400"
  shows "mem_attr m 0x405 = 0x44" "mem_attr m 0x409 = 0xFF" "mem_attr m 0x403 = 0"
  using assms by (simp_all add: mem_attr_def)

lemma periph_entry_eq: "periph_entry i = push_bit 21 (of_nat i) OR 0x405"
  by (simp add: periph_entry_def)

lemma ram_entry_eq:
  assumes "i < 512"
  shows "ram_entry i = (if 384 \<le> i \<and> i < 448 then push_bit 21 (of_nat (i + 120)) OR 0x405
                        else push_bit 21 (of_nat (i + 512)) OR 0x409)"
proof -
  have u: "unat (push_bit 21 (of_nat i) :: u64) = i * 2 ^ 21" using assms by (simp add: block_aligned)
  have v: "unat (0x40000000 + push_bit 21 (of_nat i) :: u64) = (i + 512) * 2 ^ 21"
    using assms by (simp add: unat_word_ariths u)
  have va: "0x40000000 + push_bit 21 (of_nat i) = (push_bit 21 (of_nat (i + 512)) :: u64)"
    by (simp add: push_bit_eq_mult distrib_right)
  have pa: "0x3f000000 + (push_bit 21 (of_nat (i + 512)) - 0x70000000) = (push_bit 21 (of_nat (i + 120)) :: u64)"
    by (simp add: push_bit_eq_mult distrib_right)
  have "0x70000000 \<le> (0x40000000 + push_bit 21 (of_nat i) :: u64) \<longleftrightarrow> 384 \<le> i"
    "(0x40000000 + push_bit 21 (of_nat i) :: u64) < 0x78000000 \<longleftrightarrow> i < 448"
    unfolding word_le_nat_alt word_less_nat_alt v by auto
  moreover have "(0x401 OR push_bit 2 2 :: u64) = 0x409" by simp
  ultimately show ?thesis
    unfolding ram_entry_def PCIE_EXT_CFG_DATA_def PCIE_PHYS_BASE_def Let_def
    using va pa by simp
qed

text \<open>What the static part promises: address and memory type of the first two gigabytes.\<close>

definition static_map :: "addr \<Rightarrow> addr \<times> u8" where
  "static_map va =
     (if va < 0x40000000 then (va, 0x44)
      else if 0x70000000 \<le> va \<and> va < 0x78000000 then (va - 0x70000000 + 0x3f000000, 0x44)
      else (va, 0xFF))"

lemma translate_static:
  assumes t: "tables_ok base m" and va: "va < 0x80000000"
  shows "translate m va = Some (static_map va)"
proof -
  note f = tables_ok_fields [OF t]
  have b: "base_ok base" "mair_el1 m = 0xFF4400" using t by (simp_all add: tables_ok_def)
  note al = tables_aligned [OF b(1)]
  let ?v = "unat va"
  have v: "?v < 2 ^ 31" using va by (simp add: word_less_nat_alt)
  have v39: "va < 2 ^ 39" using v by (simp add: word_less_nat_alt)
  have i: "va_index 21 va = ?v div 2 ^ 21 mod 512" "va_index 30 va = ?v div 2 ^ 30"
    using v by (simp_all add: va_index_unat)
  have whole: "(of_nat (?v div 2 ^ 21 * 2 ^ 21 + ?v mod 2 ^ 21) :: u64) = va" by (simp only: div_mult_mod_eq) simp
  show ?thesis
  proof (cases "va < 0x40000000")
    case True
    then have lo: "?v < 2 ^ 30" by (simp add: word_less_nat_alt)
    then have "va_index 30 va = 0" "va_index 21 va = ?v div 2 ^ 21" "?v div 2 ^ 21 < 512" using i by simp_all
    with walk_block [OF t v39, of "l2_periph_at base" "l2_periph (kpt m)" "?v div 2 ^ 21" "0x405"] whole True
    show ?thesis by (simp add: f mmu_tables_fields al periph_entry_eq static_map_def mem_attr_blocks b)
  next
    case False
    then have hi: "2 ^ 30 \<le> ?v" by (simp add: word_less_nat_alt not_less)
    define d where "d = ?v div 2 ^ 21"
    have d: "512 \<le> d" "d < 1024" using v hi by (auto simp: d_def)
    have whole': "?v = d * 2 ^ 21 + ?v mod 2 ^ 21" by (simp only: d_def div_mult_mod_eq)
    have "?v div 2 ^ 30 = 1" using v hi by (simp add: div_nat_eqI)
    then have ix: "va_index 30 va = 1" "va_index 21 va = d - 512" using i d by (simp_all add: d_def le_mod_geq)
    note walk = walk_block [OF t v39, of "l2_ram_at base" "l2_ram (kpt m)"]
    have entry: "l2_ram (kpt m) ! va_index 21 va = ram_entry (d - 512)" using d ix by (simp add: f)
    have l1: "l1 (kpt m) ! va_index 30 va = l2_ram_at base OR 3" using ix by (simp add: f mmu_tables_fields)
    have ecam: "384 \<le> d - 512 \<and> d - 512 < 448 \<longleftrightarrow> 0x70000000 \<le> va \<and> va < 0x78000000"
      unfolding word_le_nat_alt word_less_nat_alt using d whole' mod_less_divisor [of "2 ^ 21" ?v] by auto
    show ?thesis
    proof (cases "384 \<le> d - 512 \<and> d - 512 < 448")
      case True
      let ?pa = "(d - 512 + 120) * 2 ^ 21 + ?v mod 2 ^ 21"
      have "?v = ?pa + 0x31000000" using d whole' by simp
      then have "(of_nat ?v :: u64) = of_nat (?pa + 0x31000000)" by simp
      then have "va = of_nat ?pa + 0x31000000" by (simp del: of_nat_mult of_nat_diff)
      then have pa: "of_nat ?pa = va - 0x70000000 + 0x3f000000" by simp
      have ent: "l2_ram (kpt m) ! va_index 21 va = push_bit 21 (of_nat (d - 512 + 120)) OR 0x405"
        using entry True d by (simp add: ram_entry_eq)
      have "translate m va = Some (va - 0x70000000 + 0x3f000000, mem_attr m 0x405)"
        using walk [OF l1 al(2) table_at_simps(3) ent] d by (simp only: pa) simp
      then show ?thesis using True ecam False by (simp add: static_map_def mem_attr_blocks b)
    next
      case nb: False
      have whole2: "(of_nat (d * 2 ^ 21 + ?v mod 2 ^ 21) :: u64) = va" using whole by (simp only: d_def)
      have ent: "l2_ram (kpt m) ! va_index 21 va = push_bit 21 (of_nat d) OR 0x409"
        using entry nb d by (simp add: ram_entry_eq)
      have "translate m va = Some (va, mem_attr m 0x409)"
        using walk [OF l1 al(2) table_at_simps(3) ent] d by (simp only: whole2) simp
      then show ?thesis using nb ecam False by (auto simp: static_map_def mem_attr_blocks b)
    qed
  qed
qed

section \<open>The dynamic range\<close>

definition dynamic :: "addr \<Rightarrow> bool" where
  "dynamic va \<longleftrightarrow> 0x80000000 \<le> va \<and> va < 0x80800000"

definition pool_entry :: "mmu \<Rightarrow> addr \<Rightarrow> u64" where
  "pool_entry m va = l3_pool (kpt m) ! va_index 21 va ! va_index 12 va"

lemma dynamic_unat: "dynamic va \<longleftrightarrow> 0x80000000 \<le> unat va \<and> unat va < 0x80800000"
  by (simp add: dynamic_def word_le_nat_alt word_less_nat_alt)

lemma dynamic_index:
  assumes "dynamic va"
  shows "va_index 30 va = 2" "va_index 21 va = (unat va - 0x80000000) div 2 ^ 21"
    "va_index 12 va = (unat va - 0x80000000) div 2 ^ 12 mod 512" "va_index 21 va < 4"
proof -
  obtain r where r: "unat va = 0x80000000 + r" "r < 0x800000"
    using assms le_Suc_ex [of "0x80000000" "unat va"] by (auto simp: dynamic_unat)
  have "r div 2097152 < 4" using r(2) by (simp add: div_less_iff_less_mult)
  moreover have "(2147483648 + r) div 1073741824 = 2" using r(2) by (simp add: div_nat_eqI)
  moreover have "(2147483648 + r) div 2097152 = 1024 + r div 2097152" by simp
  moreover have "(2147483648 + r) div 4096 = 524288 + r div 4096" by simp
  moreover have "(524288 + x) mod 512 = x mod 512" "(1024 + x) mod 512 = x mod 512" for x :: nat
    using mod_mult_self2 [of x 512 1024] mod_mult_self2 [of x 512 2] by (simp_all add: add.commute)
  ultimately show "va_index 30 va = 2" "va_index 21 va = (unat va - 0x80000000) div 2 ^ 21"
    "va_index 12 va = (unat va - 0x80000000) div 2 ^ 12 mod 512" "va_index 21 va < 4"
    by (simp_all add: va_index_unat r(1))
qed

lemma translate_dynamic:
  assumes t: "tables_ok base m" and va: "dynamic va"
  shows "translate m va = (if pool_entry m va AND 3 = 3 then leaf m 12 (pool_entry m va) va else None)"
proof -
  note f = tables_ok_fields [OF t] and ix = dynamic_index [OF va]
  have b: "base_ok base" "ttbr0_el1 m = base" using t by (simp_all add: tables_ok_def)
  note al = tables_aligned [OF b(1)]
  have v39: "\<not> 2 ^ 39 \<le> va" using va by (simp add: dynamic_unat word_le_nat_alt)
  have d1: "l1 (kpt m) ! va_index 30 va = l2_dynamic_at base OR 3" using ix by (simp add: f mmu_tables_fields)
  have d2: "l2_dynamic (kpt m) ! va_index 21 va = l3_pool_at base (va_index 21 va) OR 3"
    using ix(4) by (auto simp: f mmu_tables_fields less_4)
  have "(l2_dynamic_at base OR 3) AND 3 = 3" "(l3_pool_at base (va_index 21 va) OR 3) AND 3 = 3"
    using desc_low(1) [OF al(3), of 3] desc_low(1) [OF al(4) [OF ix(4)], of 3] by simp_all
  then show ?thesis
    using v39 d1 d2 b ix(4) by (simp add: translate_def next_table_desc al pool_entry_def Let_def)
qed

lemma translate_high:
  assumes t: "tables_ok base m" and va: "0x80800000 \<le> va"
  shows "translate m va = None"
proof (cases "\<not> 2 ^ 39 \<le> va")
  case False
  then show ?thesis by (simp add: translate_def)
next
  case v39: True
  note f = tables_ok_fields [OF t]
  have b: "base_ok base" "ttbr0_el1 m = base" using t by (simp_all add: tables_ok_def)
  note al = tables_aligned [OF b(1)]
  have v: "0x80800000 \<le> unat va" "unat va < 2 ^ 39" using va v39 by (simp_all add: word_le_nat_alt not_le)
  then have i: "va_index 30 va = unat va div 2 ^ 30" "2 \<le> unat va div 2 ^ 30"
    by (simp_all add: va_index_unat)
  show ?thesis
  proof (cases "unat va div 2 ^ 30 = 2")
    case True
    have "4 \<le> va_index 21 va"
    proof -
      obtain r where r: "unat va = 0x80800000 + r" using v le_Suc_ex [of "0x80800000" "unat va"] by auto
      have "r < 2 ^ 30 - 0x800000" using True r div_less_iff_less_mult [of "2 ^ 30" "unat va" 3] by simp
      then have q: "r div 2097152 < 508" by (simp add: div_less_iff_less_mult)
      have "unat va div 2097152 = r div 2097152 + 4 + 512 * 2" using r by simp
      then have "va_index 21 va = (r div 2097152 + 4) mod 512"
        using mod_mult_self2 [of "r div 2097152 + 4" 512 2] by (simp add: va_index_unat)
      then show ?thesis using q by simp
    qed
    then have d2: "l2_dynamic (kpt m) ! va_index 21 va = 0"
      by (simp add: f mmu_tables_fields nth_list_update)
    have d1: "l1 (kpt m) ! va_index 30 va = l2_dynamic_at base OR 3" using i True by (simp add: f mmu_tables_fields)
    have "(l2_dynamic_at base OR 3) AND 3 = 3" using desc_low(1) [OF al(3), of 3] by simp
    then show ?thesis using v39 d1 d2 b by (simp add: translate_def next_table_desc al Let_def)
  next
    case False
    then have "l1 (kpt m) ! va_index 30 va = 0" using i va_index_less [of 30 va]
      by (simp add: f mmu_tables_fields nth_list_update del: va_index_less)
    then show ?thesis using v39 b by (simp add: translate_def Let_def)
  qed
qed

section \<open>Mapping pages\<close>

lemma clean_lines_eq:
  "unat a + 64 * n < 2 ^ 64 \<Longrightarrow> unat e \<le> unat a + 64 * n \<Longrightarrow> (0 < n \<longrightarrow> unat a + 64 * (n - 1) < unat e) \<Longrightarrow>
   clean_lines a e m = Some (m\<lparr>cleaned := cleaned m @ map (\<lambda>i. a + of_nat (64 * i)) [0..<n]\<rparr>)"
proof (induction n arbitrary: a m)
  case 0
  then show ?case by (simp add: clean_lines.simps [of a] word_less_nat_alt)
next
  case (Suc n)
  have u: "unat (a + 64) = unat a + 64" using Suc(2) by (simp add: unat_word_ariths)
  have "a < e" using Suc(4) by (cases n) (simp_all add: word_less_nat_alt)
  then have "clean_lines a e m = clean_lines (a + 64) e (m\<lparr>cleaned := cleaned m @ [a]\<rparr>)"
    by (simp add: clean_lines.simps [of a])
  also have "\<dots> = Some (m\<lparr>cleaned := cleaned m @ [a] @ map (\<lambda>i. a + 64 + of_nat (64 * i)) [0..<n]\<rparr>)"
    using Suc.IH [of "a + 64" "m\<lparr>cleaned := cleaned m @ [a]\<rparr>"] Suc(2,3,4) u by (cases n) simp_all
  also have "[a] @ map (\<lambda>i. a + 64 + of_nat (64 * i)) [0..<n] = map (\<lambda>i. a + of_nat (64 * i)) [0..<Suc n]"
    by (subst upt_conv_Cons) (simp_all add: map_Suc_upt [symmetric] add.assoc del: upt_Suc)
  finally show ?case .
qed

lemma unat_and_not_mask: "k < 64 \<Longrightarrow> unat (x AND NOT (mask k) :: u64) = unat x div 2 ^ k * 2 ^ k"
proof -
  assume k: "k < 64"
  have "unat (of_nat (2 ^ k) :: u64) = 2 ^ k"
    using power_strict_increasing [of k 64 "2 :: nat"] k by (simp add: unat_of_nat del: of_nat_power)
  then have p: "unat (2 ^ k :: u64) = 2 ^ k" by simp
  have "unat x div 2 ^ k * 2 ^ k < 2 ^ 64"
    by (rule le_less_trans [OF div_times_less_eq_dividend]) (use unat_u64_less [of x] in simp)
  then show ?thesis
    using le_less_trans [OF div_le_dividend unat_u64_less [of x], of "2 ^ k"]
    by (simp add: and_not_mask_u64 push_bit_eq_mult unat_word_ariths unat_drop_bit_eq drop_bit_eq_div k p)
qed

lemma clean_entry:
  assumes "unat a < 2 ^ 60" and "unat a mod 8 = 0"
  shows "\<exists>ls. clean_cache_range a (a + 8) m = Some (m\<lparr>cleaned := ls\<rparr>)"
proof -
  let ?s = "a AND NOT 63 :: u64"
  have "(63 :: u64) = mask 6" by (simp add: mask_eq_exp_minus_1)
  then have s: "unat ?s = unat a div 64 * 64" using unat_and_not_mask [of 6 a] by simp
  have a8: "unat (a + 8) = unat a + 8" using assms(1) by (simp add: unat_word_ariths)
  have le: "unat a < unat a div 64 * 64 + 64" "unat a div 64 * 64 \<le> unat a" by simp_all
  obtain q where q: "unat a = 8 * q" using assms(2) by auto
  have "unat a div 64 * 64 = 8 * (q div 8 * 8)" by (simp add: q div_mult2_eq [symmetric, of _ 8 8])
  moreover have "q < q div 8 * 8 + 8" by simp
  ultimately have up: "unat a + 8 \<le> unat a div 64 * 64 + 64" using q by linarith
  have "clean_lines ?s (a + 8) m = Some (m\<lparr>cleaned := cleaned m @ map (\<lambda>i. ?s + of_nat (64 * i)) [0..<1]\<rparr>)"
    by (rule clean_lines_eq) (use s a8 le up assms(1) in auto)
  then show ?thesis by (auto simp: clean_cache_range_def)
qed

text \<open>The pages of the range; two addresses of it share their entry exactly when they share their page.\<close>

lemma same_entry:
  assumes "dynamic va" and "dynamic va'"
  shows "va_index 21 va = va_index 21 va' \<and> va_index 12 va = va_index 12 va' \<longleftrightarrow> unat va div 4096 = unat va' div 4096"
proof -
  obtain r r' where r: "unat va = 0x80000000 + r" "unat va' = 0x80000000 + r'"
    using assms le_Suc_ex [of "0x80000000" "unat va"] le_Suc_ex [of "0x80000000" "unat va'"] by (auto simp: dynamic_unat)
  have "x div 2097152 = y div 2097152 \<and> x div 4096 mod 512 = y div 4096 mod 512 \<longleftrightarrow> x div 4096 = y div 4096" for x y :: nat
  proof -
    have d: "z div 2097152 = z div 4096 div 512" for z :: nat by (simp add: div_mult2_eq [symmetric])
    show ?thesis unfolding d by (metis div_mult_mod_eq)
  qed
  moreover have "(0x80000000 + x) div 4096 = 524288 + x div 4096" for x :: nat by simp
  ultimately show ?thesis using dynamic_index [OF assms(1)] dynamic_index [OF assms(2)] by (simp add: r)
qed

text \<open>What a run of the mapping loop does to the entries of the range.\<close>

definition page_off :: "addr \<Rightarrow> addr \<Rightarrow> u64" where
  "page_off va v = of_nat ((unat va div 4096 - unat v div 4096) * 4096)"

definition mapped_entries :: "mmu \<Rightarrow> mmu \<Rightarrow> addr \<Rightarrow> u64 \<Rightarrow> nat \<Rightarrow> bool" where
  "mapped_entries m m' v p n \<longleftrightarrow> (\<forall>va. dynamic va \<longrightarrow> pool_entry m' va
     = (if unat v \<le> unat va \<and> unat va < unat v + n * 4096 then (p + page_off va v) OR 0x403 else pool_entry m va))"

lemma index_and: "unat (drop_bit k v AND 0x1FF) = va_index k v"
proof -
  have "(0x1FF :: u64) = mask 9" by (simp add: mask_eq_exp_minus_1)
  then show ?thesis by (simp add: va_index_def take_bit_eq_mask)
qed

lemma map_one_page:
  assumes t: "tables_ok base m" and v: "dynamic v"
  shows "\<exists>m'. clean_cache_range (l3_pool_at base (va_index 21 v) + 8 * of_nat (va_index 12 v))
            (l3_pool_at base (va_index 21 v) + 8 * of_nat (va_index 12 v) + 8)
            (m\<lparr>kpt := (kpt m)\<lparr>l3_pool := (l3_pool (kpt m))[va_index 21 v := (l3_pool (kpt m) ! va_index 21 v)[va_index 12 v := d]]\<rparr>\<rparr>)
          = Some m' \<and> tables_ok base m'
        \<and> (\<forall>va. dynamic va \<longrightarrow> pool_entry m' va = (if unat va div 4096 = unat v div 4096 then d else pool_entry m va))"
proof -
  let ?j = "va_index 21 v" and ?k = "va_index 12 v"
  let ?m = "m\<lparr>kpt := (kpt m)\<lparr>l3_pool := (l3_pool (kpt m))[?j := (l3_pool (kpt m) ! ?j)[?k := d]]\<rparr>\<rparr>"
  let ?a = "l3_pool_at base ?j + 8 * of_nat ?k"
  have j: "?j < 4" using dynamic_index [OF v] by simp
  have b: "base_ok base" and len: "length (l3_pool (kpt m)) = 4" "\<forall>t \<in> set (l3_pool (kpt m)). length t = 512"
    using t by (simp_all add: tables_ok_def)
  have lj: "length (l3_pool (kpt m) ! i) = 512" if "i < 4" for i using len that by simp
  have "?a = base + of_nat (0x4000 + ?j * 4096 + 8 * ?k)" by (simp add: l3_pool_at_def)
  moreover have "unat (base + of_nat (0x4000 + ?j * 4096 + 8 * ?k)) = unat base + (0x4000 + ?j * 4096 + 8 * ?k)"
  proof -
    have "0x4000 + ?j * 4096 + 8 * ?k < 0x8000" using j va_index_less [of 12 v] by linarith
    then show ?thesis using b by (simp add: base_ok_def unat_word_ariths unat_of_nat del: of_nat_add of_nat_mult)
  qed
  ultimately have ua: "unat ?a = unat base + (0x4000 + ?j * 4096 + 8 * ?k)" by (simp only:)
  have "unat base mod 4096 = 0" using base_plus(1) [OF b, of 0] by (simp add: aligned_unat)
  then obtain q where q: "unat base = 4096 * q" by auto
  have "unat ?a = 8 * (512 * q + 2048 + 512 * ?j + ?k)" unfolding ua q by simp
  then have "unat ?a mod 8 = 0" by (simp only: mod_mult_self1_is_0)
  moreover have "unat ?a < 2 ^ 60" unfolding ua using b j va_index_less [of 12 v] by (simp add: base_ok_def del: va_index_less)
  ultimately obtain ls where c: "clean_cache_range ?a (?a + 8) ?m = Some (?m\<lparr>cleaned := ls\<rparr>)"
    using clean_entry [of ?a ?m] by auto
  have ok: "tables_ok base (?m\<lparr>cleaned := ls\<rparr>)"
    using t lj [OF j] by (auto simp: tables_ok_def dest!: set_update_subset_insert [THEN subsetD])
  have "pool_entry (?m\<lparr>cleaned := ls\<rparr>) va = (if unat va div 4096 = unat v div 4096 then d else pool_entry m va)"
    if va: "dynamic va" for va
    using same_entry [OF v va] j len lj [OF j] dynamic_index(4) [OF va]
    by (auto simp: pool_entry_def nth_list_update)
  with c ok show ?thesis by blast
qed

lemma mapped_entries_Suc:
  assumes one: "\<forall>va. dynamic va \<longrightarrow> pool_entry m1 va = (if unat va div 4096 = unat v div 4096 then p OR 0x403 else pool_entry m va)"
    and rest: "mapped_entries m1 m' (v + 4096) (p + 4096) n"
    and v: "unat v mod 4096 = 0" "unat (v + 4096) = unat v + 4096"
  shows "mapped_entries m m' v p (Suc n)"
  unfolding mapped_entries_def
proof (intro allI impI)
  fix va assume va: "dynamic va"
  obtain q where q: "unat v = q * 4096" using v(1) by (auto simp: mult.commute)
  have r: "pool_entry m' va = (if unat v + 4096 \<le> unat va \<and> unat va < unat v + 4096 + n * 4096
      then (p + 4096 + page_off va (v + 4096)) OR 0x403 else pool_entry m1 va)"
    using rest va v(2) by (simp add: mapped_entries_def)
  have page: "unat va div 4096 = unat v div 4096 \<longleftrightarrow> unat v \<le> unat va \<and> unat va < unat v + 4096"
    by (auto simp: q div_nat_eqI dividend_less_times_div)
  have "p + 4096 + page_off va (v + 4096) = p + page_off va v" if "unat v + 4096 \<le> unat va"
  proof -
    have "Suc q \<le> unat va div 4096" using that by (simp add: q less_eq_div_iff_mult_less_eq)
    then obtain k where "unat va div 4096 = Suc q + k" using le_Suc_ex by blast
    then show ?thesis by (simp add: page_off_def v(2) q algebra_simps)
  qed
  moreover have "p + page_off va v = p" if "unat va div 4096 = unat v div 4096"
    using that by (simp add: page_off_def)
  ultimately show "pool_entry m' va = (if unat v \<le> unat va \<and> unat va < unat v + Suc n * 4096
      then (p + page_off va v) OR 0x403 else pool_entry m va)"
    using r one va page by (auto simp: add.assoc)
qed

lemma map_pages_ok:
  "tables_ok base m \<Longrightarrow> unat v mod 4096 = 0 \<Longrightarrow> 0x80000000 \<le> unat v \<Longrightarrow> unat v + n * 4096 \<le> 0x80800000 \<Longrightarrow>
   unat mapped + n * 4096 = unat sz \<Longrightarrow>
   \<exists>m'. map_pages base sz PROT_DEVICE_PAGE v p mapped m = Some m' \<and> tables_ok base m' \<and> mapped_entries m m' v p n"
proof (induction n arbitrary: m v p mapped)
  case 0
  then have "\<not> mapped < sz" by (simp add: word_less_nat_alt)
  then show ?case using 0 by (auto simp: map_pages.simps [of base sz] mapped_entries_def)
next
  case (Suc n)
  let ?d = "p OR PROT_DEVICE_PAGE OR push_bit 10 1 OR 0x3"
  have d: "?d = p OR 0x403" by (simp add: PROT_DEVICE_PAGE_def or.assoc)
  have v4: "unat (v + 4096) = unat v + 4096" using Suc(5) by (simp add: unat_word_ariths)
  have dyn: "dynamic v" using Suc(4,5) by (simp add: dynamic_unat)
  have mp: "unat (mapped + 4096) = unat mapped + 4096" using Suc(6) unat_u64_less [of sz] by (simp add: unat_word_ariths del: unat_u64_less)
  have lt: "mapped < sz" using Suc(6) by (simp add: word_less_nat_alt)
  from map_one_page [OF Suc(2) dyn, of ?d] obtain m1 where
    m1: "clean_cache_range (l3_pool_at base (va_index 21 v) + 8 * of_nat (va_index 12 v))
            (l3_pool_at base (va_index 21 v) + 8 * of_nat (va_index 12 v) + 8)
            (m\<lparr>kpt := (kpt m)\<lparr>l3_pool := (l3_pool (kpt m))[va_index 21 v := (l3_pool (kpt m) ! va_index 21 v)[va_index 12 v := ?d]]\<rparr>\<rparr>)
          = Some m1" "tables_ok base m1"
      "\<forall>va. dynamic va \<longrightarrow> pool_entry m1 va = (if unat va div 4096 = unat v div 4096 then ?d else pool_entry m va)" by (elim exE conjE) rule
  have "map_pages base sz PROT_DEVICE_PAGE v p mapped m
      = map_pages base sz PROT_DEVICE_PAGE (v + 4096) (p + 4096) (mapped + 4096) m1"
    by (rule trans [OF map_pages.simps])
      (simp only: Let_def index_and lt dynamic_index(4) [OF dyn] if_True m1(1) Option.bind.simps)
  moreover have "\<exists>m'. map_pages base sz PROT_DEVICE_PAGE (v + 4096) (p + 4096) (mapped + 4096) m1 = Some m'
      \<and> tables_ok base m' \<and> mapped_entries m1 m' (v + 4096) (p + 4096) n"
    by (rule Suc.IH [OF m1(2)]) (use Suc(3,4,5,6) v4 mp in \<open>simp_all only: v4 mp\<close>, simp_all)
  then obtain m' where m': "map_pages base sz PROT_DEVICE_PAGE (v + 4096) (p + 4096) (mapped + 4096) m1 = Some m'"
      "tables_ok base m'" "mapped_entries m1 m' (v + 4096) (p + 4096) n" by (elim exE conjE) rule
  moreover have "mapped_entries m m' v p (Suc n)"
    using mapped_entries_Suc [OF _ m'(3) Suc(3) v4] m1(3) d by simp
  ultimately show ?case by auto
qed

section \<open>Mapping device registers\<close>

lemma page_mask: "PAGE_MASK = NOT (mask 12)" "PAGE_SIZE - 1 = mask 12" "(0xFFF :: u64) = mask 12"
  by (simp_all add: PAGE_MASK_def PAGE_SIZE_def mask_eq_exp_minus_1)

lemma translate_page:
  assumes t: "tables_ok base m" and va: "dynamic va"
    and e: "pool_entry m va = (of_nat (P * 4096) + page_off va v) OR 0x403"
    and v: "unat v mod 4096 = 0" and x: "unat va = unat v + x" and bound: "P * 4096 + x < 2 ^ 48"
  shows "translate m va = Some (of_nat (P * 4096 + x), 0)"
proof -
  have k: "unat va div 4096 - unat v div 4096 = x div 4096" "unat va mod 4096 = x mod 4096"
    using v x by (auto simp: div_add1_eq elim!: dvdE)
  let ?a = "of_nat (P * 4096) + page_off va v :: u64"
  have a: "?a = of_nat ((P + x div 4096) * 4096)" by (simp add: page_off_def k distrib_right)
  have lt: "(P + x div 4096) * 4096 < 2 ^ 48"
    using bound div_times_less_eq_dividend [of x 4096] by (simp add: distrib_right)
  then have ua: "unat ?a = (P + x div 4096) * 4096" unfolding a by (simp add: unat_of_nat del: of_nat_mult of_nat_add)
  then have al: "aligned 12 ?a" using lt by (simp add: aligned_unat)
  have "?a + take_bit 12 va = of_nat (P * 4096 + x)"
  proof -
    have tb: "unat (take_bit 12 va) = x mod 4096" by (simp add: unat_take_bit k)
    have "?a + take_bit 12 va = of_nat (unat ?a) + of_nat (unat (take_bit 12 va))" by simp
    also have "\<dots> = of_nat ((P + x div 4096) * 4096 + x mod 4096)"
      by (simp only: ua tb of_nat_add)
    also have "(P + x div 4096) * 4096 + x mod 4096 = P * 4096 + x" by (simp add: distrib_right)
    finally show ?thesis .
  qed
  moreover have "(?a OR 0x403) AND 3 = 3" using desc_low(1) [OF al, of "0x403"] by simp
  moreover have "mem_attr m 0x403 = 0" using t mem_attr_blocks by (simp add: tables_ok_def)
  ultimately show ?thesis
    using leaf_desc [OF al, of "0x403" m va] translate_dynamic [OF t va] by (simp add: e)
qed

text \<open>The range is handed out from below; what has not been handed out is not mapped.\<close>

definition vm_ok :: "addr \<Rightarrow> heap \<Rightarrow> mmu \<Rightarrow> bool" where
  "vm_ok base h m \<longleftrightarrow> tables_ok base m \<and> 0x80000000 \<le> unat (vmalloc_ptr h) \<and> unat (vmalloc_ptr h) \<le> 0x80800000
     \<and> unat (vmalloc_ptr h) mod 4096 = 0
     \<and> (\<forall>va. dynamic va \<and> vmalloc_ptr h \<le> va \<longrightarrow> pool_entry m va = 0)"

definition round_pages :: "nat \<Rightarrow> nat" where
  "round_pages n = (n + 4095) div 4096 * 4096"

lemma round_pages_ge: "n \<le> round_pages n" "round_pages n < n + 4096" "round_pages n mod 4096 = 0"
proof -
  show "n \<le> round_pages n"
    using div_mult_mod_eq [of "n + 4095" 4096] mod_less_divisor [of 4096 "n + 4095"] unfolding round_pages_def by linarith
  show "round_pages n < n + 4096" using div_times_less_eq_dividend [of "n + 4095" 4096] unfolding round_pages_def by linarith
qed (simp add: round_pages_def)

lemma round_u64:
  assumes "unat x < 2 ^ 60"
  shows "unat ((x + PAGE_SIZE - 1) AND PAGE_MASK) = round_pages (unat x)"
proof -
  have "unat (x + 4095) = unat x + 4095" using assms by (simp add: unat_word_ariths)
  moreover have e: "x + PAGE_SIZE - 1 = x + 4095" by (simp add: PAGE_SIZE_def)
  ultimately show ?thesis unfolding page_mask(1) e by (simp add: unat_and_not_mask round_pages_def)
qed

lemma vmalloc_eq:
  assumes "unat (vmalloc_ptr h) \<le> 0x80800000" and "unat sz < 2 ^ 59" and "unat sz mod 4096 = 0"
  shows "vmalloc sz u h =
     (if 0x80800000 < unat (vmalloc_ptr h) + unat sz
      then (0, uart_puts (str ''[ERROR] vmalloc: Out of virtual dynamic space (Pool exhausted)!'' @ crlf) u, h)
      else (vmalloc_ptr h, u, h\<lparr>vmalloc_ptr := vmalloc_ptr h + sz\<rparr>))"
proof -
  have "round_pages (unat sz) = unat sz" using assms(3) by (auto simp: round_pages_def)
  then have "(sz + PAGE_SIZE - 1) AND PAGE_MASK = sz"
    using round_u64 [of sz] assms(2) by (simp add: word_unat_eq_iff)
  moreover have "unat (vmalloc_ptr h + sz) = unat (vmalloc_ptr h) + unat sz"
    using assms(1,2) by (simp add: unat_word_ariths)
  ultimately show ?thesis
    by (simp add: vmalloc_def word_less_nat_alt VMALLOC_MAX_def VMALLOC_START_def)
qed

lemma ioremap_ok:
  fixes phys :: u64
  assumes vm: "vm_ok base h m" and sz: "sz \<noteq> 0" and bound: "unat sz \<le> 2 ^ 48"
  defines "need \<equiv> round_pages (unat phys mod 4096 + unat sz)"
  shows "if 0x80800000 < unat (vmalloc_ptr h) + need
     then ioremap base phys sz u h m = Some (0, uart_puts (str ''[ERROR] vmalloc: Out of virtual dynamic space (Pool exhausted)!'' @ crlf) u, h, m)
     else \<exists>h' m'. ioremap base phys sz u h m = Some (vmalloc_ptr h + of_nat (unat phys mod 4096), u, h', m')
       \<and> vm_ok base h' m' \<and> h' = h\<lparr>vmalloc_ptr := vmalloc_ptr h + of_nat need\<rparr>
       \<and> mapped_entries m m' (vmalloc_ptr h) (of_nat (unat phys div 4096 * 4096)) (need div 4096)"
proof -
  let ?v = "vmalloc_ptr h"
  have t: "tables_ok base m" and v: "0x80000000 \<le> unat ?v" "unat ?v \<le> 0x80800000" "unat ?v mod 4096 = 0"
    using vm by (simp_all add: vm_ok_def)
  have off: "unat (phys AND (PAGE_SIZE - 1)) = unat phys mod 4096"
    unfolding page_mask by (simp add: unat_take_bit flip: take_bit_eq_mask)
  have pg: "unat (phys AND PAGE_MASK) = unat phys div 4096 * 4096" unfolding page_mask by (simp add: unat_and_not_mask)
  have sum: "unat ((phys AND (PAGE_SIZE - 1)) + sz) = unat phys mod 4096 + unat sz"
  proof -
    have "unat phys mod 4096 + unat sz < 2 ^ 64"
      using bound mod_less_divisor [of 4096 "unat phys"] by (simp del: mod_less_divisor)
    then show ?thesis by (simp add: unat_word_ariths off)
  qed
  have need: "unat (((phys AND (PAGE_SIZE - 1)) + sz + PAGE_SIZE - 1) AND PAGE_MASK) = need"
    using round_u64 [of "(phys AND (PAGE_SIZE - 1)) + sz"] sum bound mod_less_divisor [of 4096 "unat phys"]
    by (simp add: need_def)
  let ?m = "((phys AND (PAGE_SIZE - 1)) + sz + PAGE_SIZE - 1) AND PAGE_MASK"
  have small: "need < 2 ^ 59" "need mod 4096 = 0"
    using round_pages_ge(2,3) [of "unat phys mod 4096 + unat sz"] bound mod_less_divisor [of 4096 "unat phys"]
    by (simp_all add: need_def)
  have vz: "?v \<noteq> 0" using v(1) by auto
  note vme = vmalloc_eq [OF v(2), of ?m u, unfolded need, OF small]
  show ?thesis
  proof (cases "0x80800000 < unat ?v + need")
    case True
    then show ?thesis using vme sz by (simp add: ioremap_def Let_def)
  next
    case False
    let ?h = "h\<lparr>vmalloc_ptr := ?v + ?m\<rparr>" and ?n = "need div 4096"
    have n: "?n * 4096 = need" using small(2) by auto
    have word: "w = of_nat k" if "unat w = k" for w :: u64 and k using that by auto
    have mof: "?m = of_nat need" by (rule word [OF need])
    have pof: "(phys AND PAGE_MASK) AND NOT 0xFFF = of_nat (unat phys div 4096 * 4096)"
      unfolding word [OF pg, symmetric] unfolding page_mask by (simp add: and.assoc)
    have oof: "phys AND (PAGE_SIZE - 1) = of_nat (unat phys mod 4096)" by (rule word [OF off])
    let ?p = "of_nat (unat phys div 4096 * 4096) :: u64"
    have room: "unat ?v + ?n * 4096 \<le> 0x80800000" using False n by simp
    have "unat (0 :: u64) + ?n * 4096 = unat ?m" by (simp only: n need) simp
    from map_pages_ok [OF t v(3,1) room this, of ?p] obtain m1 where
      m1: "map_pages base ?m PROT_DEVICE_PAGE ?v ?p 0 m = Some m1" "tables_ok base m1" "mapped_entries m m1 ?v ?p ?n"
      by (elim exE conjE) rule
    let ?m' = "m1\<lparr>tlb_flushes := tlb_flushes m1 + 1\<rparr>"
    have mr: "mmu_map_region base ?v (phys AND PAGE_MASK) ?m PROT_DEVICE_PAGE m = Some ?m'"
      unfolding mmu_map_region_def pof m1(1) by simp
    have res: "ioremap base phys sz u h m = Some (?v + of_nat (unat phys mod 4096), u, ?h, ?m')"
      using sz vz False vme mr by (simp add: ioremap_def Let_def oof [symmetric])
    have t': "tables_ok base ?m'" using m1(2) by (simp add: tables_ok_def)
    have pe: "pool_entry (m1\<lparr>tlb_flushes := k\<rparr>) va = pool_entry m1 va" for va k by (simp add: pool_entry_def)
    have me: "mapped_entries m ?m' ?v ?p ?n" using m1(3) by (simp add: mapped_entries_def pe)
    have uv: "unat (?v + ?m) = unat ?v + need" using False v(2) small need by (simp add: unat_word_ariths)
    have "vm_ok base ?h ?m'"
      using t' uv v small(2) False vm m1(3) n
      by (auto simp: vm_ok_def pe mapped_entries_def word_le_nat_alt mod_add_eq [symmetric, of "unat ?v"])
    then show ?thesis using res me False by (simp add: mof)
  qed
qed

lemma ioremap_keeps:
  assumes vm: "vm_ok base h m" and bound: "unat sz \<le> 2 ^ 48"
  shows "\<exists>p u' h' m'. ioremap base phys sz u h m = Some (p, u', h', m') \<and> vm_ok base h' m'
     \<and> h' = h\<lparr>vmalloc_ptr := vmalloc_ptr h'\<rparr>"
proof (cases "sz = 0")
  case True
  then show ?thesis using vm by (simp add: ioremap_def)
next
  case False
  from ioremap_ok [OF vm False bound, of phys u] show ?thesis
  proof (cases "0x80800000 < unat (vmalloc_ptr h) + round_pages (unat phys mod 4096 + unat sz)")
    case True
    then show ?thesis using ioremap_ok [OF vm False bound, of phys u] vm by simp
  next
    case room: False
    then obtain h' m' where "ioremap base phys sz u h m = Some (vmalloc_ptr h + of_nat (unat phys mod 4096), u, h', m')"
      "vm_ok base h' m'" "h' = h\<lparr>vmalloc_ptr := vmalloc_ptr h + of_nat (round_pages (unat phys mod 4096 + unat sz))\<rparr>"
      using ioremap_ok [OF vm False bound, of phys u] by (simp only: if_False) blast
    then show ?thesis by (intro exI conjI) auto
  qed
qed

lemma mmu_init_ok:
  assumes b: "base_ok base"
  shows "\<exists>m'. mmu_init base u m = Some (uart_puts (str ''[OK] MMU ACTIVE: Identity & ECAM Bridge Online.'' @ crlf)
        (uart_puts (str ''[INFO] MMU: Configuring AETHER OS Memory Map...'' @ crlf) u), m')
     \<and> tables_ok base m' \<and> (\<forall>va. dynamic va \<longrightarrow> pool_entry m' va = 0)
     \<and> cleaned m' = cleaned m @ map (\<lambda>i. base + of_nat (64 * i)) [0..<512] \<and> bit (sctlr_el1 m') 0"
proof -
  have low: "unat base mod 4096 = 0" "unat base + 0x8000 \<le> 2 ^ 48"
    using base_plus(1) [OF b, of 0] b by (simp_all add: aligned_unat base_ok_def)
  then obtain q where q: "unat base = 64 * q" by (auto elim!: dvdE simp: dvd_def intro: that [of "64 * k" for k])
  have "unat (base AND NOT (mask 6)) = unat base" using unat_and_not_mask [of 6 base] by (simp add: q)
  then have "base AND NOT (mask 6) = base" by (simp only: word_unat_eq_iff)
  then have al: "base AND NOT 63 = base" by (simp add: mask_eq_exp_minus_1)
  have "unat (base + KPT_SIZE) = unat base + 64 * 512" using low by (simp add: KPT_SIZE_def unat_word_ariths)
  then have c: "clean_cache_range base (base + KPT_SIZE) m1
      = Some (m1\<lparr>cleaned := cleaned m1 @ map (\<lambda>i. base + of_nat (64 * i)) [0..<512]\<rparr>)" for m1
    unfolding clean_cache_range_def al using low by (intro clean_lines_eq) simp_all
  have "pool_entry (m1\<lparr>kpt := mmu_tables base\<rparr>) va = 0" if "dynamic va" for m1 va
    using dynamic_index(4) [OF that] by (simp add: pool_entry_def mmu_tables_fields)
  then show ?thesis
    using b by (simp add: mmu_init_def Let_def c tables_ok_def mmu_tables_fields pool_entry_def bit_or_iff)
qed

section \<open>Windows\<close>

text \<open>A window: where it starts, the physical address behind it and its size.\<close>

type_synonym window = "addr \<times> u64 \<times> u64"

definition window_mapped :: "mmu \<Rightarrow> window \<Rightarrow> bool" where
  "window_mapped m w \<longleftrightarrow> (case w of (p, phys, sz) \<Rightarrow>
     \<forall>i < unat sz. translate m (p + of_nat i) = Some (phys + of_nat i, 0))"

definition window_set :: "window \<Rightarrow> nat set" where
  "window_set w = (case w of (p, phys, sz) \<Rightarrow> {unat p ..< unat p + unat sz})"

lemma ioremap_window:
  assumes vm: "vm_ok base h m" and sz: "sz \<noteq> 0" and bound: "unat phys + unat sz \<le> 2 ^ 48"
    and room: "unat (vmalloc_ptr h) + round_pages (unat phys mod 4096 + unat sz) \<le> 0x80800000"
  shows "\<exists>p h' m'. ioremap base phys sz u h m = Some (p, u, h', m') \<and> p \<noteq> 0 \<and> vm_ok base h' m'
      \<and> h' = h\<lparr>vmalloc_ptr := vmalloc_ptr h'\<rparr>
      \<and> window_mapped m' (p, phys, sz) \<and> (\<forall>va. va < vmalloc_ptr h \<longrightarrow> translate m' va = translate m va)
      \<and> unat (vmalloc_ptr h) \<le> unat p \<and> unat p + unat sz \<le> unat (vmalloc_ptr h')"
proof -
  let ?v = "vmalloc_ptr h" and ?off = "unat phys mod 4096" and ?P = "unat phys div 4096"
  let ?need = "round_pages (?off + unat sz)"
  have v: "tables_ok base m" "0x80000000 \<le> unat ?v" "unat ?v \<le> 0x80800000" "unat ?v mod 4096 = 0"
    using vm by (simp_all add: vm_ok_def)
  have b48: "unat sz \<le> 2 ^ 48" using bound by simp
  from ioremap_ok [OF vm sz b48, of phys u] room obtain h' m' where
    r: "ioremap base phys sz u h m = Some (?v + of_nat ?off, u, h', m')" "vm_ok base h' m'"
      "h' = h\<lparr>vmalloc_ptr := ?v + of_nat ?need\<rparr>"
      "mapped_entries m m' ?v (of_nat (?P * 4096)) (?need div 4096)"
    by (auto simp: not_less)
  have t': "tables_ok base m'" using r(2) by (simp add: vm_ok_def)
  have need: "?off + unat sz \<le> ?need" "?need div 4096 * 4096 = ?need" using round_pages_ge(1) by (simp_all add: round_pages_def)
  have off: "?off < 4096" by simp
  have uv: "unat (?v + of_nat k) = unat ?v + k" if "k \<le> ?need" for k
    using that room v by (simp add: unat_word_ariths unat_of_nat)
  have win: "translate m' (?v + of_nat ?off + of_nat i) = Some (phys + of_nat i, 0)" if i: "i < unat sz" for i
  proof -
    let ?va = "?v + of_nat (?off + i)"
    have x: "unat ?va = unat ?v + (?off + i)" using uv [of "?off + i"] i need by simp
    have dyn: "dynamic ?va" using x i need room v by (simp add: dynamic_unat)
    have e: "pool_entry m' ?va = (of_nat (?P * 4096) + page_off ?va ?v) OR 0x403"
      using r(4) dyn x i need by (simp add: mapped_entries_def)
    have whole: "?P * 4096 + (?off + i) = unat phys + i" by (simp only: add.assoc [symmetric] div_mult_mod_eq)
    have "translate m' ?va = Some (of_nat (?P * 4096 + (?off + i)), 0)"
      by (rule translate_page [OF t' dyn e v(4) x]) (use whole i bound in linarith)
    then show ?thesis unfolding whole by (simp add: add.assoc)
  qed
  have keep: "translate m' va = translate m va" if "va < ?v" for va
  proof (cases "0x80000000 \<le> va")
    case True
    then have "dynamic va" "unat va < unat ?v" using that v by (simp_all add: dynamic_def word_less_nat_alt word_le_nat_alt)
    then have "pool_entry m' va = pool_entry m va" using r(4) by (simp add: mapped_entries_def)
    then show ?thesis using translate_dynamic [OF t' \<open>dynamic va\<close>] translate_dynamic [OF v(1) \<open>dynamic va\<close>] t' v(1)
      by (simp add: leaf_def mem_attr_def tables_ok_def)
  next
    case False
    then show ?thesis using translate_static [OF t', of va] translate_static [OF v(1), of va] by simp
  qed
  have "unat (?v + of_nat ?off) = unat ?v + ?off" using uv [of ?off] need by simp
  moreover have "unat (vmalloc_ptr h') = unat ?v + ?need" using uv [of ?need] r(3) by simp
  moreover have "?v + of_nat ?off \<noteq> 0" using calculation(1) v(2) by auto
  ultimately show ?thesis
    using r win keep need by (intro exI [of _ "?v + of_nat ?off"] exI [of _ h'] exI [of _ m']) (simp add: window_mapped_def)
qed

text \<open>
  Runs: the set-up, then any sequence of mapping requests, between which the heap allocator may
  move its own part of the state. The list holds the windows granted.
\<close>

inductive vm_run :: "addr \<Rightarrow> window list \<Rightarrow> heap \<Rightarrow> mmu \<Rightarrow> bool" for base where
  boot: "mmu_init base u m = Some (u', m') \<Longrightarrow> vmalloc_ptr h = 0x80000000 \<Longrightarrow> vm_run base [] h m'"
| map: "vm_run base ws h m \<Longrightarrow> sz \<noteq> 0 \<Longrightarrow> unat phys + unat sz \<le> 2 ^ 48 \<Longrightarrow>
    ioremap base phys sz u h m = Some (p, u', h', m') \<Longrightarrow>
    vm_run base (if p = 0 then ws else (p, phys, sz) # ws) h' m'"
| heap: "vm_run base ws h m \<Longrightarrow> vmalloc_ptr h' = vmalloc_ptr h \<Longrightarrow> vm_run base ws h' m"

definition windows_ok :: "window list \<Rightarrow> heap \<Rightarrow> mmu \<Rightarrow> bool" where
  "windows_ok ws h m \<longleftrightarrow> (\<forall>w \<in> set ws. window_mapped m w \<and> (\<forall>x \<in> window_set w. x < unat (vmalloc_ptr h)))
     \<and> sorted_wrt (\<lambda>w w'. window_set w \<inter> window_set w' = {}) ws"

lemma window_mapped_keep:
  assumes keep: "\<forall>va. va < b \<longrightarrow> translate m' va = translate m va"
    and w: "window_mapped m w" "\<forall>x \<in> window_set w. x < unat b"
  shows "window_mapped m' w"
proof -
  obtain p phys sz where pw: "w = (p, phys, sz)" by (cases w)
  have "translate m' (p + of_nat i) = translate m (p + of_nat i)" if i: "i < unat sz" for i
  proof -
    have "unat p + i < unat b" using w(2) i by (simp add: pw window_set_def)
    then have "p + of_nat i < b" using unat_u64_less [of b] by (simp add: word_less_nat_alt unat_word_ariths unat_of_nat del: unat_u64_less)
    with keep show ?thesis by blast
  qed
  then show ?thesis using w(1) by (simp add: pw window_mapped_def)
qed

lemma vm_run_ok: "vm_run base ws h m \<Longrightarrow> base_ok base \<Longrightarrow> vm_ok base h m \<and> windows_ok ws h m"
proof (induction rule: vm_run.induct)
  case (boot u m u' m' h)
  then show ?case using mmu_init_ok [of base u m] by (auto simp: vm_ok_def windows_ok_def)
next
  case (map ws h m sz phys u p u' h' m')
  have b48: "unat sz \<le> 2 ^ 48" using map(3) by simp
  have vm: "vm_ok base h m" and ws: "windows_ok ws h m" using map by simp_all
  show ?case
  proof (cases "0x80800000 < unat (vmalloc_ptr h) + round_pages (unat phys mod 4096 + unat sz)")
    case True
    then show ?thesis using ioremap_ok [OF vm map(2) b48, of phys u] map(4) vm ws by simp
  next
    case False
    then have room: "unat (vmalloc_ptr h) + round_pages (unat phys mod 4096 + unat sz) \<le> 0x80800000" by simp
    from ioremap_window [OF vm map(2,3) room, of u] map(4) have
      r: "p \<noteq> 0" "vm_ok base h' m'" "window_mapped m' (p, phys, sz)"
        "\<forall>va. va < vmalloc_ptr h \<longrightarrow> translate m' va = translate m va"
        "unat (vmalloc_ptr h) \<le> unat p" "unat p + unat sz \<le> unat (vmalloc_ptr h')" by auto
    have old: "window_mapped m' w" "\<forall>x \<in> window_set w. x < unat (vmalloc_ptr h)" if "w \<in> set ws" for w
      using window_mapped_keep [OF r(4), of w] ws that by (auto simp: windows_ok_def)
    moreover have "window_set (p, phys, sz) \<inter> window_set w = {}" if "w \<in> set ws" for w
      using old(2) [OF that] r(5) by (fastforce simp: window_set_def)
    moreover have "\<forall>x \<in> window_set (p, phys, sz). x < unat (vmalloc_ptr h')" using r(6) by (auto simp: window_set_def)
    moreover have "x < unat (vmalloc_ptr h')" if "x < unat (vmalloc_ptr h)" for x using that r(5,6) by linarith
    ultimately show ?thesis using r(1,2,3) ws
      unfolding windows_ok_def by auto
  qed
next
  case (heap ws h m h')
  then show ?case by (simp add: vm_ok_def windows_ok_def)
qed

section \<open>Properties\<close>

text \<open>
  C11: with the tables on a page boundary, the MMU set-up returns, and the walk the hardware then
  makes gives every address below 2 GB exactly one meaning and faults above: the identity, except
  that the 128 MB from 0x70000000 lead to the configuration space at 0x3F000000. The first gigabyte
  and that window get the memory type of byte 0x44, the rest of the second gigabyte 0xFF. Before
  the MMU is switched on every cache line of the tables has been written back.
\<close>

theorem mmu_init_maps_low_memory:
  assumes "base_ok base"
  shows "\<exists>u' m'. mmu_init base u m = Some (u', m')
    \<and> (\<forall>va. translate m' va = (if va < 0x80000000 then Some (static_map va) else None))
    \<and> cleaned m' = cleaned m @ map (\<lambda>i. base + of_nat (64 * i)) [0..<512] \<and> bit (sctlr_el1 m') 0"
proof -
  from mmu_init_ok [OF assms, of u m] obtain u' m' where
    m': "mmu_init base u m = Some (u', m')" "tables_ok base m'" "\<forall>va. dynamic va \<longrightarrow> pool_entry m' va = 0"
      "cleaned m' = cleaned m @ map (\<lambda>i. base + of_nat (64 * i)) [0..<512]" "bit (sctlr_el1 m') 0" by auto
  have "translate m' va = (if va < 0x80000000 then Some (static_map va) else None)" for va
  proof (cases "va < 0x80000000 \<or> 0x80800000 \<le> va")
    case True
    then show ?thesis using translate_static [OF m'(2), of va] translate_high [OF m'(2), of va]
      by (auto simp: word_le_nat_alt word_less_nat_alt)
  next
    case False
    then have "dynamic va" by (auto simp: dynamic_def)
    then show ?thesis using translate_dynamic [OF m'(2)] m'(3) False by simp
  qed
  with m' show ?thesis by blast
qed

definition sample_mmu :: mmu where
  "sample_mmu = \<lparr>kpt = mmu_tables 0, mair_el1 = 0, tcr_el1 = 0, ttbr0_el1 = 0, sctlr_el1 = 0, cleaned = [], tlb_flushes = 0\<rparr>"

lemma sample_base: "base_ok 0x400C0000"
  by (simp add: base_ok_def)

theorem mmu_init_maps_low_memory_witness:
  "\<exists>u' m'. mmu_init 0x400C0000 \<lparr>console = [], current_mode = MODE_PORTAL\<rparr> sample_mmu = Some (u', m')
     \<and> translate m' 0x09000018 = Some (0x09000018, 0x44) \<and> translate m' 0x70008010 = Some (0x3F008010, 0x44)
     \<and> translate m' 0x41000018 = Some (0x41000018, 0xFF) \<and> translate m' 0x80000000 = None"
proof -
  from mmu_init_maps_low_memory [OF sample_base, of "\<lparr>console = [], current_mode = MODE_PORTAL\<rparr>" sample_mmu]
  obtain u' m' where m': "mmu_init 0x400C0000 \<lparr>console = [], current_mode = MODE_PORTAL\<rparr> sample_mmu = Some (u', m')"
    and tr: "\<And>va. translate m' va = (if va < 0x80000000 then Some (static_map va) else None)" by blast
  have "translate m' 0x09000018 = Some (0x09000018, 0x44)" "translate m' 0x70008010 = Some (0x3F008010, 0x44)"
    "translate m' 0x41000018 = Some (0x41000018, 0xFF)" "translate m' 0x80000000 = None"
    unfolding tr static_map_def by simp_all
  with m' show ?thesis by blast
qed

text \<open>
  The window to the configuration space is larger than that space: past its first 16 MB it leads
  into RAM, heap included, which is so reachable under two addresses with different memory types.
\<close>

lemma ecam_window_aliases_ram:
  assumes t: "tables_ok base m" and pa: "0x40000000 \<le> pa" "pa < 0x47000000"
  shows "translate m pa = Some (pa, 0xFF)" and "translate m (pa + 0x31000000) = Some (pa, 0x44)"
proof -
  have u: "unat (pa + 0x31000000) = unat pa + 0x31000000"
    using pa by (simp add: unat_word_ariths word_less_nat_alt)
  have lt: "pa < 0x80000000" "pa + 0x31000000 < 0x80000000" "0x70000000 \<le> pa + 0x31000000" "pa + 0x31000000 < 0x78000000"
    "\<not> pa + 0x31000000 < 0x40000000" "\<not> 0x70000000 \<le> pa"
    using pa by (auto simp: u word_less_nat_alt word_le_nat_alt)
  show "translate m pa = Some (pa, 0xFF)" using translate_static [OF t lt(1)] lt pa by (simp add: static_map_def not_less)
  show "translate m (pa + 0x31000000) = Some (pa, 0x44)"
    using translate_static [OF t lt(2)] lt by (simp add: static_map_def)
qed

text \<open>
  Mapping device registers: for any physical range below the 48-bit limit, however it lies in
  its pages, that fits the rest of the dynamic range, ioremap returns a pointer through which
  every byte of the range is reached, uncached as device memory; the range is above everything
  handed out before, no earlier translation changes, and the rest of the heap state is untouched.
\<close>

lemma ioremap_maps_registers:
  assumes "vm_ok base h m" and "sz \<noteq> 0" and "unat phys + unat sz \<le> 2 ^ 48"
    and "unat (vmalloc_ptr h) + round_pages (unat phys mod 4096 + unat sz) \<le> 0x80800000"
  shows "\<exists>p h' m'. ioremap base phys sz u h m = Some (p, u, h', m') \<and> p \<noteq> 0 \<and> vm_ok base h' m'
      \<and> h' = h\<lparr>vmalloc_ptr := vmalloc_ptr h'\<rparr>
      \<and> window_mapped m' (p, phys, sz) \<and> (\<forall>va. va < vmalloc_ptr h \<longrightarrow> translate m' va = translate m va)
      \<and> unat (vmalloc_ptr h) \<le> unat p \<and> unat p + unat sz \<le> unat (vmalloc_ptr h')"
  using assms by (rule ioremap_window)

lemma sample_vm: "\<exists>h m. vm_run 0x400C0000 [] h m \<and> vmalloc_ptr h = 0x80000000"
proof -
  from mmu_init_ok [OF sample_base, of "\<lparr>console = [], current_mode = MODE_PORTAL\<rparr>" sample_mmu] obtain u' m' where
    "mmu_init 0x400C0000 \<lparr>console = [], current_mode = MODE_PORTAL\<rparr> sample_mmu = Some (u', m')" by blast
  then have "vm_run 0x400C0000 [] (heap_init (\<lambda>_. 0)) m'" by (rule vm_run.boot) (simp add: heap_init_def)
  then show ?thesis by (intro exI [of _ "heap_init (\<lambda>_. 0)"] exI [of _ m']) (simp add: heap_init_def)
qed



end
