(* ===== verification/Pci.thy ===== *)
theory Pci
  imports Net_Rx Mmu
begin

text \<open>
  The boot half of the kernel: the state of the machine while devices are found and set up, the
  registers of the hardware, and the configuration space (src/drivers/pcie.c).

  The hardware is not part of the repository. It is a parameter: a state \<open>'d\<close> and, for each width
  the code uses, what a load returns and what loads and stores do to that state. Addresses are the
  virtual ones the code uses; theory \<open>Mmu\<close> says where the page tables lead them.
\<close>

unbundle bit_operations_syntax

section \<open>Hardware and machine\<close>

record 'd hw =
  load32 :: "addr \<Rightarrow> 'd \<Rightarrow> u32 \<times> 'd"
  store32 :: "addr \<Rightarrow> u32 \<Rightarrow> 'd \<Rightarrow> 'd"
  load64 :: "addr \<Rightarrow> 'd \<Rightarrow> u64 \<times> 'd"
  load8 :: "addr \<Rightarrow> 'd \<Rightarrow> u8 \<times> 'd"
  store8 :: "addr \<Rightarrow> u8 \<Rightarrow> 'd \<Rightarrow> 'd"

text \<open>
  \<open>kernel\<close> is the kernel's memory, \<open>tables\<close> the page tables and system registers, \<open>pci_devices\<close>
  and \<open>next_pci_mem_addr\<close> the two variables of pcie.c.
\<close>

record 'd machine =
  kernel :: kstate
  tables :: mmu
  hardware :: 'd
  pci_devices :: u32
  next_pci_mem_addr :: u32

text \<open>Where the linker puts the static objects the code takes addresses of.\<close>

record layout =
  at_kpt :: addr
  at_rx_buffers :: addr
  at_rx_ring_mem :: addr
  at_tx_ring_mem :: addr

definition mmio_read32 :: "'d hw \<Rightarrow> addr \<Rightarrow> 'd machine \<Rightarrow> u32 \<times> 'd machine" where
  "mmio_read32 hw a m = (let (v, d) = load32 hw a (hardware m) in (v, m\<lparr>hardware := d\<rparr>))"

definition mmio_write32 :: "'d hw \<Rightarrow> addr \<Rightarrow> u32 \<Rightarrow> 'd machine \<Rightarrow> 'd machine" where
  "mmio_write32 hw a v m = m\<lparr>hardware := store32 hw a v (hardware m)\<rparr>"

definition m_print :: "(uart \<Rightarrow> uart) \<Rightarrow> 'd machine \<Rightarrow> 'd machine" where
  "m_print f m = m\<lparr>kernel := (kernel m)\<lparr>k_uart := f (k_uart (kernel m))\<rparr>\<rparr>"

definition m_puts :: "bytes \<Rightarrow> 'd machine \<Rightarrow> 'd machine" where
  "m_puts t = m_print (uart_puts t)"

definition m_ioremap :: "layout \<Rightarrow> u64 \<Rightarrow> u64 \<Rightarrow> 'd machine \<Rightarrow> (addr \<times> 'd machine) option" where
  "m_ioremap l phys sz m =
     do { (p, u, h, t) \<leftarrow> ioremap (at_kpt l) phys sz (k_uart (kernel m)) (k_heap (kernel m)) (tables m);
          Some (p, m\<lparr>kernel := (kernel m)\<lparr>k_uart := u, k_heap := h\<rparr>, tables := t\<rparr>) }"

section \<open>The configuration space\<close>

definition pcie_offset :: "u32 \<Rightarrow> u32 \<Rightarrow> u32 \<Rightarrow> u32 \<Rightarrow> u32" where
  "pcie_offset b d fn reg =
     push_bit 20 (b AND 0xFF) OR push_bit 15 (d AND 0x1F) OR push_bit 12 (fn AND 0x07) OR (reg AND 0xFFC)"

definition pcie_read_config ::
  "'d hw \<Rightarrow> u32 \<Rightarrow> u32 \<Rightarrow> u32 \<Rightarrow> u32 \<Rightarrow> 'd machine \<Rightarrow> u32 \<times> 'd machine" where
  "pcie_read_config hw b d fn reg m =
     (let offset = ucast (pcie_offset b d fn reg);
          (val, m) = mmio_read32 hw (PCIE_EXT_CFG_DATA + offset) m;
          byte_offset = reg AND 0x3
      in (if byte_offset = 0 then val else drop_bit (unat byte_offset * 8) val, m))"

definition pcie_write_config ::
  "'d hw \<Rightarrow> u32 \<Rightarrow> u32 \<Rightarrow> u32 \<Rightarrow> u32 \<Rightarrow> u32 \<Rightarrow> 'd machine \<Rightarrow> 'd machine" where
  "pcie_write_config hw b d fn reg val m =
     (let offset = ucast (pcie_offset b d fn reg)
      in mmio_write32 hw (PCIE_EXT_CFG_DATA + offset) val m)"

definition dump_word :: "'d hw \<Rightarrow> u32 \<Rightarrow> u32 \<Rightarrow> u32 \<Rightarrow> u32 \<Rightarrow> 'd machine \<Rightarrow> 'd machine" where
  "dump_word hw b d fn reg m =
     (let (v, m) = pcie_read_config hw b d fn reg m
      in m_puts (str '' '') (m_print (uart_put_hex (ucast v)) m))"

definition pcie_dump_header :: "'d hw \<Rightarrow> u32 \<Rightarrow> u32 \<Rightarrow> u32 \<Rightarrow> 'd machine \<Rightarrow> 'd machine" where
  "pcie_dump_header hw b d fn m =
     (let m = m_puts (crlf @ str ''--- [DEBUG] PCI Header: 00:'') m;
          m = m_print (uart_put_int d) m;
          m = m_puts (str ''.'') m;
          m = m_print (uart_put_int fn) m;
          m = m_puts (str '' ---'' @ crlf) m
      in fold (\<lambda>reg m.
            let m = m_print (uart_put_hex (ucast reg)) m;
                m = m_puts (str '': '') m;
                m = fold (\<lambda>i m. dump_word hw b d fn (reg + i) m) [0, 4, 8, 12] m
            in m_puts crlf m)
          [0, 16, 32, 48] m)"

section \<open>Facts about register access\<close>

lemma m_print_fields [simp]:
  "hardware (m_print f m) = hardware m" "tables (m_print f m) = tables m"
  "pci_devices (m_print f m) = pci_devices m" "next_pci_mem_addr (m_print f m) = next_pci_mem_addr m"
  "k_heap (kernel (m_print f m)) = k_heap (kernel m)" "k_hw (kernel (m_print f m)) = k_hw (kernel m)"
  by (simp_all add: m_print_def)

lemma m_puts_fields [simp]:
  "hardware (m_puts t m) = hardware m" "tables (m_puts t m) = tables m"
  "pci_devices (m_puts t m) = pci_devices m" "next_pci_mem_addr (m_puts t m) = next_pci_mem_addr m"
  "k_heap (kernel (m_puts t m)) = k_heap (kernel m)" "k_hw (kernel (m_puts t m)) = k_hw (kernel m)"
  by (simp_all add: m_puts_def)

lemma mmio_write_fields [simp]:
  "kernel (mmio_write32 hw a v m) = kernel m" "tables (mmio_write32 hw a v m) = tables m"
  "pci_devices (mmio_write32 hw a v m) = pci_devices m"
  "next_pci_mem_addr (mmio_write32 hw a v m) = next_pci_mem_addr m"
  "hardware (mmio_write32 hw a v m) = store32 hw a v (hardware m)"
  by (simp_all add: mmio_write32_def)

lemma mmio_read_fields [simp]:
  "kernel (snd (mmio_read32 hw a m)) = kernel m" "tables (snd (mmio_read32 hw a m)) = tables m"
  "pci_devices (snd (mmio_read32 hw a m)) = pci_devices m"
  "next_pci_mem_addr (snd (mmio_read32 hw a m)) = next_pci_mem_addr m"
  by (simp_all add: mmio_read32_def split: prod.split)

section \<open>What discovery keeps\<close>

text \<open>Register access and printing change the hardware and the console, and nothing else.\<close>

definition quiet :: "'d machine \<Rightarrow> 'd machine \<Rightarrow> bool" where
  "quiet m m' \<longleftrightarrow> (\<exists>u d. m' = m\<lparr>kernel := (kernel m)\<lparr>k_uart := u\<rparr>, hardware := d\<rparr>)"

lemma quietI: "m' = m\<lparr>kernel := (kernel m)\<lparr>k_uart := u\<rparr>, hardware := d\<rparr> \<Longrightarrow> quiet m m'"
  by (auto simp: quiet_def)

lemma quiet_refl: "quiet m m"
  by (rule quietI [where u = "k_uart (kernel m)" and d = "hardware m"]) simp

lemma quiet_trans: "quiet m m' \<Longrightarrow> quiet m' m'' \<Longrightarrow> quiet m m''"
proof -
  assume "quiet m m'" "quiet m' m''"
  then obtain u d u' d' where "m' = m\<lparr>kernel := (kernel m)\<lparr>k_uart := u\<rparr>, hardware := d\<rparr>"
    "m'' = m'\<lparr>kernel := (kernel m')\<lparr>k_uart := u'\<rparr>, hardware := d'\<rparr>" by (auto simp: quiet_def)
  then have "m'' = m\<lparr>kernel := (kernel m)\<lparr>k_uart := u'\<rparr>, hardware := d'\<rparr>" by simp
  then show ?thesis by (rule quietI)
qed

lemma quiet_print: "quiet m (m_print f m)"
  by (rule quietI [where u = "f (k_uart (kernel m))" and d = "hardware m"]) (simp add: m_print_def)

lemma quiet_puts: "quiet m (m_puts t m)"
  by (simp add: m_puts_def quiet_print)

lemma quiet_hardware: "quiet m (m\<lparr>hardware := d\<rparr>)"
  by (rule quietI [where u = "k_uart (kernel m)" and d = d]) simp

lemma quiet_write: "quiet m (mmio_write32 hw a v m)"
  by (simp add: mmio_write32_def quiet_hardware)

lemma quiet_read: "mmio_read32 hw a m = (v, m') \<Longrightarrow> quiet m m'"
  by (auto simp: mmio_read32_def quiet_hardware split: prod.splits)

lemma quiet_config_read: "pcie_read_config hw b d fn r m = (v, m') \<Longrightarrow> quiet m m'"
  by (auto simp: pcie_read_config_def Let_def split: prod.splits if_splits intro: quiet_read)

lemma quiet_config_write: "quiet m (pcie_write_config hw b d fn r v m)"
  by (simp add: pcie_write_config_def Let_def quiet_write)

lemmas quiet_steps = quiet_refl quiet_print quiet_puts quiet_hardware quiet_write quiet_config_write

lemma quiet_fold: "(\<And>x m. x \<in> set xs \<Longrightarrow> quiet m (f x m)) \<Longrightarrow> quiet m (fold f xs m)"
proof (induction xs arbitrary: m)
  case (Cons x xs)
  then show ?case using quiet_trans [of m "f x m"] by simp
qed (simp add: quiet_refl)

lemma quiet_dump_word: "quiet m (dump_word hw b d fn r m)"
proof -
  obtain v m1 where r: "pcie_read_config hw b d fn r m = (v, m1)" by fastforce
  then have "quiet m1 (dump_word hw b d fn r m)"
    by (simp add: dump_word_def quiet_trans [OF quiet_print quiet_puts])
  then show ?thesis by (rule quiet_trans [OF quiet_config_read [OF r]])
qed

lemma quiet_dump: "quiet m (pcie_dump_header hw b d fn m)"
proof -
  have line: "quiet m (m_puts crlf (fold (\<lambda>i m. dump_word hw b d fn (r + i) m) [0, 4, 8, 12]
      (m_puts (str '': '') (m_print (uart_put_hex (ucast r)) m))))" for r m
    by (rule quiet_trans [OF quiet_trans [OF quiet_trans [OF quiet_print quiet_puts] quiet_fold] quiet_puts])
      (rule quiet_dump_word)
  have head: "quiet m (m_puts (str '' ---'' @ crlf) (m_print (uart_put_int fn) (m_puts (str ''.'')
      (m_print (uart_put_int d) (m_puts (crlf @ str ''--- [DEBUG] PCI Header: 00:'') m)))))"
    by (intro quiet_trans [OF _ quiet_puts] quiet_trans [OF _ quiet_print] quiet_puts)
  show ?thesis unfolding pcie_dump_header_def Let_def
    by (rule quiet_trans [OF head quiet_fold]) (rule line)
qed

text \<open>
  The boot invariant: the kernel is as \<open>virtio_net_setup_queues\<close> needs it, the page tables match
  the register windows handed out, and if a device is selected and its queues are set up, the
  network half is ready to run; no connection exists yet.
\<close>

definition boot_inv :: "layout \<Rightarrow> 'd machine \<Rightarrow> bool" where
  "boot_inv l m \<longleftrightarrow> net_start (kernel m) \<and> vm_ok (at_kpt l) (k_heap (kernel m)) (tables m)
     \<and> (tx_up (kernel m) \<longrightarrow> net_ok (at_rx_buffers l) (kernel m)) \<and> tcp_tcb_list (kernel m) = 0"

lemma net_start_cong:
  assumes "k_heap k' = k_heap k" "tx_queue k' = tx_queue k" "tcbs k' = tcbs k" "tcp_tcb_list k' = tcp_tcb_list k"
    "aether_mac k' = aether_mac k" "global_vnet_dev k' = global_vnet_dev k" "arp_cache k' = arp_cache k"
    "rx_buffers k' = rx_buffers k" "k_hw k' = k_hw k"
  shows "net_start k' = net_start k"
  using net_inv_cong(1) [OF assms(1-6)] by (simp add: net_start_def assms ring_sizes_ok_def)

lemma net_ok_cong:
  assumes "k_heap k' = k_heap k" "tx_queue k' = tx_queue k" "tcbs k' = tcbs k" "tcp_tcb_list k' = tcp_tcb_list k"
    "aether_mac k' = aether_mac k" "global_vnet_dev k' = global_vnet_dev k" "arp_cache k' = arp_cache k"
    "rx_buffers k' = rx_buffers k" "rx_queue k' = rx_queue k"
  shows "net_ok rxb k' = net_ok rxb k"
  using net_inv_cong(1,4) [OF assms(1-6)] by (simp add: net_ok_def assms rx_inv_def)

lemma quiet_boot_inv: "quiet m m' \<Longrightarrow> boot_inv l m' = boot_inv l m"
proof -
  assume "quiet m m'"
  then obtain u d where m': "m' = m\<lparr>kernel := (kernel m)\<lparr>k_uart := u\<rparr>, hardware := d\<rparr>" by (auto simp: quiet_def)
  have "net_start (kernel m') = net_start (kernel m)" "net_ok r (kernel m') = net_ok r (kernel m)" for r
    using net_start_cong [of "kernel m'" "kernel m"] net_ok_cong [of "kernel m'" "kernel m"] by (simp_all add: m')
  then show "boot_inv l m' = boot_inv l m" by (simp add: boot_inv_def m' tx_up_def)
qed

lemma quiet_counters: "quiet m m' \<Longrightarrow> next_pci_mem_addr m' = next_pci_mem_addr m \<and> pci_devices m' = pci_devices m"
  by (auto simp: quiet_def)

text \<open>
  An entry point of a driver, as the scan relies on it: it keeps the boot invariant and leaves the
  variables of the scan alone.
\<close>

definition boot_step :: "layout \<Rightarrow> 'd machine \<Rightarrow> 'd machine \<Rightarrow> bool" where
  "boot_step l m m' \<longleftrightarrow> (boot_inv l m \<longrightarrow> boot_inv l m')
     \<and> next_pci_mem_addr m' = next_pci_mem_addr m \<and> pci_devices m' = pci_devices m"

lemma quiet_boot_step: "quiet m m' \<Longrightarrow> boot_step l m m'"
  using quiet_boot_inv [of m m' l] quiet_counters [of m m'] by (simp add: boot_step_def)

lemma boot_step_trans: "boot_step l m m' \<Longrightarrow> boot_step l m' m'' \<Longrightarrow> boot_step l m m''"
  by (simp add: boot_step_def)

lemma heap_inv_vmalloc: "heap_inv (h\<lparr>vmalloc_ptr := v\<rparr>) = heap_inv h" "live (h\<lparr>vmalloc_ptr := v\<rparr>) = live h"
  "heap_ext h (h\<lparr>vmalloc_ptr := v\<rparr>)"
proof -
  show lv: "live (h\<lparr>vmalloc_ptr := v\<rparr>) = live h" by (rule ext) (simp add: live_def)
  show "heap_inv (h\<lparr>vmalloc_ptr := v\<rparr>) = heap_inv h" by (simp add: heap_inv_def heap_blocks_def)
  show "heap_ext h (h\<lparr>vmalloc_ptr := v\<rparr>)" by (simp add: heap_ext_def lv)
qed

lemma boot_inv_heap:
  assumes inv: "boot_inv l m" and h: "heap_inv h" "heap_ext (k_heap (kernel m)) h" and t: "vm_ok (at_kpt l) h t"
  shows "boot_inv l (m\<lparr>kernel := (kernel m)\<lparr>k_uart := u, k_heap := h\<rparr>, tables := t\<rparr>)"
proof -
  let ?k = "(kernel m)\<lparr>k_uart := u, k_heap := h\<rparr>"
  have st: "net_start (kernel m)" and up: "tx_up (kernel m) \<Longrightarrow> net_ok (at_rx_buffers l) (kernel m)"
    using inv by (simp_all add: boot_inv_def)
  have "net_inv ?k" using net_inv_heap [OF _ h] st by (simp add: net_start_def)
  then have "net_start ?k" "tx_up ?k \<longrightarrow> net_ok (at_rx_buffers l) ?k"
    using st up by (auto simp: net_start_def ring_sizes_ok_def net_ok_def rx_inv_def tx_up_def)
  then show ?thesis using t inv by (simp add: boot_inv_def)
qed

lemma m_ioremap_step:
  assumes "unat sz \<le> 2 ^ 48" and r: "m_ioremap l phys sz m = Some (p, m')"
  shows "boot_step l m m'"
proof -
  have "boot_inv l m'" if inv: "boot_inv l m"
  proof -
    have vm: "vm_ok (at_kpt l) (k_heap (kernel m)) (tables m)" and hi: "heap_inv (k_heap (kernel m))"
      using inv by (auto simp: boot_inv_def net_start_def net_inv_def tx_inv_def)
    from ioremap_keeps [OF vm assms(1), of phys "k_uart (kernel m)"] obtain p' u h t where
      io: "ioremap (at_kpt l) phys sz (k_uart (kernel m)) (k_heap (kernel m)) (tables m) = Some (p', u, h, t)"
      "vm_ok (at_kpt l) h t" "h = (k_heap (kernel m))\<lparr>vmalloc_ptr := vmalloc_ptr h\<rparr>" by blast
    have m': "m' = m\<lparr>kernel := (kernel m)\<lparr>k_uart := u, k_heap := h\<rparr>, tables := t\<rparr>"
      using r io(1) by (simp add: m_ioremap_def)
    show ?thesis unfolding m'
      by (rule boot_inv_heap [OF inv _ _ io(2)])
        (use hi heap_inv_vmalloc [where h = "k_heap (kernel m)" and v = "vmalloc_ptr h"] io(3) in simp_all)
  qed
  moreover have "next_pci_mem_addr m' = next_pci_mem_addr m \<and> pci_devices m' = pci_devices m"
    using r by (auto simp: m_ioremap_def split: bind_splits)
  ultimately show ?thesis by (simp add: boot_step_def)
qed

section \<open>A machine to run on\<close>

definition sample_machine :: "'d \<Rightarrow> 'd machine" where
  "sample_machine d = \<lparr>kernel = sample_boot, tables = sample_mmu, hardware = d, pci_devices = 0,
     next_pci_mem_addr = 0x10000000\<rparr>"

definition sample_layout :: layout where
  "sample_layout = \<lparr>at_kpt = 0x400C0000, at_rx_buffers = 0x40200000, at_rx_ring_mem = 0x40280000, at_tx_ring_mem = 0x40284000\<rparr>"

text \<open>Hardware whose registers hold what was stored.\<close>

definition mem_hw :: "(addr \<Rightarrow> u32) hw" where
  "mem_hw = \<lparr>load32 = \<lambda>a d. (d a, d), store32 = \<lambda>a v d. d(a := v), load64 = \<lambda>a d. (ucast (d a), d),
     load8 = \<lambda>a d. (ucast (d a), d), store8 = \<lambda>a v d. d(a := ucast v)\<rparr>"

end
