(* ===== verification/Virtio_Pci.thy ===== *)
theory Virtio_Pci
  imports Pci
begin

text \<open>
  Finding the regions of the network device and bringing it up (src/drivers/virtio/virtio_pci.c
  and the first half of src/drivers/virtio/virtio_net.c). The loops that wait for the hardware are
  partial: \<open>None\<close> also stands for waiting for ever.
\<close>

unbundle bit_operations_syntax

section \<open>Capabilities\<close>

definition VIRTIO_PCI_CAP_COMMON_CFG :: u8 where "VIRTIO_PCI_CAP_COMMON_CFG = 1"
definition VIRTIO_PCI_CAP_NOTIFY_CFG :: u8 where "VIRTIO_PCI_CAP_NOTIFY_CFG = 2"
definition VIRTIO_PCI_CAP_ISR_CFG :: u8 where "VIRTIO_PCI_CAP_ISR_CFG = 3"
definition VIRTIO_PCI_CAP_DEVICE_CFG :: u8 where "VIRTIO_PCI_CAP_DEVICE_CFG = 4"

text \<open>The configuration space of the device a structure stands for.\<close>

definition vdev_read :: "'d hw \<Rightarrow> virtio_pci_device \<Rightarrow> u32 \<Rightarrow> 'd machine \<Rightarrow> u32 \<times> 'd machine" where
  "vdev_read hw v reg m = pcie_read_config hw (bus v) (dev v) (func v) reg m"

definition bar_address :: "'d hw \<Rightarrow> virtio_pci_device \<Rightarrow> u8 \<Rightarrow> 'd machine \<Rightarrow> u64 \<times> 'd machine" where
  "bar_address hw v bar m =
     (let (bar_low, m) = vdev_read hw v (0x10 + ucast bar * 4) m;
          phys_addr = ucast (bar_low AND NOT 0xF)
      in if bar_low AND 0x6 = 0x4
         then (let (bar_high, m) = vdev_read hw v (0x10 + ucast bar * 4 + 4) m
               in (phys_addr OR push_bit 32 (ucast bar_high), m))
         else (phys_addr, m))"

definition virtio_pci_map_capability ::
  "'d hw \<Rightarrow> layout \<Rightarrow> virtio_pci_device \<Rightarrow> u8 \<Rightarrow> u8 \<Rightarrow> u32 \<Rightarrow> u32 \<Rightarrow> u8 \<Rightarrow> 'd machine
   \<Rightarrow> (virtio_pci_device \<times> 'd machine) option" where
  "virtio_pci_map_capability hw l v ty bar offset len cap_ptr m =
     (let (phys_addr, m) = bar_address hw v bar m in
      if phys_addr = 0 then Some (v, m)
      else do {
        (virt_addr, m) \<leftarrow> m_ioremap l (phys_addr + ucast offset) (ucast len) m;
        Some (if virt_addr = 0 then (v, m)
              else if ty = VIRTIO_PCI_CAP_COMMON_CFG then (v\<lparr>common := virt_addr\<rparr>, m)
              else if ty = VIRTIO_PCI_CAP_DEVICE_CFG then (v\<lparr>device := virt_addr\<rparr>, m)
              else if ty = VIRTIO_PCI_CAP_ISR_CFG then (v\<lparr>isr := virt_addr\<rparr>, m)
              else if ty = VIRTIO_PCI_CAP_NOTIFY_CFG
              then (let v = v\<lparr>notify_base := virt_addr\<rparr>;
                        (mul, m) = vdev_read hw v (ucast cap_ptr + 16) m
                    in (v\<lparr>notify_off_multiplier := mul\<rparr>, m))
              else (v, m)) })"

text \<open>One element of the list: what it says and what is done for it.\<close>

definition virtio_pci_capability ::
  "'d hw \<Rightarrow> layout \<Rightarrow> virtio_pci_device \<Rightarrow> u8 \<Rightarrow> u32 \<Rightarrow> 'd machine \<Rightarrow> (virtio_pci_device \<times> 'd machine) option" where
  "virtio_pci_capability hw l v cap_ptr d0 m =
     (let ty = ucast (drop_bit 24 d0 AND 0xFF);
          (d1, m) = vdev_read hw v (ucast cap_ptr + 4) m;
          bar = ucast (d1 AND 0xFF);
          (offset, m) = vdev_read hw v (ucast cap_ptr + 8) m;
          (len, m) = vdev_read hw v (ucast cap_ptr + 12) m;
          m = m_puts (str ''  -> Found VirtIO Cap Type: '') m;
          m = m_print (uart_put_int (ucast ty)) m;
          m = m_puts (str '' (BAR '') m;
          m = m_print (uart_put_int (ucast bar)) m;
          m = m_puts (str '')'' @ crlf) m
      in virtio_pci_map_capability hw l v ty bar offset len cap_ptr m)"

partial_function (option) cap_walk ::
  "'d hw \<Rightarrow> layout \<Rightarrow> virtio_pci_device \<Rightarrow> u8 \<Rightarrow> 'd machine \<Rightarrow> (virtio_pci_device \<times> 'd machine) option" where
  "cap_walk hw l v cap_ptr m =
     (if cap_ptr \<noteq> 0 \<and> cap_ptr < 0xFF
      then
        let (d0, m) = vdev_read hw v (ucast cap_ptr) m;
            cap_id = ucast (d0 AND 0xFF) :: u8;
            nxt = ucast (drop_bit 8 d0 AND 0xFF)
        in do {
          (v, m) \<leftarrow> (if cap_id = 0x09 then virtio_pci_capability hw l v cap_ptr d0 m else Some (v, m));
          cap_walk hw l v nxt m }
      else Some (v, m))"

definition virtio_pci_cap_lookup ::
  "'d hw \<Rightarrow> layout \<Rightarrow> virtio_pci_device \<Rightarrow> 'd machine \<Rightarrow> (virtio_pci_device \<times> 'd machine) option" where
  "virtio_pci_cap_lookup hw l v m =
     (let (w, m) = vdev_read hw v 0x34 m in cap_walk hw l v (ucast (w AND 0xFF)) m)"

section \<open>The device comes up\<close>

definition VIRTIO_STATUS_ACKNOWLEDGE :: u32 where "VIRTIO_STATUS_ACKNOWLEDGE = 1"
definition VIRTIO_STATUS_DRIVER :: u32 where "VIRTIO_STATUS_DRIVER = 2"
definition VIRTIO_STATUS_DRIVER_OK :: u32 where "VIRTIO_STATUS_DRIVER_OK = 4"
definition VIRTIO_STATUS_FEATURES_OK :: u32 where "VIRTIO_STATUS_FEATURES_OK = 8"

partial_function (option) wait_zero32 :: "'d hw \<Rightarrow> addr \<Rightarrow> 'd machine \<Rightarrow> 'd machine option" where
  "wait_zero32 hw a m =
     (let (v, m) = mmio_read32 hw a m in if v \<noteq> 0 then wait_zero32 hw a m else Some m)"

definition accept_low :: "u32 \<Rightarrow> u32" where
  "accept_low f0 =
     (let accept0 = 0;
          accept0 = (if f0 AND push_bit 5 1 \<noteq> 0 then accept0 OR push_bit 5 1 else accept0)
      in if f0 AND push_bit 27 1 \<noteq> 0 then accept0 OR push_bit 27 1 else accept0)"

definition accept_high :: "u32 \<Rightarrow> u32" where
  "accept_high f1 = (if f1 AND 1 \<noteq> 0 then 0 OR 1 else 0)"

definition negotiate :: "'d hw \<Rightarrow> addr \<Rightarrow> 'd machine \<Rightarrow> 'd machine" where
  "negotiate hw c m =
     (let m = mmio_write32 hw (c + 0x00) 0 m;
          (f0, m) = mmio_read32 hw (c + 0x04) m;
          m = mmio_write32 hw (c + 0x00) 1 m;
          (f1, m) = mmio_read32 hw (c + 0x04) m;
          accept0 = accept_low f0;
          accept1 = accept_high f1;
          m = mmio_write32 hw (c + 0x08) 0 m;
          m = mmio_write32 hw (c + 0x0C) accept0 m;
          m = mmio_write32 hw (c + 0x08) 1 m
      in mmio_write32 hw (c + 0x0C) accept1 m)"

definition print_mac_bytes :: "u32 \<Rightarrow> u32 \<Rightarrow> uart \<Rightarrow> uart" where
  "print_mac_bytes mac_low mac_high u =
     (let mac = [mac_low AND 0xFF, drop_bit 8 mac_low AND 0xFF, drop_bit 16 mac_low AND 0xFF,
                 drop_bit 24 mac_low AND 0xFF, mac_high AND 0xFF, drop_bit 8 mac_high AND 0xFF]
      in uart_puts crlf (fold (\<lambda>i u.
           let u = uart_put_hex (ucast (ucast (mac ! i) :: u8)) u
           in if i < 5 then uart_puts (str '':'') u else u) [0..<6] u))"

definition announce_live :: "'d hw \<Rightarrow> virtio_pci_device \<Rightarrow> u32 \<Rightarrow> 'd machine \<Rightarrow> 'd machine" where
  "announce_live hw v status m =
     (let m = mmio_write32 hw (common v + 0x14) status m;
          m = m_puts (str ''[OK] VirtIO-Net: Device LIVE'' @ crlf) m;
          m = m_puts (str ''[INFO] Hardware MAC: '') m;
          (mac_low, m) = mmio_read32 hw (device v) m;
          (mac_high, m) = mmio_read32 hw (device v + 4) m
      in m_print (print_mac_bytes mac_low mac_high) m)"

definition virtio_net_init ::
  "'d hw \<Rightarrow> layout \<Rightarrow> virtio_pci_device \<Rightarrow> 'd machine \<Rightarrow> (virtio_pci_device \<times> 'd machine) option" where
  "virtio_net_init hw l v m =
     do { let m = m_puts (str ''[INFO] VirtIO-Net: Starting Hardware Handshake...'' @ crlf) m;
          let c = common v;
          let m = mmio_write32 hw (c + 0x14) 0 m;
          m \<leftarrow> wait_zero32 hw (c + 0x14) m;
          let status = VIRTIO_STATUS_ACKNOWLEDGE OR VIRTIO_STATUS_DRIVER;
          let m = mmio_write32 hw (c + 0x14) status m;
          let m = negotiate hw c m;
          let status = status OR VIRTIO_STATUS_FEATURES_OK;
          let m = mmio_write32 hw (c + 0x14) status m;
          let (s, m) = mmio_read32 hw (c + 0x14) m;
          if s AND VIRTIO_STATUS_FEATURES_OK = 0
          then Some (v, m_puts (str ''[ERROR] VirtIO-Net: Feature negotiation failed'' @ crlf) m)
          else do {
            let m = announce_live hw v (status OR VIRTIO_STATUS_DRIVER_OK) m;
            (v, k) \<leftarrow> virtio_net_setup_queues (at_rx_buffers l) (at_rx_ring_mem l) (at_tx_ring_mem l) v (kernel m);
            Some (v, m\<lparr>kernel := k\<rparr>) } }"

text \<open>
  The structure lives in a heap block whose old contents \<open>fresh\<close> stands for: the code sets all
  its fields but the multiplier and the two queue pointers.
\<close>

definition VDEV_SIZE :: u64 where "VDEV_SIZE = 72"

definition virtio_pci_init ::
  "'d hw \<Rightarrow> layout \<Rightarrow> virtio_pci_device \<Rightarrow> u32 \<Rightarrow> u32 \<Rightarrow> u32 \<Rightarrow> 'd machine \<Rightarrow> 'd machine option" where
  "virtio_pci_init hw l fresh b d fn m =
     do { let m = m_puts (str ''[INFO] VirtIO: Initializing PCI Transport...'' @ crlf) m;
          (p, k) \<leftarrow> k_kmalloc VDEV_SIZE (kernel m);
          let m = m\<lparr>kernel := k\<rparr>;
          if p = 0 then Some (m_puts (str ''[ERROR] VirtIO: Out of memory for vdev allocation.'' @ crlf) m)
          else do {
            let v = fresh\<lparr>bus := b, dev := d, func := fn, common := 0, device := 0, isr := 0, notify_base := 0\<rparr>;
            (v, m) \<leftarrow> virtio_pci_cap_lookup hw l v m;
            if common v \<noteq> 0 \<and> device v \<noteq> 0
            then do {
              let m = m\<lparr>kernel := (kernel m)\<lparr>global_vnet_dev := Some v\<rparr>\<rparr>;
              let m = m_puts (str ''[OK] VirtIO: Mapping Successful.'' @ crlf) m;
              (v, m) \<leftarrow> virtio_net_init hw l v m;
              Some (m\<lparr>kernel := (kernel m)\<lparr>global_vnet_dev := Some v\<rparr>\<rparr>) }
            else Some (m_puts (str ''[ERROR] VirtIO: Critical Capability Banks missing.'' @ crlf) m) } }"

section \<open>The device goes down\<close>

partial_function (option) wait_zero8 :: "'d hw \<Rightarrow> addr \<Rightarrow> 'd machine \<Rightarrow> 'd machine option" where
  "wait_zero8 hw a m =
     (let (v, d) = load8 hw a (hardware m); m = m\<lparr>hardware := d\<rparr>
      in if v \<noteq> 0 then wait_zero8 hw a m else Some m)"

definition virtio_pci_reset :: "'d hw \<Rightarrow> virtio_pci_device option \<Rightarrow> 'd machine \<Rightarrow> 'd machine option" where
  "virtio_pci_reset hw vo m =
     (case vo of
        None \<Rightarrow> Some m
      | Some v \<Rightarrow>
          if common v = 0 then Some m
          else do {
            let m = m_puts (str ''[VIRTIO] Resetting device state...'' @ crlf) m;
            let m = m\<lparr>hardware := store8 hw (common v + 20) 0 (hardware m)\<rparr>;
            m \<leftarrow> wait_zero8 hw (common v + 20) m;
            Some (m_puts (str ''[OK] VirtIO Device Parked.'' @ crlf) m) })"

section \<open>Discovery keeps the kernel\<close>

lemma quiet_vdev_read: "vdev_read hw v r m = (w, m') \<Longrightarrow> quiet m m'"
  unfolding vdev_read_def by (rule quiet_config_read)

lemma quiet_bar: "bar_address hw v bar m = (a, m') \<Longrightarrow> quiet m m'"
  by (auto simp: bar_address_def Let_def split: prod.splits if_splits
      intro: quiet_vdev_read quiet_trans [OF quiet_vdev_read quiet_vdev_read])

lemma len_u32: "unat (ucast (n :: u32) :: u64) \<le> 2 ^ 48"
  using unat_u32_less [of n] by (simp del: unat_u32_less)

lemma map_capability_step:
  assumes "virtio_pci_map_capability hw l v ty bar offset len cap_ptr m = Some (v', m')"
  shows "boot_step l m m' \<and> tx_vq v' = tx_vq v"
proof -
  obtain a m1 where a: "bar_address hw v bar m = (a, m1)" by fastforce
  note q1 = quiet_boot_step [OF quiet_bar [OF a], of l]
  show ?thesis
  proof (cases "a = 0")
    case True
    then show ?thesis using assms a q1 by (simp add: virtio_pci_map_capability_def)
  next
    case False
    then obtain p m2 where p: "m_ioremap l (a + ucast offset) (ucast len) m1 = Some (p, m2)"
      using assms a by (auto simp: virtio_pci_map_capability_def split: bind_splits)
    have q2: "boot_step l m m2" by (rule boot_step_trans [OF q1 m_ioremap_step [OF len_u32 p]])
    obtain mul m3 where r: "vdev_read hw (v\<lparr>notify_base := p\<rparr>) (ucast cap_ptr + 16) m2 = (mul, m3)" by fastforce
    have "boot_step l m m3" by (rule boot_step_trans [OF q2 quiet_boot_step [OF quiet_vdev_read [OF r]]])
    then show ?thesis using assms a False p q2 r
      by (auto simp: virtio_pci_map_capability_def Let_def split: if_splits)
  qed
qed

lemma capability_step:
  assumes "virtio_pci_capability hw l v cap_ptr d0 m = Some (v', m')"
  shows "boot_step l m m' \<and> tx_vq v' = tx_vq v"
proof -
  obtain d1 m1 where 1: "vdev_read hw v (ucast cap_ptr + 4) m = (d1, m1)" by fastforce
  obtain off m2 where 2: "vdev_read hw v (ucast cap_ptr + 8) m1 = (off, m2)" by fastforce
  obtain len m3 where 3: "vdev_read hw v (ucast cap_ptr + 12) m2 = (len, m3)" by fastforce
  have q: "quiet m m3"
    by (rule quiet_trans [OF quiet_trans [OF quiet_vdev_read [OF 1] quiet_vdev_read [OF 2]] quiet_vdev_read [OF 3]])
  have "quiet m3 (m_puts a1 (m_print f1 (m_puts a2 (m_print f2 (m_puts a3 m3)))))" for a1 f1 a2 f2 a3
    by (intro quiet_trans [OF _ quiet_puts] quiet_trans [OF _ quiet_print] quiet_puts)
  then have "boot_step l m (m_puts a1 (m_print f1 (m_puts a2 (m_print f2 (m_puts a3 m3)))))" for a1 f1 a2 f2 a3
    using quiet_boot_step [OF quiet_trans [OF q]] by blast
  then show ?thesis
    using assms map_capability_step boot_step_trans unfolding virtio_pci_capability_def Let_def 1 prod.case 2 3
    by blast
qed

lemma cap_walk_step:
  "cap_walk hw l v p m = Some r \<Longrightarrow> boot_step l m (snd r) \<and> tx_vq (fst r) = tx_vq v"
proof (induction rule: cap_walk.raw_induct [rotated 1, consumes 1])
  case (1 walk hw l v p m r)
  show ?case
  proof (cases "p \<noteq> 0 \<and> p < 0xFF")
    case True
    obtain d0 m1 where d0: "vdev_read hw v (ucast p) m = (d0, m1)" by fastforce
    note q1 = quiet_boot_step [OF quiet_vdev_read [OF d0], of l]
    let ?cap = "if ucast (d0 AND 0xFF) = (0x09 :: u8) then virtio_pci_capability hw l v p d0 m1 else Some (v, m1)"
    obtain v2 m2 where c: "?cap = Some (v2, m2)" and w: "walk hw l v2 (ucast (drop_bit 8 d0 AND 0xFF)) m2 = Some r"
      using 1(2) True d0 by (auto simp: Let_def split: bind_splits)
    have "boot_step l m1 m2 \<and> tx_vq v2 = tx_vq v"
      using c capability_step [of hw l v p d0 m1 v2 m2] quiet_boot_step [OF quiet_refl, of l m1] by (auto split: if_splits)
    then show ?thesis using 1(1) [OF w] q1 boot_step_trans by metis
  next
    case False
    then show ?thesis using 1(2) quiet_boot_step [OF quiet_refl] by auto
  qed
qed

lemma cap_lookup_step:
  assumes "virtio_pci_cap_lookup hw l v m = Some (v', m')"
  shows "boot_step l m m' \<and> tx_vq v' = tx_vq v"
proof -
  obtain w m1 where r: "vdev_read hw v 0x34 m = (w, m1)" by fastforce
  then have "cap_walk hw l v (ucast (w AND 0xFF)) m1 = Some (v', m')"
    using assms by (simp add: virtio_pci_cap_lookup_def)
  from cap_walk_step [OF this] show ?thesis
    using boot_step_trans [OF quiet_boot_step [OF quiet_vdev_read [OF r]]] by auto
qed

lemma wait_zero32_quiet: "wait_zero32 hw a m = Some m' \<Longrightarrow> quiet m m'"
proof (induction rule: wait_zero32.raw_induct [rotated 1, consumes 1])
  case (1 wait hw a m m')
  obtain v m1 where r: "mmio_read32 hw a m = (v, m1)" by fastforce
  then show ?case using 1 quiet_trans [OF quiet_read [OF r]] quiet_read [OF r] by (auto split: if_splits)
qed

lemma negotiate_quiet: "quiet m (negotiate hw c m)"
proof -
  let ?m0 = "mmio_write32 hw (c + 0x00) 0 m"
  obtain f0 m1 where 1: "mmio_read32 hw (c + 0x04) ?m0 = (f0, m1)" by fastforce
  let ?m1 = "mmio_write32 hw (c + 0x00) 1 m1"
  obtain f1 m2 where 2: "mmio_read32 hw (c + 0x04) ?m1 = (f1, m2)" by fastforce
  have "quiet m m2"
    by (rule quiet_trans [OF quiet_trans [OF quiet_trans [OF quiet_write quiet_read [OF 1]] quiet_write] quiet_read [OF 2]])
  then show ?thesis unfolding negotiate_def Let_def 1 prod.case 2
    by (intro quiet_trans [OF _ quiet_write])
qed

text \<open>The queues can be set up again and again: what a set-up leaves is fit for another one.\<close>

lemma bind_queue_sizes:
  "queue_size (queues (k_hw (k_bind_queue vq k)) i)
     = (if i = queue_index vq then vq_size vq else queue_size (queues (k_hw k) i))"
  by (simp add: k_bind_queue_def virtio_pci_bind_queue_def Let_def)

lemma virtqueue_init_size:
  "virtqueue_init vq n i b = Some vq' \<Longrightarrow> vq_size vq' = n \<and> queue_index vq' = i"
  by (auto simp: virtqueue_init_def Let_def split: if_splits bind_splits)

lemma queue_ops_keep [simp]:
  "arp_cache (k_puts s k) = arp_cache k" "global_vnet_dev (k_puts s k) = global_vnet_dev k"
  "arp_cache (k_bind_queue vq k) = arp_cache k" "global_vnet_dev (k_bind_queue vq k) = global_vnet_dev k"
  "arp_cache (k_select_queue i k) = arp_cache k" "global_vnet_dev (k_select_queue i k) = global_vnet_dev k"
  by (simp_all add: k_puts_def k_bind_queue_def k_select_queue_def split_beta)

lemma setup_keeps:
  assumes "virtio_net_setup_queues rxb rm tm v k = Some (v', k')"
  shows "arp_cache k' = arp_cache k \<and> global_vnet_dev k' = global_vnet_dev k
     \<and> (\<forall>i. queue_size (queues (k_hw k') i) = queue_size (queues (k_hw k) i))"
  using assms
  by (auto simp: virtio_net_setup_queues_def Let_def RX_QUEUE_INDEX_def TX_QUEUE_INDEX_def bind_queue_sizes
      dest!: virtqueue_init_size split: if_splits bind_splits)

lemma setup_boot_inv:
  assumes inv: "boot_inv l m" and su: "virtio_net_setup_queues (at_rx_buffers l) rm tm v (kernel m) = Some (v', k')"
  shows "boot_inv l (m\<lparr>kernel := k'\<lparr>global_vnet_dev := Some v'\<rparr>\<rparr>)"
proof -
  let ?k = "kernel m"
  have st: "net_start ?k" using inv by (simp add: boot_inv_def)
  note kp = setup_keeps [OF su]
  have ok: "net_ok (at_rx_buffers l) (k'\<lparr>global_vnet_dev := Some v'\<rparr>)"
    using setup_net_ok [OF st su] kp net_ok_cong [of "k'\<lparr>global_vnet_dev := Some v'\<rparr>" "k'\<lparr>global_vnet_dev := Some v', arp_cache := arp_cache ?k\<rparr>"]
    by simp
  have "ring_sizes_ok ?k" using st by (simp add: net_start_def)
  from setup_queues_ok [OF this, of "at_rx_buffers l" rm tm v] su have
    q: "vq_rep (tx_queue k') [0..<unat (queue_size (queues (k_hw ?k) 1))] []"
      "vq_size (tx_queue k') = queue_size (queues (k_hw ?k) 1)" "k_heap k' = k_heap ?k" "rx_buffers k' = rx_buffers ?k"
      "tcp_tcb_list k' = tcp_tcb_list ?k"
    by auto
  have "in_flight (tx_queue k') = {}" using in_flight_rep [OF q(1)] q(2) by auto
  then have "net_start (k'\<lparr>global_vnet_dev := Some v'\<rparr>)"
    using st ok kp q by (simp add: net_start_def net_ok_def ring_sizes_ok_def)
  then show ?thesis using ok inv q(3,5) by (simp add: boot_inv_def)
qed

lemma quiet_announce: "quiet m (announce_live hw v st m)"
proof -
  let ?m3 = "m_puts (str ''[INFO] Hardware MAC: '') (m_puts (str ''[OK] VirtIO-Net: Device LIVE'' @ crlf)
        (mmio_write32 hw (common v + 0x14) st m))"
  obtain lo m4 where lo: "mmio_read32 hw (device v) ?m3 = (lo, m4)" by fastforce
  obtain hi m5 where hi: "mmio_read32 hw (device v + 4) m4 = (hi, m5)" by fastforce
  have "quiet m ?m3" by (intro quiet_trans [OF _ quiet_puts] quiet_write)
  then have "quiet m m5" by (rule quiet_trans [OF _ quiet_trans [OF quiet_read [OF lo] quiet_read [OF hi]]])
  then show ?thesis unfolding announce_live_def Let_def lo prod.case hi by (rule quiet_trans [OF _ quiet_print])
qed

text \<open>
  The handshake is quiet; it ends by refusing the device or by handing the machine over to the
  queue set-up.
\<close>

definition hello :: bytes where
  "hello = str ''[INFO] VirtIO-Net: Starting Hardware Handshake...'' @ crlf"

lemma net_init_run:
  assumes r: "virtio_net_init hw l v m = Some (v', m')"
  obtains m1 s m2 where
    "wait_zero32 hw (common v + 0x14) (mmio_write32 hw (common v + 0x14) 0 (m_puts hello m)) = Some m1"
    "mmio_read32 hw (common v + 0x14) (mmio_write32 hw (common v + 0x14) 0xB
        (negotiate hw (common v) (mmio_write32 hw (common v + 0x14) 3 m1))) = (s, m2)"
    "quiet m m2"
    "(s AND VIRTIO_STATUS_FEATURES_OK = 0 \<and> v' = v
        \<and> m' = m_puts (str ''[ERROR] VirtIO-Net: Feature negotiation failed'' @ crlf) m2)
     \<or> (s AND VIRTIO_STATUS_FEATURES_OK \<noteq> 0 \<and> (\<exists>k'. m' = (announce_live hw v 0xF m2)\<lparr>kernel := k'\<rparr>
        \<and> virtio_net_setup_queues (at_rx_buffers l) (at_rx_ring_mem l) (at_tx_ring_mem l) v
            (kernel (announce_live hw v 0xF m2)) = Some (v', k')))"
proof -
  let ?c = "common v + 0x14" and ?m0 = "mmio_write32 hw (common v + 0x14) 0 (m_puts hello m)"
  have st: "VIRTIO_STATUS_ACKNOWLEDGE OR VIRTIO_STATUS_DRIVER = 3" "3 OR VIRTIO_STATUS_FEATURES_OK = 0xB"
    "0xB OR VIRTIO_STATUS_DRIVER_OK = 0xF"
    by (simp_all add: VIRTIO_STATUS_ACKNOWLEDGE_def VIRTIO_STATUS_DRIVER_def VIRTIO_STATUS_FEATURES_OK_def
        VIRTIO_STATUS_DRIVER_OK_def)
  note def = virtio_net_init_def [of hw l v m, unfolded Let_def st hello_def [symmetric]]
  obtain m1 where w: "wait_zero32 hw ?c ?m0 = Some m1"
    using r by (auto simp: def split: bind_splits)
  let ?m1 = "mmio_write32 hw ?c 0xB (negotiate hw (common v) (mmio_write32 hw ?c 3 m1))"
  obtain s m2 where s: "mmio_read32 hw ?c ?m1 = (s, m2)" by fastforce
  have "quiet m ?m0" by (rule quiet_trans [OF quiet_puts quiet_write])
  then have "quiet m m1" using wait_zero32_quiet [OF w] by (rule quiet_trans)
  then have "quiet m ?m1" by (intro quiet_trans [OF _ quiet_write] quiet_trans [OF _ negotiate_quiet])
  then have "quiet m m2" using quiet_read [OF s] by (rule quiet_trans)
  with w s show thesis
    by (rule that) (use r w s in \<open>auto simp: def split: bind_splits if_splits\<close>)
qed

lemma net_init_cases:
  assumes r: "virtio_net_init hw l v m = Some (v', m')"
  obtains (refused) "v' = v" "quiet m m'"
  | (live) m2 k' where "quiet m m2" "m' = m2\<lparr>kernel := k'\<rparr>"
      "virtio_net_setup_queues (at_rx_buffers l) (at_rx_ring_mem l) (at_tx_ring_mem l) v (kernel m2) = Some (v', k')"
  using r
proof (cases rule: net_init_run)
  case (1 m1 s m2)
  from 1(4) show thesis
  proof (elim disjE conjE exE)
    assume "v' = v" "m' = m_puts (str ''[ERROR] VirtIO-Net: Feature negotiation failed'' @ crlf) m2"
    then show thesis using refused quiet_trans [OF 1(3) quiet_puts] by simp
  next
    fix k' assume "m' = (announce_live hw v 0xF m2)\<lparr>kernel := k'\<rparr>"
      "virtio_net_setup_queues (at_rx_buffers l) (at_rx_ring_mem l) (at_tx_ring_mem l) v
            (kernel (announce_live hw v 0xF m2)) = Some (v', k')"
    then show thesis by (rule live [OF quiet_trans [OF 1(3) quiet_announce]])
  qed
qed

lemma net_init_step:
  assumes inv: "boot_inv l m" and r: "virtio_net_init hw l v m = Some (v', m')"
    and g: "global_vnet_dev (kernel m) = Some v"
  shows "boot_inv l (m'\<lparr>kernel := (kernel m')\<lparr>global_vnet_dev := Some v'\<rparr>\<rparr>)
    \<and> next_pci_mem_addr m' = next_pci_mem_addr m \<and> pci_devices m' = pci_devices m"
  using r
proof (cases rule: net_init_cases)
  case refused
  then have "global_vnet_dev (kernel m') = Some v" using g by (auto simp: quiet_def)
  then have "m'\<lparr>kernel := (kernel m')\<lparr>global_vnet_dev := Some v'\<rparr>\<rparr> = m'" using refused by simp
  then show ?thesis using refused inv quiet_boot_inv [OF refused(2), of l] quiet_counters [OF refused(2)] by simp
next
  case (live m2 k')
  have "boot_inv l m2" using inv quiet_boot_inv [OF live(1), of l] by simp
  from setup_boot_inv [OF this live(3)] show ?thesis using live(2) quiet_counters [OF live(1)] by simp
qed

lemma kmalloc_vmalloc: "kmalloc n u h = Some (p, u', h') \<Longrightarrow> vmalloc_ptr h' = vmalloc_ptr h"
  by (auto simp: kmalloc_def Let_def split: bind_splits if_splits)

lemma kmalloc_boot_step:
  assumes r: "k_kmalloc VDEV_SIZE (kernel m) = Some (p, k)"
  shows "boot_step l m (m\<lparr>kernel := k\<rparr>)"
proof -
  have "boot_inv l (m\<lparr>kernel := k\<rparr>)" if inv: "boot_inv l m"
  proof -
    have hi: "heap_inv (k_heap (kernel m))" using inv by (simp add: boot_inv_def net_start_def net_inv_def tx_inv_def)
    have vm: "vm_ok (at_kpt l) (k_heap (kernel m)) (tables m)" using inv by (simp add: boot_inv_def)
    obtain u h where k: "k = (kernel m)\<lparr>k_uart := u, k_heap := h\<rparr>" "kmalloc VDEV_SIZE (k_uart (kernel m)) (k_heap (kernel m)) = Some (p, u, h)"
      using r by (auto simp: k_kmalloc_def split: bind_splits)
    have "vm_ok (at_kpt l) h (tables m)" using vm kmalloc_vmalloc [OF k(2)] by (simp add: vm_ok_def)
    moreover have "heap_inv h \<and> heap_ext (k_heap (kernel m)) h"
    proof -
      have "unat VDEV_SIZE \<le> 2 ^ 32" by (simp add: VDEV_SIZE_def)
      from hi this have "heap_inv (k_heap k) \<and> heap_ext (k_heap (kernel m)) (k_heap k)"
        by (cases rule: k_kmalloc_cases) (use r in auto)
      then show ?thesis by (simp add: k(1))
    qed
    ultimately show ?thesis using boot_inv_heap [OF inv, of h "tables m" u] by (simp add: k(1))
  qed
  then show ?thesis by (simp add: boot_step_def)
qed

lemma select_boot_inv:
  assumes "boot_inv l m" and "\<not> tx_vq v"
  shows "boot_inv l (m\<lparr>kernel := (kernel m)\<lparr>global_vnet_dev := Some v\<rparr>\<rparr>)"
proof -
  let ?k = "(kernel m)\<lparr>global_vnet_dev := Some v\<rparr>"
  have down: "\<not> tx_up ?k" using assms(2) by (simp add: tx_up_def)
  have "tx_inv (kernel m)" "\<exists>as. conns (kernel m) as" using assms(1) by (auto simp: boot_inv_def net_start_def net_inv_def)
  moreover have "tx_buf ?k = tx_buf (kernel m)" by (rule ext) (simp add: tx_buf_def)
  ultimately have "net_inv ?k" using down by (simp add: net_inv_def tx_inv_def conns_def tx_bufs_def)
  then show ?thesis using assms(1) down by (simp add: boot_inv_def net_start_def ring_sizes_ok_def)
qed

lemma virtio_pci_init_step:
  assumes r: "virtio_pci_init hw l fresh b d fn m = Some m'" and f: "\<not> tx_vq fresh"
  shows "boot_step l m m'"
proof -
  let ?m0 = "m_puts (str ''[INFO] VirtIO: Initializing PCI Transport...'' @ crlf) m"
  obtain p k where km: "k_kmalloc VDEV_SIZE (kernel ?m0) = Some (p, k)"
    using r by (auto simp: virtio_pci_init_def Let_def split: bind_splits)
  have s1: "boot_step l m (?m0\<lparr>kernel := k\<rparr>)"
    by (rule boot_step_trans [OF quiet_boot_step [OF quiet_puts] kmalloc_boot_step [OF km]])
  show ?thesis
  proof (cases "p = 0")
    case True
    then have "m' = m_puts (str ''[ERROR] VirtIO: Out of memory for vdev allocation.'' @ crlf) (?m0\<lparr>kernel := k\<rparr>)"
      using r km by (simp add: virtio_pci_init_def Let_def)
    then show ?thesis using boot_step_trans [OF s1 quiet_boot_step [OF quiet_puts]] by simp
  next
    case False
    let ?v = "fresh\<lparr>bus := b, dev := d, func := fn, common := 0, device := 0, isr := 0, notify_base := 0\<rparr>"
    obtain v m2 where c: "virtio_pci_cap_lookup hw l ?v (?m0\<lparr>kernel := k\<rparr>) = Some (v, m2)"
      using r km False by (auto simp: virtio_pci_init_def Let_def split: bind_splits)
    have s2: "boot_step l m m2" and tx: "\<not> tx_vq v"
      using cap_lookup_step [OF c, of] boot_step_trans [OF s1] f by auto
    show ?thesis
    proof (cases "common v \<noteq> 0 \<and> device v \<noteq> 0")
      case False
      then have "m' = m_puts (str ''[ERROR] VirtIO: Critical Capability Banks missing.'' @ crlf) m2"
        using r km c \<open>p \<noteq> 0\<close> by (auto simp: virtio_pci_init_def Let_def)
      then show ?thesis using boot_step_trans [OF s2 quiet_boot_step [OF quiet_puts]] by simp
    next
      case True
      let ?m3 = "m_puts (str ''[OK] VirtIO: Mapping Successful.'' @ crlf) (m2\<lparr>kernel := (kernel m2)\<lparr>global_vnet_dev := Some v\<rparr>\<rparr>)"
      obtain v' m4 where i: "virtio_net_init hw l v ?m3 = Some (v', m4)"
        and m': "m' = m4\<lparr>kernel := (kernel m4)\<lparr>global_vnet_dev := Some v'\<rparr>\<rparr>"
        using r km c \<open>p \<noteq> 0\<close> True by (auto simp: virtio_pci_init_def Let_def split: bind_splits)
      have g: "global_vnet_dev (kernel ?m3) = Some v" by (simp add: m_puts_def m_print_def)
      have "boot_inv l ?m3" if "boot_inv l m"
        using select_boot_inv [OF _ tx, of l m2] that s2
        by (simp add: boot_step_def) (subst quiet_boot_inv [OF quiet_puts], simp)
      moreover have "next_pci_mem_addr m4 = next_pci_mem_addr ?m3 \<and> pci_devices m4 = pci_devices ?m3"
        using i
      proof (cases rule: net_init_cases)
        case refused
        then show ?thesis using quiet_counters by blast
      next
        case (live m5 k')
        then show ?thesis using quiet_counters [OF live(1)] by simp
      qed
      ultimately show ?thesis using net_init_step [OF _ i g] s2 m' by (simp add: boot_step_def)
    qed
  qed
qed

section \<open>The handshake on the wire\<close>

text \<open>Any hardware, with a record of the 32-bit stores made to it.\<close>

definition traced :: "'d hw \<Rightarrow> ('d \<times> (addr \<times> u32) list) hw" where
  "traced hw = \<lparr>
     load32 = \<lambda>a (d, t). (let (v, d) = load32 hw a d in (v, d, t)),
     store32 = \<lambda>a v (d, t). (store32 hw a v d, t @ [(a, v)]),
     load64 = \<lambda>a (d, t). (let (v, d) = load64 hw a d in (v, d, t)),
     load8 = \<lambda>a (d, t). (let (v, d) = load8 hw a d in (v, d, t)),
     store8 = \<lambda>a v (d, t). (store8 hw a v d, t)\<rparr>"

definition stores :: "('d \<times> (addr \<times> u32) list) machine \<Rightarrow> (addr \<times> u32) list" where
  "stores m = snd (hardware m)"

lemma stores_simps [simp]:
  "stores (m_puts t m) = stores m" "stores (m_print f m) = stores m"
  "stores (mmio_write32 (traced hw) a v m) = stores m @ [(a, v)]"
  "stores (m\<lparr>kernel := k\<rparr>) = stores m"
  by (simp_all add: stores_def traced_def split: prod.split)

lemma traced_read:
  "mmio_read32 (traced hw) a m = (v, m') \<Longrightarrow> stores m' = stores m \<and> v = fst (load32 hw a (fst (hardware m)))"
  by (auto simp: mmio_read32_def traced_def stores_def split: prod.splits)

lemma traced_wait: "wait_zero32 h a m = Some m' \<Longrightarrow> h = traced hw \<longrightarrow> stores m' = stores m"
proof (induction rule: wait_zero32.raw_induct [rotated 1, consumes 1])
  case (1 wait h a m m')
  obtain v m1 where r: "mmio_read32 h a m = (v, m1)" by fastforce
  then show ?case using 1 traced_read [of hw a m v m1] by (auto split: if_splits)
qed

lemma accept_low_eq: "accept_low f = f AND 0x08000020"
proof -
  have two: "(0x08000020 :: u32) = push_bit 5 1 OR push_bit 27 1" by simp
  have b: "bit (push_bit k 1 :: u32) n \<longleftrightarrow> n = k \<and> k < 32" for k n
    by (auto simp: bit_exp_iff)
  have z: "bit (0 :: u32) n = False" for n by simp
  show ?thesis unfolding two accept_low_def Let_def bit_iff_and_push_bit_not_eq_0 [symmetric]
    by (cases "bit f 5"; cases "bit f 27"; rule bit_word_eqI)
      (simp_all only: if_True if_False bit_and_iff bit_or_iff b z, auto)
qed

lemma accept_high_eq: "accept_high f = f AND 1"
  by (simp add: accept_high_def and_one_eq odd_iff_mod_2_eq_one)

lemma hardware_write: "fst (store32 (traced hw) a v p) = store32 hw a v (fst p)"
  by (simp add: traced_def split: prod.split)

lemma negotiate_stores:
  "\<exists>d0 d1. stores (negotiate (traced hw) c m) = stores m @
     [(c, 0), (c, 1), (c + 8, 0), (c + 0xC, fst (load32 hw (c + 4) (store32 hw c 0 d0)) AND 0x08000020),
      (c + 8, 1), (c + 0xC, fst (load32 hw (c + 4) (store32 hw c 1 d1)) AND 1)]"
proof -
  let ?m0 = "mmio_write32 (traced hw) (c + 0x00) 0 m"
  obtain f0 m1 where 1: "mmio_read32 (traced hw) (c + 0x04) ?m0 = (f0, m1)" by fastforce
  let ?m1 = "mmio_write32 (traced hw) (c + 0x00) 1 m1"
  obtain f1 m2 where 2: "mmio_read32 (traced hw) (c + 0x04) ?m1 = (f1, m2)" by fastforce
  have "f0 = fst (load32 hw (c + 4) (store32 hw c 0 (fst (hardware m))))" "stores m1 = stores m @ [(c, 0)]"
    using traced_read [OF 1] by (simp_all add: hardware_write)
  moreover have "f1 = fst (load32 hw (c + 4) (store32 hw c 1 (fst (hardware m1))))" "stores m2 = stores m1 @ [(c, 1)]"
    using traced_read [OF 2] by (simp_all add: hardware_write)
  ultimately have "stores (negotiate (traced hw) c m) = stores m @
     [(c, 0), (c, 1), (c + 8, 0), (c + 0xC, fst (load32 hw (c + 4) (store32 hw c 0 (fst (hardware m)))) AND 0x08000020),
      (c + 8, 1), (c + 0xC, fst (load32 hw (c + 4) (store32 hw c 1 (fst (hardware m1)))) AND 1)]"
    unfolding negotiate_def Let_def 1 prod.case 2 by (simp add: accept_low_eq accept_high_eq)
  then show ?thesis by blast
qed

lemma announce_stores: "stores (announce_live (traced hw) v st m) = stores m @ [(common v + 0x14, st)]"
proof -
  let ?hw = "traced hw"
  let ?m3 = "m_puts (str ''[INFO] Hardware MAC: '') (m_puts (str ''[OK] VirtIO-Net: Device LIVE'' @ crlf)
        (mmio_write32 ?hw (common v + 0x14) st m))"
  obtain lo m4 where lo: "mmio_read32 ?hw (device v) ?m3 = (lo, m4)" by fastforce
  obtain hi m5 where hi: "mmio_read32 ?hw (device v + 4) m4 = (hi, m5)" by fastforce
  show ?thesis unfolding announce_live_def Let_def lo prod.case hi
    using traced_read [OF lo] traced_read [OF hi] by simp
qed

section \<open>Properties\<close>

text \<open>
  C17: the handshake as the device sees it, for any device: reset, the acknowledged and driver
  bits, then both banks of features with exactly those of MAC address, any layout and version 1
  that the device offered in each, then the request to accept them. Only if the device keeps that
  bit in what it answers is it declared ready and are the queues set up; otherwise nothing more is
  stored and the kernel is as before but for the console.
\<close>

theorem handshake_accepts_only_known_features:
  assumes r: "virtio_net_init (traced hw) l v m = Some (v', m')"
  shows "\<exists>d0 d1 d2. let c = common v;
       f0 = fst (load32 hw (c + 4) (store32 hw c 0 d0)); f1 = fst (load32 hw (c + 4) (store32 hw c 1 d1));
       ok = fst (load32 hw (c + 0x14) (store32 hw (c + 0x14) 0xB d2)) AND VIRTIO_STATUS_FEATURES_OK \<noteq> 0
     in stores m' = stores m @ [(c + 0x14, 0), (c + 0x14, 3), (c, 0), (c, 1), (c + 8, 0), (c + 0xC, f0 AND 0x08000020),
            (c + 8, 1), (c + 0xC, f1 AND 1), (c + 0x14, 0xB)] @ (if ok then [(c + 0x14, 0xF)] else [])
        \<and> (\<not> ok \<longrightarrow> v' = v \<and> quiet m m')
        \<and> (ok \<and> ring_sizes_ok (kernel m) \<longrightarrow> v' = v\<lparr>rx_vq := True, tx_vq := True\<rparr>)"
  using r
proof (cases rule: net_init_run)
  case (1 m1 s m2)
  let ?hw = "traced hw" and ?c = "common v + 0x14"
  let ?m1 = "negotiate ?hw (common v) (mmio_write32 ?hw ?c 3 m1)"
  obtain d0 d1 where "stores ?m1 = stores (mmio_write32 ?hw ?c 3 m1) @
     [(common v, 0), (common v, 1), (common v + 8, 0),
      (common v + 0xC, fst (load32 hw (common v + 4) (store32 hw (common v) 0 d0)) AND 0x08000020),
      (common v + 8, 1), (common v + 0xC, fst (load32 hw (common v + 4) (store32 hw (common v) 1 d1)) AND 1)]"
    using negotiate_stores [of hw "common v" "mmio_write32 ?hw ?c 3 m1"] by (elim exE) rule
  then have st2: "stores m2 = stores m @ [(?c, 0), (?c, 3), (common v, 0), (common v, 1), (common v + 8, 0),
      (common v + 0xC, fst (load32 hw (common v + 4) (store32 hw (common v) 0 d0)) AND 0x08000020),
      (common v + 8, 1), (common v + 0xC, fst (load32 hw (common v + 4) (store32 hw (common v) 1 d1)) AND 1), (?c, 0xB)]"
    using traced_read [OF 1(2)] traced_wait [OF 1(1)] by simp
  have sv: "s = fst (load32 hw ?c (store32 hw ?c 0xB (fst (hardware ?m1))))"
    using traced_read [OF 1(2)] by (simp add: hardware_write)
  note wit = exI [of _ d0] exI [of _ d1] exI [of _ "fst (hardware ?m1)"]
  from 1(4) show ?thesis
  proof (elim disjE conjE exE)
    assume "s AND VIRTIO_STATUS_FEATURES_OK = 0" "v' = v"
      "m' = m_puts (str ''[ERROR] VirtIO-Net: Feature negotiation failed'' @ crlf) m2"
    then show ?thesis using st2 sv quiet_trans [OF 1(3) quiet_puts] by (intro wit) (simp add: Let_def)
  next
    fix k' assume ok: "s AND VIRTIO_STATUS_FEATURES_OK \<noteq> 0" and m': "m' = (announce_live ?hw v 0xF m2)\<lparr>kernel := k'\<rparr>"
      and su: "virtio_net_setup_queues (at_rx_buffers l) (at_rx_ring_mem l) (at_tx_ring_mem l) v
            (kernel (announce_live ?hw v 0xF m2)) = Some (v', k')"
    have "quiet m (announce_live ?hw v 0xF m2)" by (rule quiet_trans [OF 1(3) quiet_announce])
    then have "ring_sizes_ok (kernel (announce_live ?hw v 0xF m2)) = ring_sizes_ok (kernel m)"
      by (auto simp: quiet_def ring_sizes_ok_def)
    then have "ring_sizes_ok (kernel m) \<Longrightarrow> v' = v\<lparr>rx_vq := True, tx_vq := True\<rparr>"
      using setup_queues_ok [of "kernel (announce_live ?hw v 0xF m2)" "at_rx_buffers l" "at_rx_ring_mem l" "at_tx_ring_mem l" v] su
      by auto
    then show ?thesis using ok m' st2 sv by (intro wit) (simp add: Let_def announce_stores)
  qed
qed

lemma quiet_ring_sizes: "quiet m m' \<Longrightarrow> ring_sizes_ok (kernel m') = ring_sizes_ok (kernel m)"
  by (auto simp: quiet_def ring_sizes_ok_def)

lemma net_init_total:
  assumes w: "wait_zero32 hw (common v + 0x14) (mmio_write32 hw (common v + 0x14) 0 (m_puts hello m)) = Some m1"
    and sizes: "ring_sizes_ok (kernel m)"
  shows "\<exists>v' m'. virtio_net_init hw l v m = Some (v', m')"
proof -
  obtain s m2 where s: "mmio_read32 hw (common v + 0x14) (mmio_write32 hw (common v + 0x14)
      (VIRTIO_STATUS_ACKNOWLEDGE OR VIRTIO_STATUS_DRIVER OR VIRTIO_STATUS_FEATURES_OK)
      (negotiate hw (common v) (mmio_write32 hw (common v + 0x14) (VIRTIO_STATUS_ACKNOWLEDGE OR VIRTIO_STATUS_DRIVER) m1))) = (s, m2)"
    by fastforce
  have "quiet m m1" by (rule quiet_trans [OF quiet_trans [OF quiet_puts quiet_write] wait_zero32_quiet [OF w]])
  then have "quiet m (announce_live hw v st m2)" for st
    by (rule quiet_trans [OF _ quiet_trans [OF quiet_trans [OF quiet_trans [OF quiet_trans [OF quiet_write negotiate_quiet]
        quiet_write] quiet_read [OF s]] quiet_announce]])
  then have "ring_sizes_ok (kernel (announce_live hw v st m2))" for st
    using sizes quiet_ring_sizes by blast
  then have "\<exists>v' k'. virtio_net_setup_queues (at_rx_buffers l) (at_rx_ring_mem l) (at_tx_ring_mem l) v
      (kernel (announce_live hw v (VIRTIO_STATUS_ACKNOWLEDGE OR VIRTIO_STATUS_DRIVER OR VIRTIO_STATUS_FEATURES_OK
          OR VIRTIO_STATUS_DRIVER_OK) m2)) = Some (v', k')"
    using setup_queues_ok by blast
  then show ?thesis using w s
    by (cases "s AND VIRTIO_STATUS_FEATURES_OK = 0")
      (auto simp: virtio_net_init_def Let_def hello_def [symmetric] or.assoc)
qed

theorem handshake_accepts_only_known_features_witness:
  "\<exists>v' m'. virtio_net_init (traced mem_hw) sample_layout sample_vdev (sample_machine (\<lambda>_. 0x08000021, [])) = Some (v', m')
     \<and> tx_vq v' \<and> last (stores m') = (0x80000014, 0xF)"
proof -
  let ?m = "sample_machine (\<lambda>_. 0x08000021, []) :: ((addr \<Rightarrow> u32) \<times> (addr \<times> u32) list) machine"
  let ?mw = "mmio_write32 (traced mem_hw) (common sample_vdev + 0x14) 0 (m_puts hello ?m)"
  have "mmio_read32 (traced mem_hw) (common sample_vdev + 0x14) ?mw = (0, ?mw)"
    by (simp add: mmio_read32_def traced_def mem_hw_def mmio_write32_def m_puts_def m_print_def sample_machine_def)
  then have w: "wait_zero32 (traced mem_hw) (common sample_vdev + 0x14) ?mw = Some ?mw"
    by (simp add: wait_zero32.simps [of "traced mem_hw" "common sample_vdev + 0x14"])
  have rs: "ring_sizes_ok (kernel ?m)" using sample_boot_start by (simp add: net_start_def sample_machine_def)
  from net_init_total [OF w rs, of sample_layout] obtain v' m' where
    r: "virtio_net_init (traced mem_hw) sample_layout sample_vdev ?m = Some (v', m')" by blast
  have "fst (load32 mem_hw a (store32 mem_hw a 0xB d)) AND VIRTIO_STATUS_FEATURES_OK \<noteq> 0" for a d
    by (simp add: mem_hw_def VIRTIO_STATUS_FEATURES_OK_def)
  then have "tx_vq v' \<and> last (stores m') = (0x80000014, 0xF)"
    using handshake_accepts_only_known_features [OF r] rs by (auto simp: Let_def sample_vdev_def)
  with r show ?thesis by blast
qed

end
