(* ===== verification/Xhci.thy ===== *)
theory Xhci
  imports Pci
begin

text \<open>
  Taking over and resetting the USB controller (src/drivers/usb/xhci.c). The three waits count a
  budget of a million polls down; the walk over the extended capabilities has no such bound.
\<close>

unbundle bit_operations_syntax

section \<open>Operations\<close>

definition XHCI_EXT_CAP_LEGACY :: u8 where "XHCI_EXT_CAP_LEGACY = 1"
definition USB_BIOS_OWNED :: u32 where "USB_BIOS_OWNED = push_bit 16 1"
definition USB_OS_OWNED :: u32 where "USB_OS_OWNED = push_bit 24 1"
definition XHCI_CAP_HCCPARAMS1 :: addr where "XHCI_CAP_HCCPARAMS1 = 0x10"
definition XHCI_OP_USBCMD :: addr where "XHCI_OP_USBCMD = 0x00"
definition XHCI_OP_USBSTS :: addr where "XHCI_OP_USBSTS = 0x04"
definition POLLS :: nat where "POLLS = 1000000"

text \<open>
  \<open>while ((mmio_read32(a) & mask) && --timeout > 0)\<close>: the result is the timeout left, 0 when it
  ran out.
\<close>

primrec poll_clear :: "'d hw \<Rightarrow> addr \<Rightarrow> u32 \<Rightarrow> nat \<Rightarrow> 'd machine \<Rightarrow> nat \<times> 'd machine" where
  "poll_clear hw a msk 0 m = (0, m)"
| "poll_clear hw a msk (Suc t) m =
     (let (v, m) = mmio_read32 hw a m in if v AND msk \<noteq> 0 then poll_clear hw a msk t m else (Suc t, m))"

definition claim_legacy :: "'d hw \<Rightarrow> addr \<Rightarrow> 'd machine \<Rightarrow> 'd machine" where
  "claim_legacy hw ext_ptr m =
     (let m = m_puts (str ''[USB] Legacy Support found. Requesting ownership...'' @ crlf) m;
          (ctrl, m) = mmio_read32 hw (ext_ptr + 4) m;
          m = mmio_write32 hw (ext_ptr + 4) (ctrl OR USB_OS_OWNED) m;
          (timeout, m) = poll_clear hw (ext_ptr + 4) USB_BIOS_OWNED POLLS m
      in if timeout = 0 then m_puts (str ''[WARN] USB: BIOS ownership release timed out!'' @ crlf) m
         else m_puts (str ''[OK] USB: BIOS ownership released.'' @ crlf) m)"

partial_function (option) ext_cap_walk :: "'d hw \<Rightarrow> addr \<Rightarrow> addr \<Rightarrow> 'd machine \<Rightarrow> 'd machine option" where
  "ext_cap_walk hw base ext_ptr m =
     (if ext_ptr \<noteq> 0
      then
        let (header, m) = mmio_read32 hw ext_ptr m;
            cap_id = ucast (header AND 0xFF) :: u8;
            next_ptr = ucast (drop_bit 8 header AND 0xFF) :: u8
        in if cap_id = XHCI_EXT_CAP_LEGACY then Some (claim_legacy hw ext_ptr m)
           else if next_ptr = 0 then Some m
           else ext_cap_walk hw base (base + push_bit 2 (ucast next_ptr)) m
      else Some m)"

definition xhci_claim_ownership :: "'d hw \<Rightarrow> addr \<Rightarrow> 'd machine \<Rightarrow> 'd machine option" where
  "xhci_claim_ownership hw base m =
     (let (hcc, m) = mmio_read32 hw (base + XHCI_CAP_HCCPARAMS1) m;
          offset = push_bit 2 (drop_bit 16 hcc)
      in if offset = 0 then Some m else ext_cap_walk hw base (base + ucast offset) m)"

definition xhci_reset :: "'d hw \<Rightarrow> addr \<Rightarrow> 'd machine \<Rightarrow> 'd machine" where
  "xhci_reset hw op_base m =
     (let m = m_puts (str ''[INFO] USB: Resetting Controller...'' @ crlf) m;
          (usb_cmd, m) = mmio_read32 hw (op_base + XHCI_OP_USBCMD) m;
          usb_cmd = usb_cmd AND NOT 1;
          m = mmio_write32 hw (op_base + XHCI_OP_USBCMD) usb_cmd m;
          (c, m) = mmio_read32 hw (op_base + XHCI_OP_USBCMD) m;
          m = mmio_write32 hw (op_base + XHCI_OP_USBCMD) (c OR push_bit 1 1) m;
          (reset_timeout, m) = poll_clear hw (op_base + XHCI_OP_USBCMD) (push_bit 1 1) POLLS m;
          (cnr_timeout, m) = poll_clear hw (op_base + XHCI_OP_USBSTS) (push_bit 11 1) POLLS m
      in if reset_timeout = 0 \<or> cnr_timeout = 0
         then m_puts (str ''[ERROR] USB: xHCI Controller Reset Timeout!'' @ crlf) m
         else m_puts (str ''[OK] USB: xHCI Host Controller is READY.'' @ crlf) m)"

definition xhci_bar :: "'d hw \<Rightarrow> u32 \<Rightarrow> u32 \<Rightarrow> u32 \<Rightarrow> 'd machine \<Rightarrow> u64 \<times> 'd machine" where
  "xhci_bar hw b d fn m =
     (let (bar_low, m) = pcie_read_config hw b d fn 0x10 m;
          phys_addr = ucast (bar_low AND NOT 0xF)
      in if bar_low AND 0x6 = 0x4
         then (let (bar_high, m) = pcie_read_config hw b d fn 0x14 m;
                   phys_addr = phys_addr OR push_bit 32 (ucast bar_high);
                   m = m_puts (str ''[INFO] USB: 64-bit BAR0 Address detected: '') m;
                   m = m_print (uart_put_hex phys_addr) m
               in (phys_addr, m_puts crlf m))
         else (phys_addr, m))"

definition xhci_init :: "'d hw \<Rightarrow> layout \<Rightarrow> u32 \<Rightarrow> u32 \<Rightarrow> u32 \<Rightarrow> 'd machine \<Rightarrow> 'd machine option" where
  "xhci_init hw l b d fn m =
     do { let m = m_puts (str ''[INFO] USB: Initializing xHCI Controller...'' @ crlf) m;
          let (phys_addr, m) = xhci_bar hw b d fn m;
          (base, m) \<leftarrow> m_ioremap l phys_addr 0x4000 m;
          if base = 0 then Some (m_puts (str ''[ERROR] USB: ioremap failed for xHCI.'' @ crlf) m)
          else do {
            let (cap_reg, m) = mmio_read32 hw base m;
            let version = (ucast (drop_bit 16 cap_reg) :: u16);
            let m = m_puts (str ''[INFO] USB: xHCI Version: '') m;
            let m = m_print (uart_put_hex (ucast version)) m;
            let m = m_puts crlf m;
            m \<leftarrow> xhci_claim_ownership hw base m;
            let (w, m) = mmio_read32 hw base m;
            let cap_len = (ucast (w AND 0xFF) :: u8);
            let op_base = base + ucast cap_len;
            Some (xhci_reset hw op_base m) } }"

section \<open>Initialisation keeps the kernel\<close>

lemma quiet_poll: "poll_clear hw a msk t m = (r, m') \<Longrightarrow> quiet m m'"
proof (induction t arbitrary: m)
  case (Suc t)
  obtain v m1 where rd: "mmio_read32 hw a m = (v, m1)" by fastforce
  then show ?case using Suc quiet_trans [OF quiet_read [OF rd]] quiet_read [OF rd] by (auto split: if_splits)
qed (simp add: quiet_refl)

lemma quiet_claim: "quiet m (claim_legacy hw e m)"
proof -
  let ?m0 = "m_puts (str ''[USB] Legacy Support found. Requesting ownership...'' @ crlf) m"
  obtain c m1 where 1: "mmio_read32 hw (e + 4) ?m0 = (c, m1)" by fastforce
  obtain t m2 where 2: "poll_clear hw (e + 4) USB_BIOS_OWNED POLLS (mmio_write32 hw (e + 4) (c OR USB_OS_OWNED) m1) = (t, m2)"
    by fastforce
  have "quiet m m2"
    by (rule quiet_trans [OF quiet_trans [OF quiet_trans [OF quiet_puts quiet_read [OF 1]] quiet_write] quiet_poll [OF 2]])
  then show ?thesis unfolding claim_legacy_def Let_def 1 prod.case 2 by (simp add: quiet_trans [OF _ quiet_puts])
qed

lemma quiet_ext_walk: "ext_cap_walk hw base e m = Some m' \<Longrightarrow> quiet m m'"
proof (induction rule: ext_cap_walk.raw_induct [rotated 1, consumes 1])
  case (1 walk hw base e m m')
  show ?case
  proof (cases "e = 0")
    case True
    then show ?thesis using 1(2) by (simp add: quiet_refl)
  next
    case False
    obtain h m1 where r: "mmio_read32 hw e m = (h, m1)" by fastforce
    show ?thesis using 1(2) False r 1(1) quiet_trans [OF quiet_read [OF r]] quiet_read [OF r] quiet_claim [of m1 hw e]
      by (auto simp: Let_def split: if_splits)
  qed
qed

lemma quiet_ownership: "xhci_claim_ownership hw base m = Some m' \<Longrightarrow> quiet m m'"
proof -
  assume r: "xhci_claim_ownership hw base m = Some m'"
  obtain h m1 where 1: "mmio_read32 hw (base + XHCI_CAP_HCCPARAMS1) m = (h, m1)" by fastforce
  then show ?thesis using r quiet_read [OF 1] quiet_trans [OF quiet_read [OF 1] quiet_ext_walk]
    by (auto simp: xhci_claim_ownership_def Let_def split: if_splits)
qed

lemma quiet_reset: "quiet m (xhci_reset hw op m)"
proof -
  let ?m0 = "m_puts (str ''[INFO] USB: Resetting Controller...'' @ crlf) m"
  obtain c m1 where 1: "mmio_read32 hw (op + XHCI_OP_USBCMD) ?m0 = (c, m1)" by fastforce
  obtain c2 m2 where 2: "mmio_read32 hw (op + XHCI_OP_USBCMD) (mmio_write32 hw (op + XHCI_OP_USBCMD) (c AND NOT 1) m1) = (c2, m2)"
    by fastforce
  obtain t m3 where 3: "poll_clear hw (op + XHCI_OP_USBCMD) (push_bit 1 1) POLLS
      (mmio_write32 hw (op + XHCI_OP_USBCMD) (c2 OR push_bit 1 1) m2) = (t, m3)" by fastforce
  obtain t2 m4 where 4: "poll_clear hw (op + XHCI_OP_USBSTS) (push_bit 11 1) POLLS m3 = (t2, m4)" by fastforce
  have "quiet m m2"
    by (rule quiet_trans [OF quiet_trans [OF quiet_trans [OF quiet_puts quiet_read [OF 1]] quiet_write] quiet_read [OF 2]])
  then have "quiet m m4"
    by (rule quiet_trans [OF _ quiet_trans [OF quiet_trans [OF quiet_write quiet_poll [OF 3]] quiet_poll [OF 4]]])
  then show ?thesis unfolding xhci_reset_def Let_def 1 prod.case 2 3 4 by (simp add: quiet_trans [OF _ quiet_puts])
qed

lemma quiet_xhci_bar: "xhci_bar hw b d fn m = (a, m') \<Longrightarrow> quiet m m'"
proof -
  assume r: "xhci_bar hw b d fn m = (a, m')"
  obtain lo m1 where 1: "pcie_read_config hw b d fn 0x10 m = (lo, m1)" by fastforce
  obtain hi m2 where 2: "pcie_read_config hw b d fn 0x14 m1 = (hi, m2)" by fastforce
  have "quiet m (m_puts t1 (m_print f (m_puts t2 m2)))" for t1 f t2
    using quiet_trans [OF quiet_config_read [OF 1] quiet_config_read [OF 2]]
    by (intro quiet_trans [OF _ quiet_puts] quiet_trans [OF _ quiet_print])
  then show "quiet m m'" using r 1 2 quiet_config_read [OF 1] by (auto simp: xhci_bar_def Let_def split: if_splits)
qed

lemma xhci_init_step:
  assumes r: "xhci_init hw l b d fn m = Some m'"
  shows "boot_step l m m'"
proof -
  let ?m0 = "m_puts (str ''[INFO] USB: Initializing xHCI Controller...'' @ crlf) m"
  obtain a m1 where 1: "xhci_bar hw b d fn ?m0 = (a, m1)" by fastforce
  obtain base m2 where 2: "m_ioremap l a 0x4000 m1 = Some (base, m2)"
    using r 1 by (auto simp: xhci_init_def Let_def split: bind_splits)
  have "quiet m m1" by (rule quiet_trans [OF quiet_puts quiet_xhci_bar [OF 1]])
  then have s2: "boot_step l m m2" using boot_step_trans [OF quiet_boot_step m_ioremap_step [OF _ 2]] by simp
  show ?thesis
  proof (cases "base = 0")
    case True
    then show ?thesis using r 1 2 boot_step_trans [OF s2 quiet_boot_step [OF quiet_puts]] by (auto simp: xhci_init_def Let_def)
  next
    case False
    obtain c m3 where 3: "mmio_read32 hw base m2 = (c, m3)" by fastforce
    let ?m4 = "m_puts crlf (m_print (uart_put_hex (ucast (ucast (drop_bit 16 c) :: u16))) (m_puts (str ''[INFO] USB: xHCI Version: '') m3))"
    obtain m5 where 5: "xhci_claim_ownership hw base ?m4 = Some m5"
      using r 1 2 3 False by (auto simp: xhci_init_def Let_def split: bind_splits)
    obtain w m6 where 6: "mmio_read32 hw base m5 = (w, m6)" by fastforce
    have m': "m' = xhci_reset hw (base + ucast (ucast (w AND 0xFF) :: u8)) m6"
      using r 1 2 3 False 5 6 by (auto simp: xhci_init_def Let_def)
    have "quiet m2 ?m4" using quiet_read [OF 3] by (intro quiet_trans [OF _ quiet_puts] quiet_trans [OF _ quiet_print])
    then have "quiet m2 m'" unfolding m'
      by (rule quiet_trans [OF _ quiet_trans [OF quiet_trans [OF quiet_ownership [OF 5] quiet_read [OF 6]] quiet_reset]])
    then show ?thesis using boot_step_trans [OF s2 quiet_boot_step] by blast
  qed
qed

section \<open>The waits\<close>

text \<open>The value the hardware returns to the n-th of a series of loads from one register.\<close>

primrec after_reads :: "'d hw \<Rightarrow> addr \<Rightarrow> nat \<Rightarrow> 'd machine \<Rightarrow> 'd machine" where
  "after_reads hw a 0 m = m"
| "after_reads hw a (Suc n) m = after_reads hw a n (snd (mmio_read32 hw a m))"

definition nth_read :: "'d hw \<Rightarrow> addr \<Rightarrow> nat \<Rightarrow> 'd machine \<Rightarrow> u32" where
  "nth_read hw a n m = fst (mmio_read32 hw a (after_reads hw a n m))"

lemma nth_read_simps:
  "nth_read hw a 0 m = fst (mmio_read32 hw a m)"
  "nth_read hw a (Suc n) m = nth_read hw a n (snd (mmio_read32 hw a m))"
  by (simp_all add: nth_read_def)

lemma all_less_Suc0: "(\<forall>i < Suc n. P i) \<longleftrightarrow> P 0 \<and> (\<forall>i < n. P (Suc i))"
  using less_Suc_eq_0_disj by auto

lemma poll_clear_spec:
  "fst (poll_clear hw a msk n m) \<le> n
   \<and> (fst (poll_clear hw a msk n m) = 0 \<longleftrightarrow> (\<forall>i < n. nth_read hw a i m AND msk \<noteq> 0))
   \<and> (\<forall>i < n - fst (poll_clear hw a msk n m). nth_read hw a i m AND msk \<noteq> 0)
   \<and> (fst (poll_clear hw a msk n m) \<noteq> 0 \<longrightarrow> nth_read hw a (n - fst (poll_clear hw a msk n m)) m AND msk = 0)"
proof (induction n arbitrary: m)
  case (Suc n)
  obtain v m1 where r: "mmio_read32 hw a m = (v, m1)" by fastforce
  show ?case
  proof (cases "v AND msk = 0")
    case True
    then show ?thesis using r by (auto simp: nth_read_simps)
  next
    case False
    have le: "fst (poll_clear hw a msk n m1) \<le> n" using Suc [of m1] by blast
    then have "Suc n - fst (poll_clear hw a msk n m1) = Suc (n - fst (poll_clear hw a msk n m1))" by simp
    then show ?thesis using r False Suc [of m1] by (simp add: all_less_Suc0 nth_read_simps) blast
  qed
qed simp

section \<open>The walk over the extended capabilities\<close>

text \<open>A controller whose registers only answer: the walk follows the pointers they hold.\<close>

definition read_only :: "'d hw \<Rightarrow> (addr \<Rightarrow> u32) \<Rightarrow> bool" where
  "read_only hw rom \<longleftrightarrow> (\<forall>a d. load32 hw a d = (rom a, d))"

definition ext_next :: "(addr \<Rightarrow> u32) \<Rightarrow> addr \<Rightarrow> addr \<Rightarrow> addr" where
  "ext_next rom base e = base + push_bit 2 (ucast (ucast (drop_bit 8 (rom e) AND 0xFF) :: u8))"

definition ext_stops :: "(addr \<Rightarrow> u32) \<Rightarrow> addr \<Rightarrow> bool" where
  "ext_stops rom e \<longleftrightarrow> e = 0 \<or> ucast (rom e AND 0xFF) = XHCI_EXT_CAP_LEGACY
     \<or> ucast (drop_bit 8 (rom e) AND 0xFF) = (0 :: u8)"

lemma ext_walk_step:
  assumes "read_only hw rom"
  shows "ext_cap_walk hw base e m \<noteq> None \<longleftrightarrow> ext_stops rom e \<or> ext_cap_walk hw base (ext_next rom base e) m \<noteq> None"
proof -
  have r: "mmio_read32 hw a m = (rom a, m)" for a using assms by (simp add: mmio_read32_def read_only_def)
  show ?thesis
    unfolding ext_cap_walk.simps [of hw base e] r prod.case Let_def ext_stops_def ext_next_def
    by simp
qed

lemma ext_walk_returns:
  assumes ro: "read_only hw rom"
  shows "ext_stops rom ((ext_next rom base ^^ n) e) \<Longrightarrow> ext_cap_walk hw base e m \<noteq> None"
proof (induction n arbitrary: e)
  case 0
  then have "ext_stops rom e" by simp
  then show ?case using ext_walk_step [OF ro] by blast
next
  case (Suc n)
  then have "ext_cap_walk hw base (ext_next rom base e) m \<noteq> None" by (simp add: funpow_swap1)
  then show ?case using ext_walk_step [OF ro] by blast
qed

lemma ext_walk_stops:
  "ext_cap_walk hw base e m = Some m' \<Longrightarrow> read_only hw rom \<longrightarrow> (\<exists>n. ext_stops rom ((ext_next rom base ^^ n) e))"
proof (induction rule: ext_cap_walk.raw_induct [rotated 1, consumes 1])
  case (1 walk hw base e m m')
  show ?case
  proof
    assume ro: "read_only hw rom"
    then have r: "mmio_read32 hw e m = (rom e, m)" by (simp add: mmio_read32_def read_only_def)
    show "\<exists>n. ext_stops rom ((ext_next rom base ^^ n) e)"
    proof (cases "ext_stops rom e")
      case True
      then show ?thesis by (intro exI [of _ 0]) simp
    next
      case False
      then have "walk hw base (ext_next rom base e) m = Some m'"
        using 1(2) r by (auto simp: ext_stops_def ext_next_def Let_def split: if_splits)
      then obtain n where "ext_stops rom ((ext_next rom base ^^ n) (ext_next rom base e))" using 1(1) ro by blast
      then show ?thesis by (intro exI [of _ "Suc n"]) (simp add: funpow_swap1)
    qed
  qed
qed

section \<open>Properties\<close>

text \<open>
  Every wait of the controller's set-up ends: with any hardware, it makes at most its budget
  of loads, it gives up exactly when every one of them showed the bit set, and otherwise it stops
  at the first load that shows it clear.
\<close>

lemma waits_end_within_budget:
  "let left = fst (poll_clear hw a msk POLLS m) in
     left \<le> POLLS
     \<and> (left = 0 \<longleftrightarrow> (\<forall>i < POLLS. nth_read hw a i m AND msk \<noteq> 0))
     \<and> (\<forall>i < POLLS - left. nth_read hw a i m AND msk \<noteq> 0)
     \<and> (left \<noteq> 0 \<longrightarrow> nth_read hw a (POLLS - left) m AND msk = 0)"
  using poll_clear_spec [of hw a msk POLLS m] by (simp add: Let_def)

text \<open>Hardware that answers every load with the word of a table.\<close>

definition rom_hw :: "(addr \<Rightarrow> u32) \<Rightarrow> unit hw" where
  "rom_hw rom = \<lparr>load32 = \<lambda>a d. (rom a, d), store32 = \<lambda>a v d. d, load64 = \<lambda>a d. (0, d),
     load8 = \<lambda>a d. (0, d), store8 = \<lambda>a v d. d\<rparr>"



end
