(* ===== verification/Pcie.thy ===== *)
theory Pcie
  imports Virtio_Pci Xhci
begin

text \<open>
  The scan of the bus (src/drivers/pcie.c): the table of drivers, the assignment of addresses to
  the devices' regions, and the two entry points.
\<close>

unbundle bit_operations_syntax

section \<open>The driver table\<close>

definition PCI_CLASS_CODE_XHCI :: u32 where "PCI_CLASS_CODE_XHCI = 0x0C0330"

record 'd pci_driver =
  vendor_id :: u16
  device_id :: u16
  class_code :: u32
  drv_init :: "(u32 \<Rightarrow> u32 \<Rightarrow> u32 \<Rightarrow> 'd machine \<Rightarrow> 'd machine option) option"
  drv_name :: bytes

definition driver_registry :: "'d hw \<Rightarrow> layout \<Rightarrow> virtio_pci_device \<Rightarrow> 'd pci_driver list" where
  "driver_registry hw l fresh =
     [\<lparr>vendor_id = 0x1AF4, device_id = 0x1000, class_code = 0x0, drv_init = Some (virtio_pci_init hw l fresh),
       drv_name = str ''VirtIO Net Controller''\<rparr>,
      \<lparr>vendor_id = 0x0, device_id = 0x0, class_code = PCI_CLASS_CODE_XHCI, drv_init = Some (xhci_init hw l),
       drv_name = str ''Generic xHCI USB 3.0''\<rparr>,
      \<lparr>vendor_id = 0x1B36, device_id = 0x0001, class_code = 0x0, drv_init = None,
       drv_name = str ''QEMU PCI Bridge''\<rparr>]"

definition driver_matches :: "u16 \<Rightarrow> u32 \<Rightarrow> 'd pci_driver \<Rightarrow> bool" where
  "driver_matches vendor cls drv \<longleftrightarrow>
     (vendor_id drv \<noteq> 0 \<and> vendor = vendor_id drv) \<or> (class_code drv \<noteq> 0 \<and> cls = class_code drv)"

section \<open>Operations\<close>

definition assign_bar :: "'d hw \<Rightarrow> u32 \<Rightarrow> u32 \<Rightarrow> u32 \<Rightarrow> nat \<Rightarrow> 'd machine \<Rightarrow> 'd machine" where
  "assign_bar hw b d fn bar_idx m =
     (let bar_offset = 0x10 + of_nat bar_idx * 4;
          (bar_val, m) = pcie_read_config hw b d fn bar_offset m
      in if bar_val \<noteq> 0 \<and> bar_val AND NOT 0xF = 0
         then
           let a = next_pci_mem_addr m;
               m = pcie_write_config hw b d fn bar_offset a m;
               m = m_puts (str ''    [PCI] Assigned '') m;
               m = m_print (uart_put_hex (ucast a)) m;
               m = m_puts (str '' to BAR '') m;
               m = m_print (uart_put_int (of_nat bar_idx)) m;
               m = m_puts crlf m
           in m\<lparr>next_pci_mem_addr := next_pci_mem_addr m + 0x100000\<rparr>
         else m)"

definition attach_driver ::
  "'d hw \<Rightarrow> 'd pci_driver \<Rightarrow> u32 \<Rightarrow> u32 \<Rightarrow> u32 \<Rightarrow> 'd machine \<Rightarrow> 'd machine option" where
  "attach_driver hw drv b d fn m =
     (let m = fold (assign_bar hw b d fn) [0..<6] m;
          (c, m) = pcie_read_config hw b d fn 0x04 m;
          cmd = c AND 0xFFFF;
          m = pcie_write_config hw b d fn 0x04 (cmd OR 0x0006) m;
          m = m_puts (str ''    -> Matching Driver: '') m;
          m = m_puts (drv_name drv) m;
          m = m_puts crlf m
      in case drv_init drv of None \<Rightarrow> Some m | Some init \<Rightarrow> init b d fn m)"

primrec try_drivers ::
  "'d hw \<Rightarrow> u16 \<Rightarrow> u32 \<Rightarrow> 'd pci_driver list \<Rightarrow> u32 \<Rightarrow> u32 \<Rightarrow> u32 \<Rightarrow> 'd machine \<Rightarrow> 'd machine option" where
  "try_drivers hw vendor cls [] b d fn m = Some m"
| "try_drivers hw vendor cls (drv # drvs) b d fn m =
     (if driver_matches vendor cls drv then attach_driver hw drv b d fn m
      else try_drivers hw vendor cls drvs b d fn m)"

definition pcie_probe_device ::
  "'d hw \<Rightarrow> layout \<Rightarrow> virtio_pci_device \<Rightarrow> u32 \<Rightarrow> u32 \<Rightarrow> u32 \<Rightarrow> 'd machine \<Rightarrow> 'd machine option" where
  "pcie_probe_device hw l fresh b d fn m =
     (let (id_reg, m) = pcie_read_config hw b d fn 0x00 m;
          vendor = ucast (id_reg AND 0xFFFF);
          (class_reg, m) = pcie_read_config hw b d fn 0x08 m;
          cls = drop_bit 8 class_reg AND 0xFFFFFF;
          m = m\<lparr>pci_devices := pci_devices m + 1\<rparr>
      in try_drivers hw vendor cls (driver_registry hw l fresh) b d fn m)"

primrec scan_devices ::
  "'d hw \<Rightarrow> layout \<Rightarrow> virtio_pci_device \<Rightarrow> u32 list \<Rightarrow> 'd machine \<Rightarrow> 'd machine option" where
  "scan_devices hw l fresh [] m = Some m"
| "scan_devices hw l fresh (d # ds) m =
     (let (w, m) = pcie_read_config hw 0 d 0 0x00 m;
          vendor = w AND 0xFFFF
      in if vendor = 0xFFFF \<or> vendor = 0x0000 then scan_devices hw l fresh ds m
         else do {
           let m = pcie_dump_header hw 0 d 0 m;
           m \<leftarrow> pcie_probe_device hw l fresh 0 d 0 m;
           scan_devices hw l fresh ds m })"

definition pcie_init :: "'d hw \<Rightarrow> layout \<Rightarrow> virtio_pci_device \<Rightarrow> 'd machine \<Rightarrow> 'd machine option" where
  "pcie_init hw l fresh m =
     do { let m = m_puts (crlf @ str ''[INFO] PCIe: Initializing Aether WebOS PCIe Subsystem...'' @ crlf) m;
          let m = m\<lparr>pci_devices := 0\<rparr>;
          m \<leftarrow> scan_devices hw l fresh (map of_nat [0..<32]) m;
          Some (m_puts (str ''[OK] PCIe Enumeration Complete.'' @ crlf) m) }"

definition get_total_pci_devices :: "'d machine \<Rightarrow> u32" where
  "get_total_pci_devices m = pci_devices m"

section \<open>What the scan relies on and what it keeps\<close>

text \<open>
  The interface between the scan and the drivers: an entry point of the table keeps an invariant
  of the machine, which register access and printing keep as well, and leaves the variables of
  the scan alone.
\<close>

locale pci_drivers =
  fixes drivers :: "'d pci_driver list" and inv :: "'d machine \<Rightarrow> bool"
  assumes quiet_inv: "\<And>m m'. quiet m m' \<Longrightarrow> inv m \<Longrightarrow> inv m'"
    and window_inv: "\<And>m a. inv m \<Longrightarrow> inv (m\<lparr>next_pci_mem_addr := a\<rparr>)"
    and count_inv: "\<And>m n. inv m \<Longrightarrow> inv (m\<lparr>pci_devices := n\<rparr>)"
    and init_inv: "\<And>drv f b d fn m m'. drv \<in> set drivers \<Longrightarrow> drv_init drv = Some f \<Longrightarrow> f b d fn m = Some m' \<Longrightarrow>
      inv m \<Longrightarrow> inv m' \<and> next_pci_mem_addr m' = next_pci_mem_addr m \<and> pci_devices m' = pci_devices m"
begin

text \<open>How many devices a step counts and how many windows of 1 MB it may hand out.\<close>

definition hands_out :: "nat \<Rightarrow> nat \<Rightarrow> 'd machine \<Rightarrow> 'd machine \<Rightarrow> bool" where
  "hands_out c n m m' \<longleftrightarrow> inv m' \<and> (\<exists>j \<le> c. pci_devices m' = pci_devices m + of_nat j)
     \<and> (\<exists>k \<le> n. next_pci_mem_addr m' = next_pci_mem_addr m + of_nat k * 0x100000)"

lemma hands_outI: "inv m' \<Longrightarrow> j \<le> c \<Longrightarrow> pci_devices m' = pci_devices m + of_nat j \<Longrightarrow> k \<le> n \<Longrightarrow>
    next_pci_mem_addr m' = next_pci_mem_addr m + of_nat k * 0x100000 \<Longrightarrow> hands_out c n m m'"
  by (auto simp: hands_out_def)

lemma hands_out_inv: "hands_out c n m m' \<Longrightarrow> inv m'"
  by (simp add: hands_out_def)

lemma hands_out_trans:
  assumes "hands_out c n m m'" "hands_out c' n' m' m''"
  shows "hands_out (c + c') (n + n') m m''"
proof -
  obtain j k where 1: "j \<le> c" "pci_devices m' = pci_devices m + of_nat j" "k \<le> n"
    "next_pci_mem_addr m' = next_pci_mem_addr m + of_nat k * 0x100000"
    using assms(1) unfolding hands_out_def by (elim exE conjE) rule
  obtain j' k' where 2: "inv m''" "j' \<le> c'" "pci_devices m'' = pci_devices m' + of_nat j'" "k' \<le> n'"
    "next_pci_mem_addr m'' = next_pci_mem_addr m' + of_nat k' * 0x100000"
    using assms(2) unfolding hands_out_def by (elim exE conjE) rule
  show ?thesis
    by (rule hands_outI [where j = "j + j'" and k = "k + k'"]) (use 1 2 in \<open>simp_all add: distrib_right\<close>)
qed

lemma hands_out_more: "hands_out c n m m' \<Longrightarrow> c \<le> c' \<Longrightarrow> n \<le> n' \<Longrightarrow> hands_out c' n' m m'"
  using order_trans unfolding hands_out_def by meson

lemma hands_out_same: "inv m' \<Longrightarrow> next_pci_mem_addr m' = next_pci_mem_addr m \<Longrightarrow> pci_devices m' = pci_devices m \<Longrightarrow>
    hands_out 0 0 m m'"
  by (rule hands_outI [where j = 0 and k = 0]) simp_all

lemma hands_out_quiet: "quiet m m' \<Longrightarrow> inv m \<Longrightarrow> hands_out 0 0 m m'"
  using quiet_inv [of m m'] quiet_counters [of m m'] hands_out_same by blast

lemma hands_out_window: "inv m \<Longrightarrow> hands_out 0 1 m (m\<lparr>next_pci_mem_addr := next_pci_mem_addr m + 0x100000\<rparr>)"
  by (rule hands_outI [where j = 0 and k = 1]) (simp_all add: window_inv)

lemma assign_bar_hands_out:
  assumes inv: "inv m"
  shows "hands_out 0 1 m (assign_bar hw b d fn i m)"
proof -
  obtain v m1 where r: "pcie_read_config hw b d fn (0x10 + of_nat i * 4) m = (v, m1)" by fastforce
  note q1 = quiet_config_read [OF r]
  show ?thesis
  proof (cases "v \<noteq> 0 \<and> v AND NOT 0xF = 0")
    case True
    let ?a = "next_pci_mem_addr m1"
    let ?m2 = "m_puts crlf (m_print (uart_put_int (of_nat i)) (m_puts (str '' to BAR '') (m_print (uart_put_hex (ucast ?a))
        (m_puts (str ''    [PCI] Assigned '') (pcie_write_config hw b d fn (0x10 + of_nat i * 4) ?a m1)))))"
    have q2: "quiet m ?m2"
      by (intro quiet_trans [OF _ quiet_puts] quiet_trans [OF _ quiet_print]) (rule quiet_trans [OF q1 quiet_config_write])
    have "assign_bar hw b d fn i m = ?m2\<lparr>next_pci_mem_addr := next_pci_mem_addr ?m2 + 0x100000\<rparr>"
      using True r by (simp add: assign_bar_def Let_def)
    then show ?thesis
      using hands_out_trans [OF hands_out_quiet [OF q2 inv] hands_out_window [OF quiet_inv [OF q2 inv]]] by simp
  next
    case False
    then have "assign_bar hw b d fn i m = m1" using r by (auto simp: assign_bar_def Let_def)
    then show ?thesis using hands_out_more [OF hands_out_quiet [OF q1 inv]] by simp
  qed
qed

lemma assign_bars_hands_out: "inv m \<Longrightarrow> hands_out 0 (length xs) m (fold (assign_bar hw b d fn) xs m)"
proof (induction xs arbitrary: m)
  case (Cons x xs)
  have one: "hands_out 0 1 m (assign_bar hw b d fn x m)" by (rule assign_bar_hands_out [OF Cons.prems])
  then show ?case using hands_out_trans [OF one Cons.IH [OF hands_out_inv [OF one]]] by simp
qed (simp add: hands_out_same)

lemma attach_hands_out:
  assumes drv: "drv \<in> set drivers" and inv: "inv m" and r: "attach_driver hw drv b d fn m = Some m'"
  shows "hands_out 0 6 m m'"
proof -
  let ?m1 = "fold (assign_bar hw b d fn) [0..<6] m"
  have bars: "hands_out 0 6 m ?m1" using assign_bars_hands_out [OF inv, of "[0..<6]"] by simp
  obtain c m2 where c: "pcie_read_config hw b d fn 0x04 ?m1 = (c, m2)" by fastforce
  let ?m3 = "m_puts crlf (m_puts (drv_name drv) (m_puts (str ''    -> Matching Driver: '')
      (pcie_write_config hw b d fn 0x04 ((c AND 0xFFFF) OR 0x0006) m2)))"
  have "quiet ?m1 ?m3"
    by (intro quiet_trans [OF _ quiet_puts]) (rule quiet_trans [OF quiet_config_read [OF c] quiet_config_write])
  then have h3: "hands_out 0 6 m ?m3"
    using hands_out_trans [OF bars hands_out_quiet [OF _ hands_out_inv [OF bars]], of ?m3] by simp
  have m': "(case drv_init drv of None \<Rightarrow> Some ?m3 | Some init \<Rightarrow> init b d fn ?m3) = Some m'"
    using r c by (simp add: attach_driver_def Let_def)
  show ?thesis
  proof (cases "drv_init drv")
    case None
    then show ?thesis using m' h3 by simp
  next
    case (Some f)
    then have "hands_out 0 0 ?m3 m'"
      using init_inv [OF drv Some, of b d fn ?m3 m'] m' hands_out_inv [OF h3] hands_out_same by auto
    then show ?thesis using hands_out_trans [OF h3] by fastforce
  qed
qed

lemma try_drivers_hands_out:
  "set drvs \<subseteq> set drivers \<Longrightarrow> inv m \<Longrightarrow> try_drivers hw v c drvs b d fn m = Some m' \<Longrightarrow> hands_out 0 6 m m'"
  by (induction drvs) (auto split: if_splits intro: attach_hands_out hands_out_more [OF hands_out_same])

end

text \<open>The table of the kernel meets the interface: both drivers with an entry point keep the boot invariant.\<close>

abbreviation scan_inv :: "layout \<Rightarrow> virtio_pci_device \<Rightarrow> 'd machine \<Rightarrow> bool" where
  "scan_inv l fresh m \<equiv> \<not> tx_vq fresh \<and> boot_inv l m"

interpretation registry: pci_drivers "driver_registry hw l fresh" "scan_inv l fresh"
  for hw :: "'d hw" and l fresh
proof unfold_locales
  show "scan_inv l fresh m \<Longrightarrow> scan_inv l fresh (m\<lparr>next_pci_mem_addr := a\<rparr>)" for m :: "'d machine" and a
    by (simp add: boot_inv_def)
  show "scan_inv l fresh m \<Longrightarrow> scan_inv l fresh (m\<lparr>pci_devices := n\<rparr>)" for m :: "'d machine" and n
    by (simp add: boot_inv_def)
next
  fix drv f and b d fn :: u32 and m m' :: "'d machine"
  assume "drv \<in> set (driver_registry hw l fresh)" "drv_init drv = Some f" "f b d fn m = Some m'" "scan_inv l fresh m"
  then have "boot_step l m m'" "boot_inv l m" "\<not> tx_vq fresh"
    using virtio_pci_init_step [of hw l fresh b d fn m m'] xhci_init_step [of hw l b d fn m m']
    by (auto simp: driver_registry_def)
  then show "scan_inv l fresh m' \<and> next_pci_mem_addr m' = next_pci_mem_addr m \<and> pci_devices m' = pci_devices m"
    by (simp add: boot_step_def)
qed (simp add: quiet_boot_inv)

lemma pcie_probe_hands_out:
  assumes inv: "scan_inv l fresh m" and r: "pcie_probe_device hw l fresh b d fn m = Some m'"
  shows "registry.hands_out fresh l 1 6 m m'"
proof -
  obtain i m1 where 1: "pcie_read_config hw b d fn 0x00 m = (i, m1)" by fastforce
  obtain c m2 where 2: "pcie_read_config hw b d fn 0x08 m1 = (c, m2)" by fastforce
  let ?m3 = "m2\<lparr>pci_devices := pci_devices m2 + 1\<rparr>"
  have q: "quiet m m2" by (rule quiet_trans [OF quiet_config_read [OF 1] quiet_config_read [OF 2]])
  have h: "registry.hands_out fresh l 1 0 m ?m3"
    by (rule registry.hands_outI [where j = 1 and k = 0])
      (use quiet_counters [OF q] registry.quiet_inv [OF q inv] in \<open>simp_all add: boot_inv_def\<close>)
  have "registry.hands_out fresh l 0 6 ?m3 m'"
    by (rule registry.try_drivers_hands_out [OF subset_refl registry.hands_out_inv [OF h]])
      (use r 1 2 in \<open>simp add: pcie_probe_device_def Let_def\<close>)
  from registry.hands_out_trans [OF h this] show ?thesis by simp
qed

lemma scan_hands_out:
  "scan_inv l fresh m \<Longrightarrow> scan_devices hw l fresh ds m = Some m' \<Longrightarrow>
   registry.hands_out fresh l (length ds) (6 * length ds) m m'"
proof (induction ds arbitrary: m)
  case (Cons d ds)
  obtain w m1 where 1: "pcie_read_config hw 0 d 0 0x00 m = (w, m1)" by fastforce
  note q1 = quiet_config_read [OF 1]
  show ?case
  proof (cases "w AND 0xFFFF = 0xFFFF \<or> w AND 0xFFFF = 0x0000")
    case True
    then have "scan_devices hw l fresh ds m1 = Some m'" using Cons.prems(2) 1 by (auto simp: Let_def)
    from registry.hands_out_trans [OF registry.hands_out_quiet [OF q1 Cons.prems(1)]
        Cons.IH [OF registry.quiet_inv [OF q1 Cons.prems(1)] this]]
    show ?thesis by (rule registry.hands_out_more) simp_all
  next
    case False
    let ?m2 = "pcie_dump_header hw 0 d 0 m1"
    have q2: "quiet m ?m2" by (rule quiet_trans [OF q1 quiet_dump])
    obtain m3 where 3: "pcie_probe_device hw l fresh 0 d 0 ?m2 = Some m3" "scan_devices hw l fresh ds m3 = Some m'"
      using Cons.prems(2) 1 False by (auto simp: Let_def split: bind_splits)
    have h: "registry.hands_out fresh l 1 6 m m3"
      using registry.hands_out_trans [OF registry.hands_out_quiet [OF q2 Cons.prems(1)]
          pcie_probe_hands_out [OF registry.quiet_inv [OF q2 Cons.prems(1)] 3(1)]] by simp
    from registry.hands_out_trans [OF h Cons.IH [OF registry.hands_out_inv [OF h] 3(2)]]
    show ?thesis by (rule registry.hands_out_more) simp_all
  qed
next
  case Nil
  then have "m' = m" by simp
  show ?case unfolding \<open>m' = m\<close>
    by (rule registry.hands_out_more [OF registry.hands_out_same [OF Nil.prems(1)]]) simp_all
qed

lemma pcie_init_hands_out:
  assumes inv: "scan_inv l fresh m" and r: "pcie_init hw l fresh m = Some m'"
  shows "registry.hands_out fresh l 32 192 (m\<lparr>pci_devices := 0\<rparr>) m'"
proof -
  let ?m0 = "m_puts (crlf @ str ''[INFO] PCIe: Initializing Aether WebOS PCIe Subsystem...'' @ crlf) m"
  let ?m1 = "?m0\<lparr>pci_devices := 0\<rparr>"
  obtain m2 where 2: "scan_devices hw l fresh (map of_nat [0..<32]) ?m1 = Some m2"
    and m': "m' = m_puts (str ''[OK] PCIe Enumeration Complete.'' @ crlf) m2"
    using r by (auto simp: pcie_init_def Let_def split: bind_splits)
  have inv1: "scan_inv l fresh ?m1"
    using registry.count_inv [OF registry.quiet_inv [OF quiet_puts inv]] .
  have h0: "registry.hands_out fresh l 0 0 (m\<lparr>pci_devices := 0\<rparr>) ?m1"
    by (rule registry.hands_out_same [OF inv1]) simp_all
  have h: "registry.hands_out fresh l 32 192 ?m1 m2" using scan_hands_out [OF inv1 2] by simp
  have "registry.hands_out fresh l 0 0 m2 m'" unfolding m'
    by (rule registry.hands_out_quiet [OF quiet_puts registry.hands_out_inv [OF h]])
  from registry.hands_out_trans [OF registry.hands_out_trans [OF h0 h] this] show ?thesis by simp
qed

lemma hands_out_count:
  assumes "registry.hands_out fresh l 32 192 (m\<lparr>pci_devices := 0\<rparr>) m'"
  shows "pci_devices m' \<le> 32"
proof -
  obtain j where "j \<le> 32" "pci_devices m' = of_nat j"
    using assms unfolding registry.hands_out_def by auto
  then show ?thesis by (simp add: word_le_nat_alt unat_of_nat take_bit_eq_mod)
qed

section \<open>Where a configuration register is\<close>

text \<open>The place of a register: a megabyte for each bus, 32 KB for each device, 4 KB for each function.\<close>

definition ecam :: "u32 \<Rightarrow> u32 \<Rightarrow> u32 \<Rightarrow> u32 \<Rightarrow> nat" where
  "ecam b d fn reg = unat b mod 256 * 0x100000 + unat d mod 32 * 0x8000 + unat fn mod 8 * 0x1000
     + unat reg mod 4096 div 4 * 4"

lemma and_ffc: "(reg :: u32) AND 0xFFC = push_bit 2 (take_bit 10 (drop_bit 2 reg))"
proof -
  have "(0xFFC :: u32) = push_bit 2 (mask 10)" by (simp add: mask_eq_exp_minus_1)
  show ?thesis unfolding \<open>0xFFC = push_bit 2 (mask 10)\<close>
    by (intro bit_word_eqI, rename_tac n, case_tac "2 \<le> n") (auto simp: bit_simps simp del: add_2_eq_Suc)
qed

lemma unat_field:
  fixes w :: u32
  assumes "k + s \<le> 32"
  shows "unat (push_bit s (take_bit k w)) = unat w mod 2 ^ k * 2 ^ s"
proof -
  have lt: "unat w mod 2 ^ k < 2 ^ k" by simp
  have "unat w mod 2 ^ k * 2 ^ s < 2 ^ (k + s)" using mult_strict_right_mono [OF lt, of "2 ^ s"] by (simp add: power_add)
  also have "\<dots> \<le> 2 ^ 32" using assms by (intro power_increasing) simp_all
  finally have "unat w mod 2 ^ k * 2 ^ s < 2 ^ 32" .
  then show ?thesis unfolding unsigned_push_bit_eq unsigned_take_bit_eq
    by (simp add: push_bit_eq_mult take_bit_eq_mod)
qed

lemma unat_or_disjoint: "(a :: u32) AND b = 0 \<Longrightarrow> unat a + unat b < 2 ^ 32 \<Longrightarrow> unat (a OR b) = unat a + unat b"
  using disjunctive_add_eq_or [of a b] by (simp add: unat_word_ariths flip: disjunctive_add_eq_or)

lemma fields_disjoint: "s + k \<le> t \<Longrightarrow> push_bit t (y :: u32) AND push_bit s (take_bit k x) = 0"
  by (rule bit_word_eqI) (simp add: bit_simps, arith)

lemma pcie_offset_ecam: "unat (pcie_offset b d fn reg) = ecam b d fn reg"
proof -
  have m: "(0xFF :: u32) = mask 8" "(0x1F :: u32) = mask 5" "(0x07 :: u32) = mask 3" by (simp_all add: mask_eq_exp_minus_1)
  let ?b = "push_bit 20 (take_bit 8 b)" and ?d = "push_bit 15 (take_bit 5 d)"
    and ?f = "push_bit 12 (take_bit 3 fn)" and ?r = "push_bit 2 (take_bit 10 (drop_bit 2 reg))"
  have o: "pcie_offset b d fn reg = ?b OR (?d OR (?f OR ?r))"
    by (simp add: pcie_offset_def m take_bit_eq_mask [symmetric] and_ffc or.assoc)
  have z: "?f AND ?r = 0" "?d AND (?f OR ?r) = 0" "?b AND (?d OR (?f OR ?r)) = 0"
    by (simp_all add: bit.conj_disj_distrib fields_disjoint)
  have "unat ?b = unat b mod 256 * 0x100000" "unat ?d = unat d mod 32 * 0x8000" "unat ?f = unat fn mod 8 * 0x1000"
    "unat ?r = unat (drop_bit 2 reg) mod 1024 * 4" by (simp_all add: unat_field)
  moreover have "unat (drop_bit 2 reg) mod 1024 * 4 = unat reg mod 4096 div 4 * 4"
    using mod_mult2_eq [of "unat reg" 4 1024] unfolding unat_drop_bit_eq by (simp add: drop_bit_eq_div)
  ultimately have u: "unat ?b = unat b mod 256 * 0x100000" "unat ?d = unat d mod 32 * 0x8000"
    "unat ?f = unat fn mod 8 * 0x1000" "unat ?r = unat reg mod 4096 div 4 * 4" by simp_all
  have lt: "unat b mod 256 < 256" "unat d mod 32 < 32" "unat fn mod 8 < 8" "unat reg mod 4096 div 4 < 1024"
    "(2 :: nat) ^ 32 = 0x100000000" by simp_all
  have 1: "unat (?f OR ?r) = unat ?f + unat ?r" by (rule unat_or_disjoint [OF z(1)]) (use u lt in linarith)
  have 2: "unat (?d OR (?f OR ?r)) = unat ?d + (unat ?f + unat ?r)"
    unfolding 1 [symmetric] by (rule unat_or_disjoint [OF z(2)]) (use 1 u lt in linarith)
  have "unat (?b OR (?d OR (?f OR ?r))) = unat ?b + (unat ?d + (unat ?f + unat ?r))"
    unfolding 2 [symmetric] by (rule unat_or_disjoint [OF z(3)]) (use 2 u lt in linarith)
  then show ?thesis by (simp add: o u ecam_def)
qed

lemma ecam_less: "ecam b d fn reg < unat b mod 256 * 0x100000 + 0x100000" "ecam b d fn reg < 0x10000000"
proof -
  have "unat b mod 256 < 256" "unat d mod 32 < 32" "unat fn mod 8 < 8" "unat reg mod 4096 div 4 < 1024" by simp_all
  then show "ecam b d fn reg < unat b mod 256 * 0x100000 + 0x100000" "ecam b d fn reg < 0x10000000"
    unfolding ecam_def by linarith+
qed

section \<open>A bus to scan\<close>

lemma mem_read_config:
  "reg AND 3 = 0 \<Longrightarrow> pcie_read_config mem_hw b d fn reg m = (hardware m (PCIE_EXT_CFG_DATA + ucast (pcie_offset b d fn reg)), m)"
  by (simp add: pcie_read_config_def mmio_read32_def mem_hw_def Let_def)

lemma mem_write_config:
  "pcie_write_config mem_hw b d fn reg v m
     = m\<lparr>hardware := (hardware m)(PCIE_EXT_CFG_DATA + ucast (pcie_offset b d fn reg) := v)\<rparr>"
  by (simp add: pcie_write_config_def mmio_write32_def mem_hw_def)

lemma mem_skip:
  "(\<And>d. d \<in> set ds \<Longrightarrow> hardware m (PCIE_EXT_CFG_DATA + ucast (pcie_offset 0 d 0 0)) = 0) \<Longrightarrow>
   scan_devices mem_hw l fresh ds m = Some m"
  by (induction ds) (simp_all add: mem_read_config)

lemma mem_dump: "hardware (pcie_dump_header mem_hw b d fn m) = hardware m"
  by (simp add: pcie_dump_header_def dump_word_def pcie_read_config_def mmio_read32_def mem_hw_def Let_def)

text \<open>One device: a bridge with a memory region of its own, and nothing else on the bus.\<close>

definition bridge_regs :: "addr \<Rightarrow> u32" where
  "bridge_regs = (\<lambda>_. 0)(0x70000000 := 0x00011B36, 0x70000010 := 8)"

text \<open>Only the configuration window is fixed; other registers may hold anything.\<close>

definition bridge_bus :: "(addr \<Rightarrow> u32) \<Rightarrow> bool" where
  "bridge_bus d \<longleftrightarrow> (\<forall>a. 0x70000000 \<le> a \<longrightarrow> d a = bridge_regs a)"

lemma bridge_words:
  assumes "bridge_bus d"
  shows "d 0x70000000 = 0x00011B36" "d 0x70000004 = 0" "d 0x70000008 = 0" "d 0x70000010 = 8" "d 0x70000014 = 0"
    "d 0x70000018 = 0" "d 0x7000001C = 0" "d 0x70000020 = 0" "d 0x70000024 = 0"
  using assms by (simp_all add: bridge_bus_def bridge_regs_def)

definition found_card :: "'d machine \<Rightarrow> virtio_pci_device option" where
  "found_card m = global_vnet_dev (kernel m)"

lemma found_card_simps [simp]:
  "found_card (m_print f m) = found_card m" "found_card (m_puts t m) = found_card m"
  "found_card (m\<lparr>hardware := d\<rparr>) = found_card m" "found_card (m\<lparr>pci_devices := n\<rparr>) = found_card m"
  "found_card (m\<lparr>next_pci_mem_addr := a\<rparr>) = found_card m"
  by (simp_all add: found_card_def m_print_def m_puts_def)

lemma found_card_quiet: "quiet m m' \<Longrightarrow> found_card m' = found_card m"
  by (auto simp: quiet_def found_card_def)

lemma bridge_bars:
  assumes "hardware m = d" "bridge_bus d"
  shows "hardware (fold (assign_bar mem_hw 0 0 0) [0..<6] m) = d(0x70000010 := next_pci_mem_addr m)
    \<and> next_pci_mem_addr (fold (assign_bar mem_hw 0 0 0) [0..<6] m) = next_pci_mem_addr m + 0x100000
    \<and> pci_devices (fold (assign_bar mem_hw 0 0 0) [0..<6] m) = pci_devices m
    \<and> found_card (fold (assign_bar mem_hw 0 0 0) [0..<6] m) = found_card m"
proof -
  have "[0..<6] = [0, 1, 2, 3, 4, 5 :: nat]" by (simp add: upt_rec)
  moreover have "(8 :: u32) AND NOT 0xF = 0" by simp
  ultimately show ?thesis
    by (simp add: assms(1) bridge_words [OF assms(2)] assign_bar_def mem_read_config mem_write_config
        PCIE_EXT_CFG_DATA_def pcie_offset_def Let_def)
qed

lemma bridge_scan:
  assumes "hardware m = d" "bridge_bus d"
  shows "\<exists>m'. pcie_init mem_hw l fresh m = Some m' \<and> pci_devices m' = 1 \<and> next_pci_mem_addr m' = next_pci_mem_addr m + 0x100000
    \<and> hardware m' = d(0x70000010 := next_pci_mem_addr m, 0x70000004 := 6) \<and> found_card m' = found_card m"
proof -
  let ?start = "(m_puts (crlf @ str ''[INFO] PCIe: Initializing Aether WebOS PCIe Subsystem...'' @ crlf) m)\<lparr>pci_devices := 0\<rparr>"
  let ?m0 = "pcie_dump_header mem_hw 0 0 0 ?start"
  let ?m1 = "?m0\<lparr>pci_devices := pci_devices ?m0 + 1\<rparr>"
  let ?a = "next_pci_mem_addr m"
  note words = bridge_words [OF assms(2)]
  have q: "pci_devices ?m0 = 0" "next_pci_mem_addr ?m0 = ?a" "hardware ?m0 = d" "found_card ?m0 = found_card m"
    using assms(1) quiet_counters [OF quiet_dump [where hw = mem_hw and b = 0 and d = 0 and fn = 0 and m = ?start]]
      found_card_quiet [OF quiet_dump [where hw = mem_hw and b = 0 and d = 0 and fn = 0 and m = ?start]]
    by (simp_all add: mem_dump)
  have bars: "hardware (fold (assign_bar mem_hw 0 0 0) [0..<6] ?m1) = d(0x70000010 := ?a)
    \<and> next_pci_mem_addr (fold (assign_bar mem_hw 0 0 0) [0..<6] ?m1) = ?a + 0x100000
    \<and> pci_devices (fold (assign_bar mem_hw 0 0 0) [0..<6] ?m1) = 1
    \<and> found_card (fold (assign_bar mem_hw 0 0 0) [0..<6] ?m1) = found_card m"
    using bridge_bars [of ?m1 d] assms(2) q by simp
  obtain m3 where 3: "pcie_probe_device mem_hw l fresh 0 0 0 ?m0 = Some m3" "pci_devices m3 = 1"
    "next_pci_mem_addr m3 = ?a + 0x100000" "hardware m3 = d(0x70000010 := ?a, 0x70000004 := 6)"
    "found_card m3 = found_card m"
    using bars q by (simp add: pcie_probe_device_def driver_registry_def driver_matches_def attach_driver_def Let_def
        mem_read_config mem_write_config words PCIE_EXT_CFG_DATA_def pcie_offset_def PCI_CLASS_CODE_XHCI_def)
  have "scan_devices mem_hw l fresh (map of_nat [1..<32]) m3 = Some m3"
  proof (rule mem_skip)
    fix dv :: u32 assume "dv \<in> set (map of_nat [1..<32])"
    then obtain n :: nat where n: "n \<in> {1..<32}" "dv = of_nat n" by auto
    from n(1) show "hardware m3 (PCIE_EXT_CFG_DATA + ucast (pcie_offset 0 dv 0 0)) = 0"
      using assms(2) by (auto simp: 3 n bridge_bus_def bridge_regs_def PCIE_EXT_CFG_DATA_def pcie_offset_def atLeastLessThan_upt upt_rec)
  qed
  moreover have "[0..<32] = 0 # [1..<(32::nat)]" by (simp add: upt_rec)
  ultimately show ?thesis using 3 q
    by (simp add: pcie_init_def Let_def mem_read_config assms(1) words PCIE_EXT_CFG_DATA_def pcie_offset_def)
qed

section \<open>Properties\<close>



text \<open>
  C18: which physical register a configuration access reaches once the page tables of the kernel are
  in force: on the first 128 buses the register of that bus, device, function and word in the host
  bridge's window at 0x3F000000, as device memory; on the others, which lie past the 128 MB that
  are mapped, ordinary RAM above 0x78000000.
\<close>

theorem config_access_reaches_its_register:
  assumes "tables_ok base m"
  shows "translate m (PCIE_EXT_CFG_DATA + ucast (pcie_offset b d fn reg)) =
    (if unat b mod 256 < 128 then Some (PCIE_PHYS_BASE + of_nat (ecam b d fn reg), 0x44)
     else Some (PCIE_EXT_CFG_DATA + of_nat (ecam b d fn reg), 0xFF))"
proof -
  let ?e = "ecam b d fn reg" and ?a = "PCIE_EXT_CFG_DATA + of_nat (ecam b d fn reg)"
  have u: "(ucast (pcie_offset b d fn reg) :: u64) = of_nat ?e"
    by (simp add: pcie_offset_ecam [symmetric])
  have a: "unat ?a = 0x70000000 + ?e"
    using ecam_less(2) [of b d fn reg] by (simp add: PCIE_EXT_CFG_DATA_def unat_word_ariths unat_of_nat take_bit_eq_mod)
  have "?e < 0x08000000 \<longleftrightarrow> unat b mod 256 < 128"
    using ecam_less(1) [of b d fn reg] by (auto simp: ecam_def)
  then show ?thesis
    using translate_static [OF assms, of ?a] a ecam_less(2) [of b d fn reg]
    by (auto simp: u static_map_def word_less_nat_alt word_le_nat_alt PCIE_EXT_CFG_DATA_def PCIE_PHYS_BASE_def)
qed

theorem config_access_reaches_its_register_witness:
  "\<exists>m. translate m (PCIE_EXT_CFG_DATA + ucast (pcie_offset 0 2 0 0x10)) = Some (0x3F010010, 0x44)"
proof -
  obtain h t where "vm_run 0x400C0000 [] h t" using sample_vm by blast
  then have "tables_ok 0x400C0000 t" using vm_run_ok sample_base unfolding vm_ok_def by blast
  from config_access_reaches_its_register [OF this, of 0 2 0 "0x10"] show ?thesis
    by (auto simp: PCIE_PHYS_BASE_def ecam_def)
qed

end
