(* ===== verification/Polling.thy ===== *)
theory Polling
  imports Prelude
begin

text \<open>
  Loops that wait for hardware: they look at a register until it shows what they wait for, with no
  bound. The interface says what such a loop is; its users interpret it and learn when it returns,
  with what, and when it never does.
\<close>

locale busy_wait =
  fixes stop :: "'s \<Rightarrow> bool" and advance :: "'s \<Rightarrow> 's" and result :: "'s \<Rightarrow> 'r" and loop :: "'s \<Rightarrow> 'r option"
  assumes loop_unfold: "\<And>s. loop s = (if stop s then Some (result s) else loop (advance s))"
    and loop_stops: "\<And>s r. loop s = Some r \<Longrightarrow> \<exists>n. stop ((advance ^^ n) s)"
begin

text \<open>The state in which the loop stops, after \<open>n\<close> looks in vain.\<close>

definition stops_after :: "nat \<Rightarrow> 's \<Rightarrow> bool" where
  "stops_after n s \<longleftrightarrow> stop ((advance ^^ n) s) \<and> (\<forall>i < n. \<not> stop ((advance ^^ i) s))"

lemma stops_after_Suc: "\<not> stop s \<Longrightarrow> stops_after (Suc n) s \<longleftrightarrow> stops_after n (advance s)"
  by (auto simp: stops_after_def funpow_swap1 less_Suc_eq_0_disj)

lemma stops_after_exists: "stop ((advance ^^ n) s) \<Longrightarrow> \<exists>k \<le> n. stops_after k s"
  using ex_least_nat_le [of "\<lambda>n. stop ((advance ^^ n) s)" n] by (auto simp: stops_after_def)

lemma loop_result: "stops_after n s \<Longrightarrow> loop s = Some (result ((advance ^^ n) s))"
proof (induction n arbitrary: s)
  case 0
  then show ?case using loop_unfold [of s] by (simp add: stops_after_def)
next
  case (Suc n)
  then have "\<not> stop s" by (auto simp: stops_after_def)
  with Suc loop_unfold [of s] show ?case by (simp add: stops_after_Suc funpow_swap1)
qed

lemma loop_returns: "loop s = Some r \<longleftrightarrow> (\<exists>n. stops_after n s \<and> r = result ((advance ^^ n) s))"
proof
  assume r: "loop s = Some r"
  then obtain n where "stops_after n s" using loop_stops stops_after_exists by blast
  with r loop_result [OF this] show "\<exists>n. stops_after n s \<and> r = result ((advance ^^ n) s)" by auto
qed (auto simp: loop_result)

lemma loop_diverges: "loop s = None \<longleftrightarrow> (\<forall>n. \<not> stop ((advance ^^ n) s))"
proof
  assume "loop s = None"
  then show "\<forall>n. \<not> stop ((advance ^^ n) s)" using stops_after_exists loop_result by fastforce
next
  assume "\<forall>n. \<not> stop ((advance ^^ n) s)"
  then show "loop s = None" using loop_stops by (cases "loop s") blast+
qed

end

end
