(* ===== verification/Gic.thy ===== *)
theory Gic
  imports Pci Polling
begin

text \<open>
  The interrupt controller (src/kernel/gic.c, the GICv3 branch) and the registers of the serial
  port (the parts of src/drivers/uart.c that read and program them). The identification register
  of the processor is an argument, the system registers written are a record.
\<close>

unbundle bit_operations_syntax

section \<open>Interrupt controller\<close>

record icc =
  icc_sre_el1 :: u64
  icc_pmr_el1 :: u64
  icc_igrpen1_el1 :: u64

definition GIC_DIST_BASE :: addr where "GIC_DIST_BASE = 0x08000000"
definition TIMER_IRQ :: nat where "TIMER_IRQ = 30"

partial_function (option) find_redist :: "'d hw \<Rightarrow> u32 \<Rightarrow> addr \<Rightarrow> 'd \<Rightarrow> (addr \<times> 'd) option" where
  "find_redist hw aff redist_base d =
     (let (typer, d) = load64 hw (redist_base + 0x08) d
      in if drop_bit 32 typer = ucast aff then Some (redist_base, d)
         else if typer AND push_bit 4 1 \<noteq> 0 then Some (redist_base, d)
         else find_redist hw aff (redist_base + 0x20000) d)"

partial_function (option) wait_awake :: "'d hw \<Rightarrow> addr \<Rightarrow> 'd \<Rightarrow> 'd option" where
  "wait_awake hw waker d =
     (let (v, d) = load32 hw waker d in if v AND push_bit 2 1 \<noteq> 0 then wait_awake hw waker d else Some d)"

definition modify32 :: "'d hw \<Rightarrow> addr \<Rightarrow> (u32 \<Rightarrow> u32) \<Rightarrow> 'd \<Rightarrow> 'd" where
  "modify32 hw a f d = (let (v, d) = load32 hw a d in store32 hw a (f v) d)"

definition config_timer_ppi :: "'d hw \<Rightarrow> addr \<Rightarrow> 'd \<Rightarrow> 'd" where
  "config_timer_ppi hw sgi_base d =
     (let d = modify32 hw (sgi_base + 0x080) (\<lambda>v. v OR push_bit TIMER_IRQ 1) d;
          d = modify32 hw (sgi_base + 0x088) (\<lambda>v. v AND NOT (push_bit TIMER_IRQ 1)) d;
          d = store8 hw (sgi_base + 0x400 + of_nat TIMER_IRQ) 0xA0 d;
          d = modify32 hw (sgi_base + 0xC04) (\<lambda>v. v OR push_bit ((TIMER_IRQ mod 16) * 2) 2) d
      in store32 hw (sgi_base + 0x100) (push_bit TIMER_IRQ 1) d)"

definition gic_init :: "'d hw \<Rightarrow> u64 \<Rightarrow> icc \<Rightarrow> 'd machine \<Rightarrow> (icc \<times> 'd machine) option" where
  "gic_init hw mpidr r m =
     do { let m = m_puts (str ''[INFO] GIC: Initializing Interrupt Controller...'' @ crlf) m;
          let d = store32 hw GIC_DIST_BASE (push_bit 4 1 OR push_bit 5 1 OR push_bit 0 1 OR push_bit 1 1) (hardware m);
          let aff = ucast (mpidr AND 0xFFFFFF);
          (redist_base, d) \<leftarrow> find_redist hw aff (GIC_DIST_BASE + 0xA0000) d;
          let d = modify32 hw (redist_base + 0x14) (\<lambda>v. v AND NOT (push_bit 1 1)) d;
          d \<leftarrow> wait_awake hw (redist_base + 0x14) d;
          let d = config_timer_ppi hw (redist_base + 0x10000) d;
          let r = r\<lparr>icc_sre_el1 := icc_sre_el1 r OR 0x7, icc_pmr_el1 := 0xFF, icc_igrpen1_el1 := 1\<rparr>;
          Some (r, m_puts (str ''[OK] GIC: Ready to receive interrupts.'' @ crlf) (m\<lparr>hardware := d\<rparr>)) }"

section \<open>Serial port registers\<close>

definition UART0_BASE :: addr where "UART0_BASE = 0x09000000"
definition UART0_DR :: addr where "UART0_DR = UART0_BASE + 0x00"
definition UART0_FR :: addr where "UART0_FR = UART0_BASE + 0x18"
definition UART0_IBRD :: addr where "UART0_IBRD = UART0_BASE + 0x24"
definition UART0_FBRD :: addr where "UART0_FBRD = UART0_BASE + 0x28"
definition UART0_LCRH :: addr where "UART0_LCRH = UART0_BASE + 0x2C"
definition UART0_CR :: addr where "UART0_CR = UART0_BASE + 0x30"
definition UART0_IMSC :: addr where "UART0_IMSC = UART0_BASE + 0x38"
definition UART0_ICR :: addr where "UART0_ICR = UART0_BASE + 0x44"

definition uart_init :: "'d hw \<Rightarrow> 'd \<Rightarrow> 'd" where
  "uart_init hw d =
     (let d = store32 hw UART0_CR 0x0 d;
          d = store32 hw UART0_IMSC 0x0 d;
          d = store32 hw UART0_ICR 0x7FF d;
          d = store32 hw UART0_IBRD 26 d;
          d = store32 hw UART0_FBRD 3 d;
          d = store32 hw UART0_LCRH (push_bit 4 1 OR push_bit 5 3) d
      in store32 hw UART0_CR (push_bit 9 1 OR push_bit 8 1 OR 1) d)"

definition uart_is_writable :: "'d hw \<Rightarrow> 'd \<Rightarrow> bool \<times> 'd" where
  "uart_is_writable hw d = (let (v, d) = load32 hw UART0_FR d in (\<not> (v AND push_bit 5 1 \<noteq> 0), d))"

definition uart_is_empty :: "'d hw \<Rightarrow> 'd \<Rightarrow> u32 \<times> 'd" where
  "uart_is_empty hw d = (let (v, d) = load32 hw UART0_FR d in (v AND push_bit 4 1, d))"

partial_function (option) uart_send :: "'d hw \<Rightarrow> u8 \<Rightarrow> 'd \<Rightarrow> 'd option" where
  "uart_send hw c d =
     (let (w, d) = uart_is_writable hw d
      in if w then Some (store32 hw UART0_DR (ucast c) d) else uart_send hw c d)"

partial_function (option) uart_getc :: "'d hw \<Rightarrow> 'd \<Rightarrow> (u8 \<times> 'd) option" where
  "uart_getc hw d =
     (let (v, d) = load32 hw UART0_FR d
      in if v AND push_bit 4 1 \<noteq> 0 then uart_getc hw d
         else let (c, d) = load32 hw UART0_DR d in Some (ucast (c AND 0xFF), d))"

section \<open>When the waits end\<close>

definition redist_stop :: "'d hw \<Rightarrow> u32 \<Rightarrow> addr \<times> 'd \<Rightarrow> bool" where
  "redist_stop hw aff = (\<lambda>(a, d). let t = fst (load64 hw (a + 0x08) d)
     in drop_bit 32 t = ucast aff \<or> t AND push_bit 4 1 \<noteq> 0)"

definition redist_read :: "'d hw \<Rightarrow> addr \<times> 'd \<Rightarrow> addr \<times> 'd" where
  "redist_read hw = (\<lambda>(a, d). (a, snd (load64 hw (a + 0x08) d)))"

definition redist_next :: "'d hw \<Rightarrow> addr \<times> 'd \<Rightarrow> addr \<times> 'd" where
  "redist_next hw s = (let (a, d) = redist_read hw s in (a + 0x20000, d))"

lemma redist_addr: "fst (redist_read hw s) = fst s" "fst (redist_next hw s) = fst s + 0x20000"
  by (simp_all add: redist_next_def redist_read_def split_beta)

lemma redist_next_addr: "fst ((redist_next hw ^^ n) s) = fst s + of_nat n * 0x20000"
  by (induction n) (simp_all add: redist_addr algebra_simps)

interpretation redist: busy_wait "redist_stop hw aff" "redist_next hw" "redist_read hw" "\<lambda>(a, d). find_redist hw aff a d"
  for hw :: "'d hw" and aff
proof unfold_locales
  show "(case s of (a, d) \<Rightarrow> find_redist hw aff a d) = (if redist_stop hw aff s then Some (redist_read hw s)
      else case redist_next hw s of (a, d) \<Rightarrow> find_redist hw aff a d)" for s
  proof (cases s)
    case (Pair a d)
    show ?thesis unfolding Pair prod.case
      by (subst find_redist.simps) (simp add: redist_stop_def redist_read_def redist_next_def Let_def split_beta)
  qed
next
  fix s r
  have "find_redist h w a d = Some r \<Longrightarrow> \<exists>n. redist_stop h w ((redist_next h ^^ n) (a, d))" for h :: "'d hw" and w a d r
  proof (induction rule: find_redist.raw_induct [rotated 1, consumes 1])
    case (1 find h w a d r)
    obtain t d' where t: "load64 h (a + 0x08) d = (t, d')" by fastforce
    show ?case
    proof (cases "redist_stop h w (a, d)")
      case True
      then show ?thesis by (intro exI [of _ 0]) simp
    next
      case False
      then have "find h w (a + 0x20000) d' = Some r" using 1(2) t by (simp add: redist_stop_def Let_def)
      from 1(1) [OF this] obtain n where "redist_stop h w ((redist_next h ^^ n) (a + 0x20000, d'))" by blast
      moreover have "redist_next h (a, d) = (a + 0x20000, d')" using t by (simp add: redist_next_def redist_read_def)
      ultimately show ?thesis by (intro exI [of _ "Suc n"]) (simp add: funpow_swap1)
    qed
  qed
  then show "(case s of (a, d) \<Rightarrow> find_redist hw aff a d) = Some r \<Longrightarrow> \<exists>n. redist_stop hw aff ((redist_next hw ^^ n) s)"
    by (cases s) simp
qed

text \<open>The other waits look at one register, whose value \<open>busy\<close> judges.\<close>

definition poll32 :: "'d hw \<Rightarrow> addr \<Rightarrow> 'd \<Rightarrow> 'd" where
  "poll32 hw a d = snd (load32 hw a d)"

definition shows32 :: "'d hw \<Rightarrow> addr \<Rightarrow> u32 \<Rightarrow> 'd \<Rightarrow> bool" where
  "shows32 hw a msk d \<longleftrightarrow> fst (load32 hw a d) AND msk \<noteq> 0"

lemma stops_later: "f x = y \<Longrightarrow> P ((f ^^ n) y) \<Longrightarrow> \<exists>n. P ((f ^^ n) x)"
  by (rule exI [of _ "Suc n"]) (simp add: funpow_swap1)

interpretation awake: busy_wait "\<lambda>d. \<not> shows32 hw a (push_bit 2 1) d" "poll32 hw a" "poll32 hw a" "wait_awake hw a"
  for hw :: "'d hw" and a
proof unfold_locales
  show "wait_awake hw a s = (if \<not> shows32 hw a (push_bit 2 1) s then Some (poll32 hw a s) else wait_awake hw a (poll32 hw a s))" for s
    by (subst wait_awake.simps) (simp add: shows32_def poll32_def split_beta)
  show "wait_awake hw a s = Some r \<Longrightarrow> \<exists>n. \<not> shows32 hw a (push_bit 2 1) ((poll32 hw a ^^ n) s)" for s r
  proof (induction rule: wait_awake.raw_induct [rotated 1, consumes 1])
    case (1 wait hw a s r)
    show ?case
    proof (cases "shows32 hw a (push_bit 2 1) s")
      case True
      then have "wait hw a (poll32 hw a s) = Some r" using 1(2) by (simp add: shows32_def poll32_def split_beta)
      from 1(1) [OF this] obtain n where "\<not> shows32 hw a (push_bit 2 1) ((poll32 hw a ^^ n) (poll32 hw a s))" by blast
      then show ?thesis by (rule stops_later [OF refl])
    qed (intro exI [of _ 0], simp)
  qed
qed

interpretation sending: busy_wait "\<lambda>d. \<not> shows32 hw UART0_FR (push_bit 5 1) d" "poll32 hw UART0_FR"
    "\<lambda>d. store32 hw UART0_DR (ucast c) (poll32 hw UART0_FR d)" "uart_send hw c"
  for hw :: "'d hw" and c
proof unfold_locales
  show "uart_send hw c s = (if \<not> shows32 hw UART0_FR (push_bit 5 1) s then Some (store32 hw UART0_DR (ucast c) (poll32 hw UART0_FR s))
      else uart_send hw c (poll32 hw UART0_FR s))" for s
    by (subst uart_send.simps) (simp add: uart_is_writable_def shows32_def poll32_def split_beta)
  show "uart_send hw c s = Some r \<Longrightarrow> \<exists>n. \<not> shows32 hw UART0_FR (push_bit 5 1) ((poll32 hw UART0_FR ^^ n) s)" for s r
  proof (induction rule: uart_send.raw_induct [rotated 1, consumes 1])
    case (1 send hw c s r)
    show ?case
    proof (cases "shows32 hw UART0_FR (push_bit 5 1) s")
      case True
      then have "send hw c (poll32 hw UART0_FR s) = Some r"
        using 1(2) by (simp add: uart_is_writable_def shows32_def poll32_def split_beta)
      from 1(1) [OF this] obtain n where "\<not> shows32 hw UART0_FR (push_bit 5 1) ((poll32 hw UART0_FR ^^ n) (poll32 hw UART0_FR s))" by blast
      then show ?thesis by (rule stops_later [OF refl])
    qed (intro exI [of _ 0], simp)
  qed
qed

definition dr_read :: "'d hw \<Rightarrow> 'd \<Rightarrow> u8 \<times> 'd" where
  "dr_read hw d = (let (c, d) = load32 hw UART0_DR (poll32 hw UART0_FR d) in (ucast (c AND 0xFF), d))"

interpretation receiving: busy_wait "\<lambda>d. \<not> shows32 hw UART0_FR (push_bit 4 1) d" "poll32 hw UART0_FR" "dr_read hw" "uart_getc hw"
  for hw :: "'d hw"
proof unfold_locales
  show "uart_getc hw s = (if \<not> shows32 hw UART0_FR (push_bit 4 1) s then Some (dr_read hw s)
      else uart_getc hw (poll32 hw UART0_FR s))" for s
    by (subst uart_getc.simps) (simp add: shows32_def poll32_def dr_read_def split_beta)
  show "uart_getc hw s = Some r \<Longrightarrow> \<exists>n. \<not> shows32 hw UART0_FR (push_bit 4 1) ((poll32 hw UART0_FR ^^ n) s)" for s r
  proof (induction rule: uart_getc.raw_induct [rotated 1, consumes 1])
    case (1 get hw s r)
    show ?case
    proof (cases "shows32 hw UART0_FR (push_bit 4 1) s")
      case True
      then have "get hw (poll32 hw UART0_FR s) = Some r" using 1(2) by (simp add: shows32_def poll32_def split_beta)
      from 1(1) [OF this] obtain n where "\<not> shows32 hw UART0_FR (push_bit 4 1) ((poll32 hw UART0_FR ^^ n) (poll32 hw UART0_FR s))" by blast
      then show ?thesis by (rule stops_later [OF refl])
    qed (intro exI [of _ 0], simp)
  qed
qed

text \<open>The set-up of the controller returns when both of its waits do.\<close>

lemma gic_init_returns:
  "gic_init hw mpidr r m \<noteq> None \<longleftrightarrow>
     (\<exists>a d n. find_redist hw (ucast (mpidr AND 0xFFFFFF)) (GIC_DIST_BASE + 0xA0000)
          (store32 hw GIC_DIST_BASE (push_bit 4 1 OR push_bit 5 1 OR push_bit 0 1 OR push_bit 1 1) (hardware m)) = Some (a, d)
        \<and> \<not> shows32 hw (a + 0x14) (push_bit 2 1)
            ((poll32 hw (a + 0x14) ^^ n) (modify32 hw (a + 0x14) (\<lambda>v. v AND NOT (push_bit 1 1)) d)))"
  using awake.loop_diverges [of hw]
  by (auto simp: gic_init_def Let_def split: bind_splits) (metis option.distinct(1))+

text \<open>
  A serial port seen through its output: looking at the flags leaves the output alone, storing to
  the data register appends to it.
\<close>

lemma uart_send_output:
  assumes "\<And>d. out (snd (load32 hw UART0_FR d)) = out d"
    and "\<And>v d. out (store32 hw UART0_DR v d) = out d @ [ucast v]"
    and "uart_send hw c d = Some d'"
  shows "out d' = out d @ [c]"
proof -
  obtain n where d': "d' = store32 hw UART0_DR (ucast c) (poll32 hw UART0_FR ((poll32 hw UART0_FR ^^ n) d))"
    using sending.loop_returns [of hw c d d'] assms(3) by blast
  have "out ((poll32 hw UART0_FR ^^ n) d) = out d" by (induction n) (simp_all add: poll32_def assms(1))
  moreover have "ucast (ucast c :: u32) = (c :: u8)" by (rule bit_word_eqI) (simp add: bit_simps)
  ultimately show ?thesis by (simp add: d' assms(1,2) poll32_def)
qed

section \<open>Properties\<close>

text \<open>
  C21: the search for the redistributor of this core, whatever the hardware answers: it returns
  exactly when some frame, 128 KB apart from the first, carries the core's affinity or is marked the
  last, and then it returns the first such frame; with no such frame it never returns.
\<close>

theorem redistributor_is_first_of_core_or_last:
  "find_redist hw aff a d = Some (a', d') \<longleftrightarrow>
     (\<exists>n. redist_stop hw aff ((redist_next hw ^^ n) (a, d))
        \<and> (\<forall>i < n. \<not> redist_stop hw aff ((redist_next hw ^^ i) (a, d)))
        \<and> (a', d') = redist_read hw ((redist_next hw ^^ n) (a, d)) \<and> a' = a + of_nat n * 0x20000)"
proof -
  have addr: "a' = a + of_nat n * 0x20000" if e: "(a', d') = redist_read hw ((redist_next hw ^^ n) (a, d))" for n
  proof -
    have "fst (a', d') = fst (redist_read hw ((redist_next hw ^^ n) (a, d)))" by (simp only: e)
    then show ?thesis by (simp add: redist_addr redist_next_addr)
  qed
  show ?thesis
    using redist.loop_returns [of hw aff "(a, d)" "(a', d')"] addr
    unfolding redist.stops_after_def prod.case by blast
qed

text \<open>Four cores: the affinity of a frame is its number, and the last is marked.\<close>

definition quad_hw :: "unit hw" where
  "quad_hw = \<lparr>load32 = \<lambda>a d. (0, d), store32 = \<lambda>a v d. d,
     load64 = \<lambda>a d. (let n = (a - 0x080A0008) div 0x20000 in (push_bit 32 n OR (if n = 3 then 0x10 else 0), d)),
     load8 = \<lambda>a d. (0, d), store8 = \<lambda>a v d. d\<rparr>"

theorem redistributor_is_first_of_core_or_last_witness:
  "find_redist quad_hw 2 0x080A0000 () = Some (0x080E0000, ())"
proof -
  have nx: "(redist_next quad_hw ^^ n) (0x080A0000, ()) = (0x080A0000 + of_nat n * 0x20000, ())" for n
    by (rule prod_eqI) (simp_all add: redist_next_addr)
  have st: "redist_stop quad_hw 2 ((redist_next quad_hw ^^ 2) (0x080A0000, ()))"
    "\<not> redist_stop quad_hw 2 ((redist_next quad_hw ^^ 0) (0x080A0000, ()))"
    "\<not> redist_stop quad_hw 2 ((redist_next quad_hw ^^ 1) (0x080A0000, ()))"
    unfolding nx by (simp_all add: redist_stop_def quad_hw_def Let_def)
  have "\<forall>i < 2. \<not> redist_stop quad_hw 2 ((redist_next quad_hw ^^ i) (0x080A0000, ()))"
    using st(2,3) by (auto simp: less_2_cases_iff)
  moreover have "(0x080E0000, ()) = redist_read quad_hw ((redist_next quad_hw ^^ 2) (0x080A0000, ()))"
    unfolding nx by (simp add: redist_read_def)
  ultimately show ?thesis
    unfolding redistributor_is_first_of_core_or_last using st(1) by (intro exI [of _ 2]) simp
qed

text \<open>
  C22: the serial port, on a device whose data register appends what is stored to its output and
  whose flag register can be read without effect on the output: sending a byte returns exactly when
  the full flag is seen clear at some point, and does to the output what \<open>uart_putc\<close> of the console
  model does; receiving one returns exactly when the empty flag is seen clear, with the low eight
  bits the data register shows then.
\<close>

theorem serial_port_refines_console:
  assumes "\<And>d. out (snd (load32 hw UART0_FR d)) = out d"
    and "\<And>v d. out (store32 hw UART0_DR v d) = out d @ [ucast v]"
  shows "(uart_send hw c d \<noteq> None \<longleftrightarrow> (\<exists>n. \<not> shows32 hw UART0_FR (push_bit 5 1) ((poll32 hw UART0_FR ^^ n) d)))
    \<and> (\<forall>d' md. uart_send hw c d = Some d' \<longrightarrow>
         uart_putc c \<lparr>console = out d, current_mode = md\<rparr> = \<lparr>console = out d', current_mode = md\<rparr>)
    \<and> (uart_getc hw d \<noteq> None \<longleftrightarrow> (\<exists>n. \<not> shows32 hw UART0_FR (push_bit 4 1) ((poll32 hw UART0_FR ^^ n) d)))
    \<and> (\<forall>b d'. uart_getc hw d = Some (b, d') \<longrightarrow> (\<exists>n. b = ucast (fst (load32 hw UART0_DR ((poll32 hw UART0_FR ^^ Suc n) d)) AND 0xFF)
         \<and> \<not> shows32 hw UART0_FR (push_bit 4 1) ((poll32 hw UART0_FR ^^ n) d)))"
proof (intro conjI allI impI)
  show "uart_send hw c d \<noteq> None \<longleftrightarrow> (\<exists>n. \<not> shows32 hw UART0_FR (push_bit 5 1) ((poll32 hw UART0_FR ^^ n) d))"
    by (simp add: sending.loop_diverges del: not_None_eq)
  show "uart_getc hw d \<noteq> None \<longleftrightarrow> (\<exists>n. \<not> shows32 hw UART0_FR (push_bit 4 1) ((poll32 hw UART0_FR ^^ n) d))"
    by (simp add: receiving.loop_diverges del: not_None_eq)
next
  fix d' md assume "uart_send hw c d = Some d'"
  then have "out d' = out d @ [c]" by (rule uart_send_output [of out, OF assms])
  then show "uart_putc c \<lparr>console = out d, current_mode = md\<rparr> = \<lparr>console = out d', current_mode = md\<rparr>"
    by (simp add: uart_putc_def)
next
  fix b d' assume "uart_getc hw d = Some (b, d')"
  then obtain n where n: "receiving.stops_after hw n d" "(b, d') = dr_read hw ((poll32 hw UART0_FR ^^ n) d)"
    using receiving.loop_returns [of hw d "(b, d')"] by blast
  have "\<not> shows32 hw UART0_FR (push_bit 4 1) ((poll32 hw UART0_FR ^^ n) d)"
    using n(1) unfolding receiving.stops_after_def by blast
  moreover have "b = ucast (fst (load32 hw UART0_DR ((poll32 hw UART0_FR ^^ Suc n) d)) AND 0xFF)"
    using n(2) by (simp add: dr_read_def split_beta Let_def)
  ultimately show "\<exists>n. b = ucast (fst (load32 hw UART0_DR ((poll32 hw UART0_FR ^^ Suc n) d)) AND 0xFF)
      \<and> \<not> shows32 hw UART0_FR (push_bit 4 1) ((poll32 hw UART0_FR ^^ n) d)"
    by blast
qed

text \<open>A port whose output buffer is full for the first \<open>k\<close> looks and whose input holds a byte.\<close>

definition slow_port :: "(nat \<times> bytes) hw" where
  "slow_port = \<lparr>load32 = \<lambda>a (k, out). if a = UART0_FR then (if k = 0 then 0 else 0x20, k - 1, out) else (0x141, k, out),
     store32 = \<lambda>a v (k, out). if a = UART0_DR then (k, out @ [ucast v]) else (k, out),
     load64 = \<lambda>a d. (0, d), load8 = \<lambda>a d. (0, d), store8 = \<lambda>a v d. d\<rparr>"

theorem serial_port_refines_console_witness:
  "\<exists>d'. uart_send slow_port 0x41 (3, [0x40]) = Some d' \<and> snd d' = [0x40, 0x41]"
proof -
  have 1: "snd (snd (load32 slow_port UART0_FR d)) = snd d" for d
    by (cases d) (simp add: slow_port_def)
  have 2: "snd (store32 slow_port UART0_DR v d) = snd d @ [ucast v]" for v d
    by (cases d) (simp add: slow_port_def)
  note spec = serial_port_refines_console [of snd slow_port "0x41" "(3, [0x40])", OF 1 2]
  have "fst ((poll32 slow_port UART0_FR ^^ n) (3, [0x40])) = 3 - n" for n
    by (induction n) (simp_all add: poll32_def slow_port_def split_beta)
  then have "\<not> shows32 slow_port UART0_FR (push_bit 5 1) ((poll32 slow_port UART0_FR ^^ 3) (3, [0x40]))"
    by (simp add: shows32_def slow_port_def split_beta)
  then obtain d' where d': "uart_send slow_port 0x41 (3, [0x40]) = Some d'" using spec by blast
  then have "uart_putc 0x41 \<lparr>console = [0x40], current_mode = MODE_PORTAL\<rparr> = \<lparr>console = snd d', current_mode = MODE_PORTAL\<rparr>"
    using spec by simp
  then have "snd d' = [0x40, 0x41]" by (simp add: uart_putc_def)
  with d' show ?thesis by blast
qed

end
