(* ===== verification/Boot.thy ===== *)
theory Boot
  imports Kernel Pcie Gic
begin

text \<open>
  The start of the kernel (src/kernel/kernel.c, \<open>kernel_main\<close> up to its loop) and its shutdown
  routine: the components in the order the code starts them, from the state the loader leaves to
  the state in which the main loop begins.
\<close>

section \<open>From reset to the main loop\<close>

text \<open>
  What start-up works on: the machine, the interrupt controller's system registers and the timer.
\<close>

record 'd board =
  mach :: "'d machine"
  icc_regs :: icc
  board_timer :: timer

definition banner_char :: "u8 \<Rightarrow> uart \<Rightarrow> uart" where
  "banner_char c u = uart_putc c (if c = 10 then uart_putc 13 u else u)"

definition m_mmu_init :: "layout \<Rightarrow> 'd machine \<Rightarrow> 'd machine option" where
  "m_mmu_init l m =
     do { (u, t) \<leftarrow> mmu_init (at_kpt l) (k_uart (kernel m)) (tables m);
          Some (m\<lparr>kernel := (kernel m)\<lparr>k_uart := u\<rparr>, tables := t\<rparr>) }"

text \<open>
  \<open>fresh\<close> is what the memory of the device structure holds before it is written, \<open>mpidr\<close> the
  identification register of the processor. \<open>exceptions_init\<close> and \<open>enable_interrupts\<close>, which set
  the vector base and unmask interrupts, act on the core of the theory Vectors and not on this state.
\<close>

definition kernel_start ::
  "'d hw \<Rightarrow> layout \<Rightarrow> virtio_pci_device \<Rightarrow> u64 \<Rightarrow> bytes \<Rightarrow> 'd board \<Rightarrow> 'd board option" where
  "kernel_start hw l fresh mpidr banner s =
     do { let m = (mach s)\<lparr>hardware := uart_init hw (hardware (mach s))\<rparr>;
          let m = m_print (fold banner_char banner) m;
          let m = m_puts (crlf @ str ''[OK] Aether Core Online.'' @ crlf) m;
          m \<leftarrow> m_mmu_init l m;
          let m = m_print kmalloc_init m;
          m \<leftarrow> pcie_init hw l fresh m;
          (r, m) \<leftarrow> gic_init hw mpidr (icc_regs s) m;
          let t = timer_init (board_timer s);
          let m = m\<lparr>kernel := tcp_init (kernel m)\<rparr>;
          Some \<lparr>mach = m, icc_regs = r, board_timer = t\<rparr> }"

text \<open>The variables of the loop, the portal's statics, and the first thing the portal prints.\<close>

definition portal_zero :: portal_state where
  "portal_zero = \<lparr>p_mac = replicate 6 0, ip_addr = 0, link_status = 0, packets_rx = 0, packets_tx = 0,
     p_uptime_ms = 0, heap_usage_kb = 0, device_count = 0, cpu_load = 0\<rparr>"

definition enter_loop :: "bytes \<Rightarrow> 'd board \<Rightarrow> sys" where
  "enter_loop dmac s =
     portal_start \<lparr>net = kernel (mach s), clock = board_timer s, total_pci_devices = get_total_pci_devices (mach s),
       dev_mac = dmac, current_state = portal_zero, portal_active = False, uart_in = [], last_refresh = 0,
       last_mode = None, esc_state = 0, num = 0\<rparr>"

section \<open>Shutdown\<close>

definition halt_banner :: "'d machine \<Rightarrow> 'd machine" where
  "halt_banner m =
     (let m = m_puts clear_screen m;
          m = m_puts (str ''==========================================='' @ crlf) m;
          m = m_puts (str ''       AETHER WebOS :: SYSTEM HALTING      '' @ crlf) m
      in m_puts (str ''==========================================='' @ crlf) m)"

text \<open>
  The routine masks interrupts (an instruction no modelled state shows), parks the device and ends
  in the firmware call; it does not come back from there.
\<close>

definition kernel_shutdown :: "'d hw \<Rightarrow> 'd machine \<Rightarrow> (firmware \<times> 'd machine) option" where
  "kernel_shutdown hw m =
     do { let m = halt_banner m;
          m \<leftarrow> virtio_pci_reset hw (global_vnet_dev (kernel m)) m;
          let m = m_puts (str ''[INFO] Shutdown Complete.'' @ crlf) m;
          Some (psci_system_off \<lparr>fw_uart = k_uart (kernel m), fw_calls = []\<rparr>, m) }"

definition status_zero :: "'d hw \<Rightarrow> addr \<Rightarrow> 'd \<Rightarrow> bool" where
  "status_zero hw a d \<longleftrightarrow> fst (load8 hw a d) = 0"

definition status_poll :: "'d hw \<Rightarrow> addr \<Rightarrow> 'd \<Rightarrow> 'd" where
  "status_poll hw a d = snd (load8 hw a d)"

definition poll_card :: "'d hw \<Rightarrow> addr \<Rightarrow> 'd machine \<Rightarrow> 'd machine" where
  "poll_card hw a m = m\<lparr>hardware := status_poll hw a (hardware m)\<rparr>"

lemma poll_card_iterate: "(poll_card hw a ^^ n) m = m\<lparr>hardware := (status_poll hw a ^^ n) (hardware m)\<rparr>"
  by (induction n) (simp_all add: poll_card_def)

interpretation parking: busy_wait "\<lambda>m. status_zero hw a (hardware m)" "poll_card hw a" "poll_card hw a" "wait_zero8 hw a"
  for hw :: "'d hw" and a
proof unfold_locales
  show "wait_zero8 hw a s = (if status_zero hw a (hardware s) then Some (poll_card hw a s) else wait_zero8 hw a (poll_card hw a s))" for s
    by (subst wait_zero8.simps) (simp add: status_zero_def poll_card_def status_poll_def split_beta Let_def)
  show "wait_zero8 hw a s = Some r \<Longrightarrow> \<exists>n. status_zero hw a (hardware ((poll_card hw a ^^ n) s))" for s r
  proof (induction rule: wait_zero8.raw_induct [rotated 1, consumes 1])
    case (1 wait hw a s r)
    show ?case
    proof (cases "status_zero hw a (hardware s)")
      case False
      then have "wait hw a (poll_card hw a s) = Some r"
        using 1(2) by (simp add: status_zero_def poll_card_def status_poll_def split_beta Let_def)
      from 1(1) [OF this] obtain n where "status_zero hw a (hardware ((poll_card hw a ^^ n) (poll_card hw a s)))" by blast
      then show ?thesis by (rule stops_later [OF refl])
    qed (intro exI [of _ 0], simp)
  qed
qed

lemma wait_zero8_returns:
  "wait_zero8 hw a m \<noteq> None \<longleftrightarrow> (\<exists>n. status_zero hw a ((status_poll hw a ^^ n) (hardware m)))"
  by (simp add: parking.loop_diverges poll_card_iterate del: not_None_eq)

lemma wait_zero8_quiet: "wait_zero8 hw a m = Some m' \<Longrightarrow> quiet m m'"
  by (auto simp: parking.loop_returns poll_card_iterate) (simp add: poll_card_def quiet_hardware)

lemma virtio_reset_returns:
  "virtio_pci_reset hw vo m \<noteq> None \<longleftrightarrow> (case vo of None \<Rightarrow> True | Some v \<Rightarrow> common v = 0
     \<or> (\<exists>n. status_zero hw (common v + 20) ((status_poll hw (common v + 20) ^^ n) (store8 hw (common v + 20) 0 (hardware m)))))"
proof (cases vo)
  case (Some v)
  let ?m = "(m_puts (str ''[VIRTIO] Resetting device state...'' @ crlf) m)\<lparr>hardware := store8 hw (common v + 20) 0 (hardware m)\<rparr>"
  have "common v \<noteq> 0 \<Longrightarrow> virtio_pci_reset hw vo m \<noteq> None \<longleftrightarrow> wait_zero8 hw (common v + 20) ?m \<noteq> None"
    by (cases "wait_zero8 hw (common v + 20) ?m") (simp_all add: Some virtio_pci_reset_def Let_def)
  then show ?thesis unfolding wait_zero8_returns by (cases "common v = 0") (simp_all add: Some virtio_pci_reset_def)
qed (simp add: virtio_pci_reset_def)

lemma virtio_reset_quiet: "virtio_pci_reset hw vo m = Some m' \<Longrightarrow> quiet m m'"
  by (auto simp: virtio_pci_reset_def Let_def quiet_refl split: option.splits if_splits bind_splits
      intro!: quiet_trans [OF quiet_trans [OF quiet_trans [OF quiet_puts quiet_hardware] wait_zero8_quiet] quiet_puts])

lemma halt_banner_quiet: "quiet m (halt_banner m)"
  unfolding halt_banner_def Let_def by (intro quiet_trans [OF _ quiet_puts] quiet_puts)

section \<open>What start-up leaves\<close>

text \<open>The state the loader leaves: memory as the linker placed it, a device whose queues have legal sizes.\<close>

definition at_reset :: "layout \<Rightarrow> 'd board \<Rightarrow> bool" where
  "at_reset l s \<longleftrightarrow> base_ok (at_kpt l) \<and> ring_sizes_ok (kernel (mach s))
     \<and> (\<exists>r isn q. kernel (mach s) = (boot_state r isn)\<lparr>k_hw := q\<rparr>)"

lemma at_reset_net_start:
  assumes "at_reset l s"
  shows "net_start (kernel (mach s)) \<and> \<not> tx_up (kernel (mach s)) \<and> tcp_tcb_list (kernel (mach s)) = 0
    \<and> vmalloc_ptr (k_heap (kernel (mach s))) = 0x80000000"
proof -
  obtain r isn q where k: "kernel (mach s) = (boot_state r isn)\<lparr>k_hw := q\<rparr>" using assms by (auto simp: at_reset_def)
  have "net_inv (kernel (mach s))" using boot_net_inv [of r isn] net_inv_cong(1) [of "kernel (mach s)" "boot_state r isn"] by (simp add: k)
  moreover have "cache_ok (replicate n \<lparr>ae_ip = 0, ae_mac = m\<rparr>)" for n m by (cases n) simp_all
  ultimately show ?thesis using assms
    by (simp add: at_reset_def net_start_def k boot_state_def in_flight_def fresh_queue_def tx_up_def heap_init_def)
qed

lemma tcp_init_net:
  assumes st: "net_start k" and ok: "tx_up k \<longrightarrow> net_ok rxb k" and z: "tcp_tcb_list k = 0"
  shows "net_start (tcp_init k) \<and> (tx_up (tcp_init k) \<longrightarrow> net_ok rxb (tcp_init k))"
proof -
  obtain u where "tcp_init k = k\<lparr>k_uart := u\<rparr>" using z by (cases k) (auto simp: tcp_init_def k_debugps_def)
  then show ?thesis using st ok net_start_cong [of "tcp_init k" k] net_ok_cong [of "tcp_init k" k rxb] by (simp add: tx_up_def)
qed

lemma gic_init_quiet: "gic_init hw mpidr r m = Some (r', m') \<Longrightarrow> quiet m m'"
  by (auto simp: gic_init_def Let_def split: bind_splits
      intro!: quiet_trans [OF quiet_trans [OF quiet_puts quiet_hardware] quiet_puts])

lemma kernel_start_ok:
  assumes reset: "at_reset l s" and fresh: "\<not> tx_vq fresh"
    and r: "kernel_start hw l fresh mpidr banner s = Some s'"
  shows "net_start (kernel (mach s')) \<and> (tx_up (kernel (mach s')) \<longrightarrow> net_ok (at_rx_buffers l) (kernel (mach s')))
    \<and> get_total_pci_devices (mach s') \<le> 32"
proof -
  note st = at_reset_net_start [OF reset]
  let ?m1 = "m_puts (crlf @ str ''[OK] Aether Core Online.'' @ crlf) (m_print (fold banner_char banner)
      ((mach s)\<lparr>hardware := uart_init hw (hardware (mach s))\<rparr>))"
  obtain u t where t: "mmu_init (at_kpt l) (k_uart (kernel ?m1)) (tables ?m1) = Some (u, t)" "tables_ok (at_kpt l) t"
    "\<forall>va. dynamic va \<longrightarrow> pool_entry t va = 0"
    using mmu_init_ok [of "at_kpt l"] reset unfolding at_reset_def by blast
  let ?m2 = "m_print kmalloc_init (?m1\<lparr>kernel := (kernel ?m1)\<lparr>k_uart := u\<rparr>, tables := t\<rparr>)"
  obtain m3 icc m4 where 3: "pcie_init hw l fresh ?m2 = Some m3" and 4: "gic_init hw mpidr (icc_regs s) m3 = Some (icc, m4)"
    and s': "mach s' = m4\<lparr>kernel := tcp_init (kernel m4)\<rparr>"
    using r t(1) by (auto simp: kernel_start_def m_mmu_init_def Let_def split: bind_splits)
  obtain u2 where k2: "kernel ?m2 = (kernel (mach s))\<lparr>k_uart := u2\<rparr>" "tables ?m2 = t"
    by (auto simp: m_print_def m_puts_def)
  have "net_start (kernel ?m2)" "\<not> tx_up (kernel ?m2)"
    using st net_start_cong [of "kernel ?m2" "kernel (mach s)"] unfolding k2(1) by (simp_all add: tx_up_def)
  moreover have "vm_ok (at_kpt l) (k_heap (kernel ?m2)) (tables ?m2)" unfolding k2 using st t by (simp add: vm_ok_def)
  moreover have "tcp_tcb_list (kernel ?m2) = 0" unfolding k2(1) using st by simp
  ultimately have "boot_inv l ?m2" unfolding boot_inv_def by blast
  then have inv: "scan_inv l fresh ?m2" using fresh by blast
  note h = pcie_init_hands_out [OF inv 3]
  have "boot_inv l m4" using registry.hands_out_inv [OF h] quiet_boot_inv [OF gic_init_quiet [OF 4], of l] by blast
  moreover have "pci_devices (mach s') \<le> 32"
    using hands_out_count [OF h] quiet_counters [OF gic_init_quiet [OF 4]] by (simp add: s')
  ultimately show ?thesis using tcp_init_net [of "kernel m4" "at_rx_buffers l"] by (simp add: s' boot_inv_def get_total_pci_devices_def)
qed

lemma enter_loop_fields:
  "net (enter_loop dmac s) = k_puts clear_screen (kernel (mach s))"
  "decoder_ok (enter_loop dmac s)"
  by (simp_all add: enter_loop_def portal_start_def s_puts_def s_print_def k_puts_def decoder_ok_def INT_MAX_def)

section \<open>Properties\<close>


text \<open>A board with a bridge on the bus and no card.\<close>

definition sample_icc :: icc where
  "sample_icc = \<lparr>icc_sre_el1 = 0, icc_pmr_el1 = 0, icc_igrpen1_el1 = 0\<rparr>"

definition sample_board :: "(addr \<Rightarrow> u32) board" where
  "sample_board = \<lparr>mach = sample_machine bridge_regs, icc_regs = sample_icc,
     board_timer = \<lparr>timer_freq = 0, uptime_ms = 0, cntfrq_el0 = 62500000, cntp_tval_el0 = 0, cntp_ctl_el0 = 0\<rparr>\<rparr>"

lemma sample_at_reset: "at_reset sample_layout sample_board"
proof -
  have "ring_sizes_ok sample_boot" using sample_boot_start by (simp add: net_start_def)
  moreover have "\<exists>r isn q. sample_boot = (boot_state r isn)\<lparr>k_hw := q\<rparr>" unfolding sample_boot_def by blast
  ultimately show ?thesis using sample_base
    by (simp add: at_reset_def sample_board_def sample_machine_def sample_layout_def)
qed

text \<open>The interrupt controller of this hardware: the first frame matches, and the waker's bits read back.\<close>

lemma mem_gic_init: "hardware m (0x080A0008) = 0 \<Longrightarrow> hardware m 0x080A0014 = 0 \<Longrightarrow> gic_init mem_hw 0 r m \<noteq> None"
proof -
  assume z: "hardware m (0x080A0008) = 0" "hardware m 0x080A0014 = 0"
  let ?d = "store32 mem_hw GIC_DIST_BASE (push_bit 4 1 OR push_bit 5 1 OR push_bit 0 1 OR push_bit 1 1) (hardware m)"
  have f: "find_redist mem_hw 0 (GIC_DIST_BASE + 0xA0000) ?d = Some (0x080A0000, ?d)"
    by (subst find_redist.simps) (simp add: mem_hw_def GIC_DIST_BASE_def z)
  have "\<not> shows32 mem_hw 0x080A0014 (push_bit 2 1) (modify32 mem_hw 0x080A0014 (\<lambda>v. v AND NOT (push_bit 1 1)) ?d)"
    by (simp add: shows32_def modify32_def mem_hw_def GIC_DIST_BASE_def z)
  then show ?thesis unfolding gic_init_returns using f
    by (intro exI [of _ "0x080A0000"] exI [of _ ?d] exI [of _ 0]) simp
qed

lemma sample_start:
  "\<exists>s'. kernel_start mem_hw sample_layout sample_vdev 0 banner sample_board = Some s' \<and> get_total_pci_devices (mach s') = 1
    \<and> global_vnet_dev (kernel (mach s')) = None"
proof -
  let ?m1 = "m_puts (crlf @ str ''[OK] Aether Core Online.'' @ crlf) (m_print (fold banner_char banner)
      ((mach sample_board)\<lparr>hardware := uart_init mem_hw (hardware (mach sample_board))\<rparr>))"
  have "base_ok (at_kpt sample_layout)" using sample_base by (simp add: sample_layout_def)
  from mmu_init_ok [OF this, of "k_uart (kernel ?m1)" "tables ?m1"] obtain u t where
    t: "mmu_init (at_kpt sample_layout) (k_uart (kernel ?m1)) (tables ?m1) = Some (u, t)" by blast
  let ?start = "m_print kmalloc_init (?m1\<lparr>kernel := (kernel ?m1)\<lparr>k_uart := u\<rparr>, tables := t\<rparr>)"
  have hw: "hardware ?start = uart_init mem_hw bridge_regs" by (simp add: sample_board_def sample_machine_def)
  have bus: "bridge_bus (uart_init mem_hw bridge_regs)"
    by (simp add: bridge_bus_def uart_init_def mem_hw_def Let_def UART0_CR_def UART0_IMSC_def UART0_ICR_def UART0_IBRD_def
        UART0_FBRD_def UART0_LCRH_def UART0_BASE_def)
  have z: "uart_init mem_hw bridge_regs 0x080A0008 = 0" "uart_init mem_hw bridge_regs 0x080A0014 = 0"
    by (simp_all add: uart_init_def mem_hw_def Let_def UART0_CR_def UART0_IMSC_def UART0_ICR_def UART0_IBRD_def
        UART0_FBRD_def UART0_LCRH_def UART0_BASE_def bridge_regs_def)
  from bridge_scan [OF hw bus, of sample_layout sample_vdev] obtain m3 where
    3: "pcie_init mem_hw sample_layout sample_vdev ?start = Some m3" "pci_devices m3 = 1" "found_card m3 = found_card ?start"
      "hardware m3 = (uart_init mem_hw bridge_regs)(0x70000010 := next_pci_mem_addr ?start, 0x70000004 := 6)"
    by (elim exE conjE) rule
  have "gic_init mem_hw 0 sample_icc m3 \<noteq> None" by (rule mem_gic_init) (simp_all add: 3 z)
  then obtain r m4 where 4: "gic_init mem_hw 0 sample_icc m3 = Some (r, m4)" by auto
  have q: "quiet m3 m4" by (rule gic_init_quiet [OF 4])
  have "found_card ?start = None"
    by (simp add: found_card_def m_print_def m_puts_def sample_board_def sample_machine_def sample_boot_def boot_state_def)
  then have "global_vnet_dev (kernel m4) = None" using found_card_quiet [OF q] 3(3) by (simp add: found_card_def)
  moreover have "pci_devices m4 = 1" using quiet_counters [OF q] 3(2) by simp
  ultimately show ?thesis
    using t 3(1) 4 by (simp add: kernel_start_def m_mmu_init_def Let_def get_total_pci_devices_def tcp_init_def k_debugps_def)
      (simp add: sample_board_def)
qed


text \<open>
  C19: shutdown. It comes back from parking the card exactly when there is none to park or the card's
  status register reads zero at some point after zero was stored to it; then the kernel's memory is
  as before but for the console, and the one firmware call made is system off, after the message
  that shutdown is complete.
\<close>

theorem shutdown_parks_card_then_powers_off:
  "(kernel_shutdown hw m \<noteq> None \<longleftrightarrow> (case global_vnet_dev (kernel m) of None \<Rightarrow> True | Some v \<Rightarrow> common v = 0
        \<or> (\<exists>n. status_zero hw (common v + 20) ((status_poll hw (common v + 20) ^^ n) (store8 hw (common v + 20) 0 (hardware m))))))
    \<and> (\<forall>f m'. kernel_shutdown hw m = Some (f, m') \<longrightarrow> quiet m m' \<and> fw_calls f = [(PSCI_SYSTEM_OFF, 0, 0, 0)]
         \<and> fw_uart f = uart_puts (str ''[PSCI] Sending SYSTEM_OFF signal...'' @ crlf) (k_uart (kernel m')))"
proof (intro conjI allI impI)
  let ?h = "halt_banner m"
  have h: "global_vnet_dev (kernel ?h) = global_vnet_dev (kernel m)" "hardware ?h = hardware m"
    by (simp_all add: halt_banner_def m_puts_def m_print_def Let_def)
  have "kernel_shutdown hw m \<noteq> None \<longleftrightarrow> virtio_pci_reset hw (global_vnet_dev (kernel ?h)) ?h \<noteq> None"
    by (cases "virtio_pci_reset hw (global_vnet_dev (kernel ?h)) ?h") (simp_all add: kernel_shutdown_def Let_def)
  then show "kernel_shutdown hw m \<noteq> None \<longleftrightarrow> (case global_vnet_dev (kernel m) of None \<Rightarrow> True | Some v \<Rightarrow> common v = 0
        \<or> (\<exists>n. status_zero hw (common v + 20) ((status_poll hw (common v + 20) ^^ n) (store8 hw (common v + 20) 0 (hardware m)))))"
    unfolding virtio_reset_returns h .
  fix f m' assume "kernel_shutdown hw m = Some (f, m')"
  then obtain m1 where r: "virtio_pci_reset hw (global_vnet_dev (kernel ?h)) ?h = Some m1"
    and m': "m' = m_puts (str ''[INFO] Shutdown Complete.'' @ crlf) m1"
    and f: "f = psci_system_off \<lparr>fw_uart = k_uart (kernel m'), fw_calls = []\<rparr>"
    by (auto simp: kernel_shutdown_def Let_def split: bind_splits)
  show "quiet m m'" unfolding m' by (rule quiet_trans [OF quiet_trans [OF halt_banner_quiet virtio_reset_quiet [OF r]] quiet_puts])
  show "fw_calls f = [(PSCI_SYSTEM_OFF, 0, 0, 0)]" by (simp add: f psci_system_off_def psci_call_def)
  show "fw_uart f = uart_puts (str ''[PSCI] Sending SYSTEM_OFF signal...'' @ crlf) (k_uart (kernel m'))"
    by (simp add: f psci_system_off_def psci_call_def)
qed

text \<open>A card that shows its old status for some looks and then zero.\<close>

definition slow_card :: "nat hw" where
  "slow_card = \<lparr>load32 = \<lambda>a d. (0, d), store32 = \<lambda>a v d. d, load64 = \<lambda>a d. (0, d),
     load8 = \<lambda>a d. (if d = 0 then 0 else 0xF, d - 1), store8 = \<lambda>a v d. 3\<rparr>"

theorem shutdown_parks_card_then_powers_off_witness:
  "\<exists>f m'. kernel_shutdown slow_card ((sample_machine 9)\<lparr>kernel := sample_boot\<lparr>global_vnet_dev := Some sample_vdev\<rparr>\<rparr>) = Some (f, m')
     \<and> fw_calls f = [(PSCI_SYSTEM_OFF, 0, 0, 0)]"
proof -
  let ?m = "(sample_machine 9)\<lparr>kernel := sample_boot\<lparr>global_vnet_dev := Some sample_vdev\<rparr>\<rparr> :: nat machine"
  have it: "(status_poll slow_card a ^^ n) d = d - n" for a n d
    by (induction n) (simp_all add: status_poll_def slow_card_def)
  have "status_zero slow_card a ((status_poll slow_card a ^^ 3) (store8 slow_card a 0 9))" for a
    unfolding it by (simp add: status_zero_def slow_card_def)
  then have "kernel_shutdown slow_card ?m \<noteq> None"
    using shutdown_parks_card_then_powers_off [of slow_card ?m] by (auto simp: sample_machine_def)
  then obtain f m' where r: "kernel_shutdown slow_card ?m = Some (f, m')" by auto
  then have "fw_calls f = [(PSCI_SYSTEM_OFF, 0, 0, 0)]"
    using shutdown_parks_card_then_powers_off [of slow_card ?m] by blast
  with r show ?thesis by blast
qed

end
