(* ===== verification/Session.thy ===== *)
theory Session
  imports Tcp_Input
begin

text \<open>
  The TCP input over segments from any peers. A connection is seen from outside by its 4-tuple, as its
  state and the sequence number it expects; the abstract machine moves by the segments of that 4-tuple
  alone. The lemmas show that every step of the code is a step of this machine for every 4-tuple at
  once; the theory Frames has the runs.
\<close>

unbundle bit_operations_syntax

section \<open>The abstract connections\<close>

type_synonym seg = "bytes \<times> u16 \<times> u32 \<times> u32"
type_synonym ends = "u32 \<times> u16 \<times> u32 \<times> u16"
type_synonym conn_view = "(tcp_state_t \<times> u32) option"

definition run_segment :: "seg \<Rightarrow> kstate \<Rightarrow> kstate option" where
  "run_segment = (\<lambda>(b, n, sip, dip). tcp_input_process b n sip dip)"

text \<open>What a segment says to the connection of a 4-tuple: flags, sequence number, payload length.\<close>

definition own_event :: "ends \<Rightarrow> seg \<Rightarrow> (u8 \<times> u32 \<times> u16) option" where
  "own_event q = (\<lambda>(b, n, sip, dip).
     (case tcp_cast b of
        None \<Rightarrow> None
      | Some h \<Rightarrow>
          if seg_accepted b n sip dip h \<and> (sip, ntohs (th_src_port h), dip, ntohs (th_dst_port h)) = q
          then Some (th_flags h, ntohl (th_seq h), n - ucast (seg_hlen h)) else None))"

text \<open>
  The next views: a SYN to port 80 opens a connection unless memory is out; the segments of an open
  one follow \<open>tcp_spec\<close>.
\<close>

definition next_views :: "ends \<Rightarrow> u8 \<times> u32 \<times> u16 \<Rightarrow> conn_view \<Rightarrow> conn_view list" where
  "next_views q = (\<lambda>(flags, seq, n) v.
     (case v of
        None \<Rightarrow>
          if flags AND TCP_FLAG_SYN \<noteq> 0 \<and> snd (snd (snd q)) = 80
          then [None, Some (TCP_STATE_SYN_RECEIVED, seq + 1)] else [None]
      | Some (s, r) \<Rightarrow>
          [map_option (\<lambda>s'. (s', if s = TCP_STATE_ESTABLISHED \<and> flags AND TCP_FLAG_FIN \<noteq> 0 then seq + 1
               else if s = TCP_STATE_ESTABLISHED \<and> 0 < n \<and> seq = r then r + ucast n else r))
            (tcp_spec s flags (0 < n \<and> seq = r))]))"

definition view_step :: "ends \<Rightarrow> seg \<Rightarrow> conn_view \<Rightarrow> conn_view list" where
  "view_step q s v = (case own_event q s of None \<Rightarrow> [v] | Some e \<Rightarrow> next_views q e v)"

primrec view_runs :: "ends \<Rightarrow> seg list \<Rightarrow> conn_view \<Rightarrow> conn_view list" where
  "view_runs q [] v = [v]"
| "view_runs q (s # ss) v = concat (map (view_runs q ss) (view_step q s v))"

section \<open>The simulation\<close>

definition ends_unique :: "kstate \<Rightarrow> bool" where
  "ends_unique k \<longleftrightarrow> (\<forall>a b t u. tcbs k a = Some t \<and> tcbs k b = Some u \<and> tcb_ends t = tcb_ends u \<longrightarrow> a = b)"

definition shows_conn :: "kstate \<Rightarrow> ends \<Rightarrow> conn_view \<Rightarrow> bool" where
  "shows_conn k q v \<longleftrightarrow>
     (case v of
        None \<Rightarrow> \<forall>a t. tcbs k a = Some t \<longrightarrow> tcb_ends t \<noteq> q
      | Some (s, r) \<Rightarrow> \<exists>a t. tcbs k a = Some t \<and> tcb_ends t = q \<and> tcb_state t = s \<and> rcv_nxt t = r)"

lemma shows_conn_Some:
  "tcbs k a = Some t \<Longrightarrow> tcb_state t = s \<Longrightarrow> tcb_ends t = q \<Longrightarrow> rcv_nxt t = r \<Longrightarrow> shows_conn k q (Some (s, r))"
  by (auto simp: shows_conn_def)

lemma shows_conn_cong: "tcbs k' = tcbs k \<Longrightarrow> shows_conn k' q v = shows_conn k q v"
  by (simp add: shows_conn_def split: option.split)

lemma ends_unique_cong: "tcbs k' = tcbs k \<Longrightarrow> ends_unique k' = ends_unique k"
  by (simp add: ends_unique_def)

text \<open>The fields of a connection that a change of its link leaves alone.\<close>

lemma same_but_link:
  assumes "map_option (tcb_next_update (\<lambda>_. 0)) x = map_option (tcb_next_update (\<lambda>_. 0)) y" and "x = Some t"
  obtains u where "y = Some u" "tcb_ends u = tcb_ends t" "tcb_state u = tcb_state t" "rcv_nxt u = rcv_nxt t"
proof -
  from assms obtain u where u: "y = Some u" "t\<lparr>tcb_next := 0\<rparr> = u\<lparr>tcb_next := 0\<rparr>" by (cases y) auto
  have "tcb_ends (t\<lparr>tcb_next := 0\<rparr>) = tcb_ends (u\<lparr>tcb_next := 0\<rparr>)"
    "tcb_state (t\<lparr>tcb_next := 0\<rparr>) = tcb_state (u\<lparr>tcb_next := 0\<rparr>)"
    "rcv_nxt (t\<lparr>tcb_next := 0\<rparr>) = rcv_nxt (u\<lparr>tcb_next := 0\<rparr>)" by (simp_all only: u(2))
  then show thesis using u(1) by (intro that) simp_all
qed

text \<open>Another connection appears, changes or goes: a view of a 4-tuple that is not its own stays.\<close>

lemma shows_conn_others:
  assumes o: "others_same a k k'" and t: "tcbs k a = Some t" and q: "tcb_ends t \<noteq> q"
    and t': "\<And>u. tcbs k' a = Some u \<Longrightarrow> tcb_ends u = tcb_ends t"
    and v: "shows_conn k q v"
  shows "shows_conn k' q v"
proof (cases v)
  case None
  have "tcb_ends u \<noteq> q" if u: "tcbs k' b = Some u" for b u
  proof (cases "b = a")
    case True
    then show ?thesis using t' u q by auto
  next
    case False
    with o have "map_option (tcb_next_update (\<lambda>_. 0)) (tcbs k' b) = map_option (tcb_next_update (\<lambda>_. 0)) (tcbs k b)"
      by (simp add: others_same_def)
    from this u obtain w where "tcbs k b = Some w" "tcb_ends w = tcb_ends u" by (rule same_but_link)
    then show ?thesis using v None by (auto simp: shows_conn_def)
  qed
  then show ?thesis by (simp add: None shows_conn_def)
next
  case (Some sr)
  obtain s r where sr: "sr = (s, r)" by (cases sr)
  from v obtain b u where u: "tcbs k b = Some u" "tcb_ends u = q" "tcb_state u = s" "rcv_nxt u = r"
    by (auto simp: Some sr shows_conn_def)
  then have "b \<noteq> a" using t q by auto
  with o have "map_option (tcb_next_update (\<lambda>_. 0)) (tcbs k b) = map_option (tcb_next_update (\<lambda>_. 0)) (tcbs k' b)"
    by (simp add: others_same_def)
  from this u(1) obtain w where "tcbs k' b = Some w" "tcb_ends w = tcb_ends u" "tcb_state w = tcb_state u" "rcv_nxt w = rcv_nxt u"
    by (rule same_but_link)
  then show ?thesis using u unfolding Some sr shows_conn_def by auto
qed

lemma ends_unique_others:
  assumes o: "others_same a k k'" and t: "tcbs k a = Some t"
    and t': "\<And>u. tcbs k' a = Some u \<Longrightarrow> tcb_ends u = tcb_ends t" and u: "ends_unique k"
  shows "ends_unique k'"
proof -
  have before: "\<exists>w. tcbs k b = Some w \<and> tcb_ends w = tcb_ends x" if x: "tcbs k' b = Some x" for b x
  proof (cases "b = a")
    case True
    then show ?thesis using t t' x by auto
  next
    case False
    with o have "map_option (tcb_next_update (\<lambda>_. 0)) (tcbs k' b) = map_option (tcb_next_update (\<lambda>_. 0)) (tcbs k b)"
      by (simp add: others_same_def)
    from this x obtain w where "tcbs k b = Some w" "tcb_ends w = tcb_ends x" by (rule same_but_link)
    then show ?thesis by blast
  qed
  show ?thesis unfolding ends_unique_def
  proof (intro allI impI)
    fix b c x y assume "tcbs k' b = Some x \<and> tcbs k' c = Some y \<and> tcb_ends x = tcb_ends y"
    with before [of b x] before [of c y] u show "b = c" unfolding ends_unique_def by metis
  qed
qed

lemma own_event_eq:
  "own_event q (b, n, sip, dip) = Some e \<longleftrightarrow>
     (\<exists>h. seg_accepted b n sip dip h \<and> q = (sip, ntohs (th_src_port h), dip, ntohs (th_dst_port h))
        \<and> e = (th_flags h, ntohl (th_seq h), n - ucast (seg_hlen h)))"
  by (auto simp: own_event_def seg_accepted_def split: option.splits)

lemma own_event_unaccepted: "\<nexists>h. seg_accepted b n sip dip h \<Longrightarrow> own_event q (b, n, sip, dip) = None"
  by (auto simp: own_event_def split: option.splits)

lemma own_event_accepted:
  assumes "seg_accepted b n sip dip h"
  shows "own_event q (b, n, sip, dip) =
     (if q = (sip, ntohs (th_src_port h), dip, ntohs (th_dst_port h))
      then Some (th_flags h, ntohl (th_seq h), n - ucast (seg_hlen h)) else None)"
  using assms by (auto simp: own_event_def seg_accepted_def)

text \<open>The connection of the segment itself moves as the machine says.\<close>

lemma shows_conn_own:
  assumes a: "tcp_after a t flags seq ack n k'" and t: "tcbs k a = Some t" and u: "ends_unique k" "ends_unique k'"
    and v: "shows_conn k (tcb_ends t) v" and o: "others_same a k k'"
  shows "\<exists>v' \<in> set (next_views (tcb_ends t) (flags, seq, n) v). shows_conn k' (tcb_ends t) v'"
proof -
  from v t obtain s r where sr: "v = Some (s, r)" by (cases v) (auto simp: shows_conn_def)
  with v obtain b w where "tcbs k b = Some w" "tcb_ends w = tcb_ends t" "tcb_state w = s" "rcv_nxt w = r"
    by (auto simp: shows_conn_def)
  then have s: "tcb_state t = s" "rcv_nxt t = r" using u(1) t unfolding ends_unique_def by fastforce+
  show ?thesis
  proof (cases "tcp_spec s flags (0 < n \<and> seq = r)")
    case None
    then have gone: "tcbs k' a = None" using a by (simp add: tcp_after_def s)
    have "tcb_ends x \<noteq> tcb_ends t" if x: "tcbs k' b = Some x" for b x
    proof
      assume e: "tcb_ends x = tcb_ends t"
      have "b \<noteq> a" using gone x by auto
      with o have "map_option (tcb_next_update (\<lambda>_. 0)) (tcbs k' b) = map_option (tcb_next_update (\<lambda>_. 0)) (tcbs k b)"
        by (simp add: others_same_def)
      from this x obtain y where "tcbs k b = Some y" "tcb_ends y = tcb_ends x" by (rule same_but_link)
      then show False using u(1) t e \<open>b \<noteq> a\<close> unfolding ends_unique_def by metis
    qed
    then show ?thesis by (simp add: sr next_views_def None shows_conn_def)
  next
    case (Some s')
    let ?r = "if s = TCP_STATE_ESTABLISHED \<and> flags AND TCP_FLAG_FIN \<noteq> 0 then seq + 1
      else if s = TCP_STATE_ESTABLISHED \<and> 0 < n \<and> seq = r then r + ucast n else r"
    from a obtain t' where "tcbs k' a = Some t'" "tcb_state t' = s'" "tcb_ends t' = tcb_ends t" "rcv_nxt t' = ?r"
      unfolding tcp_after_def s Some option.case by blast
    then have "shows_conn k' (tcb_ends t) (Some (s', ?r))" by (rule shows_conn_Some)
    moreover have "next_views (tcb_ends t) (flags, seq, n) v = [Some (s', ?r)]"
      unfolding sr next_views_def prod.case option.case Some option.map by (rule refl)
    ultimately show ?thesis by simp
  qed
qed

lemma tcp_after_ends: "tcp_after a t flags seq ack n k' \<Longrightarrow> tcbs k' a = Some u \<Longrightarrow> tcb_ends u = tcb_ends t"
  by (auto simp: tcp_after_def split: option.splits)

lemma new_conn_views:
  assumes p: "tcbs k p = None" and n: "\<And>a t. tcbs k a = Some t \<Longrightarrow> tcb_ends t \<noteq> tcb_ends x"
    and k': "tcbs k' = (tcbs k)(p \<mapsto> x)" and u: "ends_unique k"
  shows "ends_unique k'" and "q \<noteq> tcb_ends x \<Longrightarrow> shows_conn k q v \<Longrightarrow> shows_conn k' q v"
    and "shows_conn k' (tcb_ends x) (Some (tcb_state x, rcv_nxt x))"
proof -
  show "ends_unique k'" using n u unfolding ends_unique_def k' by (auto split: if_splits) metis+
  show "shows_conn k' q v" if "q \<noteq> tcb_ends x" "shows_conn k q v"
    using that p unfolding shows_conn_def k' by (auto split: option.splits) (metis option.distinct(1))
  show "shows_conn k' (tcb_ends x) (Some (tcb_state x, rcv_nxt x))" unfolding shows_conn_def k' by auto
qed

lemma sent_tcbs: "sent_ok k k' \<Longrightarrow> tcbs k' = tcbs k"
  by (simp add: sent_ok_def same_conns_def)

definition padded :: "seg \<Rightarrow> bool" where
  "padded = (\<lambda>(b, n, sip, dip). unat n + 2 \<le> length b)"

definition sim :: "kstate \<Rightarrow> bool" where
  "sim k \<longleftrightarrow> net_inv k \<and> ends_unique k"

lemma simulates_unchanged:
  assumes "tcbs k' = tcbs k" and "net_inv k'" and "ends_unique k"
    and "\<And>q v. shows_conn k q v \<Longrightarrow> v \<in> set (view_step q s v)"
  shows "sim k' \<and> (\<forall>q v. shows_conn k q v \<longrightarrow> (\<exists>v' \<in> set (view_step q s v). shows_conn k' q v'))"
  using assms shows_conn_cong [OF assms(1)] ends_unique_cong [OF assms(1)] by (auto simp: sim_def)

lemma in_ok_inv: "in_ok k k' \<Longrightarrow> net_inv k'"
  by (simp add: in_ok_def)

text \<open>One segment, for all 4-tuples at once.\<close>

lemma segment_simulates:
  assumes k: "sim k" and s: "padded s"
  shows "\<exists>k'. run_segment s k = Some k' \<and> sim k'
     \<and> (\<forall>q v. shows_conn k q v \<longrightarrow> (\<exists>v' \<in> set (view_step q s v). shows_conn k' q v'))"
proof -
  obtain b n sip dip where sg: "s = (b, n, sip, dip)" by (cases s)
  have len: "unat n + 2 \<le> length b" using s by (simp add: padded_def sg)
  have inv: "net_inv k" and uni: "ends_unique k" using k by (simp_all add: sim_def)
  have run: "run_segment s k = tcp_input_process b n sip dip k" by (simp add: run_segment_def sg)
  show ?thesis
  proof (cases "\<exists>h. seg_accepted b n sip dip h")
    case False
    have stay: "v \<in> set (view_step q s v)" for q v
      using own_event_unaccepted [OF False] by (simp add: view_step_def sg)
    obtain k' where k': "tcp_input_process b n sip dip k = Some k'" "in_ok k k'"
      using tcp_input_process_safe [OF inv len] by blast
    moreover from k' have "tcbs k' = tcbs k" using tcp_input_rejected [of n b sip dip k] False len by auto
    ultimately show ?thesis
      using simulates_unchanged [OF _ in_ok_inv uni, of k' k s] stay run by auto
  next
    case True
    then obtain h where h: "seg_accepted b n sip dip h" by blast
    define e where "e = (sip, ntohs (th_src_port h), dip, ntohs (th_dst_port h))"
    define ev where "ev = (th_flags h, ntohl (th_seq h), n - ucast (seg_hlen h))"
    have own: "own_event q s = (if q = e then Some ev else None)" for q
      unfolding sg own_event_accepted [OF h] e_def ev_def by simp
    have foreign: "view_step q s v = [v]" if "q \<noteq> e" for q v using that by (simp add: view_step_def own)
    have mine: "view_step e s v = next_views e ev v" for v by (simp add: view_step_def own)
    from inv show ?thesis
    proof (cases rule: tcp_find_cases [where sip = sip and sp = "ntohs (th_src_port h)" and dip = dip
          and dp = "ntohs (th_dst_port h)"])
      case none
      have no: "tcb_ends t \<noteq> e" if "tcbs k a = Some t" for a t
        using none(2) [OF that] by (simp add: tcb_matches_ends e_def)
      then have only: "v = None" if "shows_conn k e v" for v
        using that by (cases v) (auto simp: shows_conn_def)
      have none_stays: "None \<in> set (view_step e s None)" by (simp add: mine next_views_def ev_def)
      have stay: "v \<in> set (view_step q s v)" if "shows_conn k q v" for q v
      proof (cases "q = e")
        case True
        then have "v = None" using only that by simp
        then show ?thesis using none_stays True by simp
      qed (simp add: foreign)
      show ?thesis
      proof (cases "th_flags h AND TCP_FLAG_SYN \<noteq> 0 \<and> ntohs (th_dst_port h) = 80")
        case False
        obtain k' where k': "tcp_send_rst dip sip (ntohs (th_dst_port h)) (ntohs (th_src_port h)) (ntohl (th_ack h)) 0 k
          = Some k'" "sent_ok k k'" "net_inv k'" using tcp_send_rst_ok [OF inv] by blast
        have "run_segment s k = Some k'"
          using False none(1) k'(1) unfolding run tcp_input_accepted [OF h] by auto
        then show ?thesis using simulates_unchanged [OF sent_tcbs [OF k'(2)] k'(3) uni stay] by blast
      next
        case syn: True
        let ?x = "passive_tcb sip (ntohs (th_src_port h)) dip (ntohs (th_dst_port h)) (ntohl (th_seq h)) k"
        have "run_segment s k = tcp_passive_open sip (ntohs (th_src_port h)) dip (ntohs (th_dst_port h)) (ntohl (th_seq h)) k"
          using syn none(1) unfolding run tcp_input_accepted [OF h] by simp
        then obtain k' where k': "run_segment s k = Some k'" "in_ok k k'" and
          c: "tcbs k' = tcbs k \<or> (\<exists>p t'. tcbs k p = None \<and> tcbs k' = (tcbs k)(p \<mapsto> t')
            \<and> (t' = ?x \<or> t' = ?x\<lparr>snd_nxt := tcp_global_isn k + 1\<rparr>))"
          using tcp_passive_open_ok [OF inv, of sip "ntohs (th_src_port h)" dip "ntohs (th_dst_port h)" "ntohl (th_seq h)"]
          by auto
        from c show ?thesis
        proof
          assume "tcbs k' = tcbs k"
          then show ?thesis using simulates_unchanged [OF _ in_ok_inv [OF k'(2)] uni stay] k'(1) by blast
        next
          assume "\<exists>p t'. tcbs k p = None \<and> tcbs k' = (tcbs k)(p \<mapsto> t')
            \<and> (t' = ?x \<or> t' = ?x\<lparr>snd_nxt := tcp_global_isn k + 1\<rparr>)"
          then obtain p t' where p: "tcbs k p = None" "tcbs k' = (tcbs k)(p \<mapsto> t')"
            and "t' = ?x \<or> t' = ?x\<lparr>snd_nxt := tcp_global_isn k + 1\<rparr>" by blast
          then have t': "tcb_ends t' = e" "tcb_state t' = TCP_STATE_SYN_RECEIVED" "rcv_nxt t' = ntohl (th_seq h) + 1"
            by (auto simp: passive_tcb_def tcb_ends_def e_def)
          have no': "tcb_ends u \<noteq> tcb_ends t'" if "tcbs k a = Some u" for a u using no [OF that] t'(1) by simp
          have new: "ends_unique k'" "shows_conn k q v \<Longrightarrow> q \<noteq> e \<Longrightarrow> shows_conn k' q v"
            "shows_conn k' e (Some (tcb_state t', rcv_nxt t'))" for q v
            using new_conn_views [OF p(1) _ p(2) uni] no' t'(1) by blast+
          have "snd (snd (snd e)) = 80" using syn by (simp add: e_def)
          then have "Some (tcb_state t', rcv_nxt t') \<in> set (view_step e s None)"
            using syn by (simp add: mine next_views_def ev_def t')
          then have open_e: "\<exists>v' \<in> set (view_step e s None). shows_conn k' e v'" using new(3) by blast
          have "\<exists>v' \<in> set (view_step q s v). shows_conn k' q v'" if v: "shows_conn k q v" for q v
          proof (cases "q = e")
            case True
            with v have "v = None" using only by simp
            then show ?thesis using open_e True by simp
          next
            case False
            then show ?thesis using new(2) [OF v] by (simp add: foreign)
          qed
          then show ?thesis using k' in_ok_inv new(1) by (auto simp: sim_def)
        qed
      qed
    next
      case (found a t)
      have e: "tcb_ends t = e" using found(4) by (simp add: tcb_matches_ends e_def)
      from tcp_state_switch_ok [OF inv found(3) payload_in_segment [OF h len]] found(1,2)
      obtain k' where k': "tcp_input_process b n sip dip k = Some k'" "in_ok k k'" "others_same a k k'"
        "tcp_after a t (th_flags h) (ntohl (th_seq h)) (ntohl (th_ack h)) (n - ucast (seg_hlen h)) k'"
        by (simp add: tcp_input_accepted [OF h]) blast
      note ends = tcp_after_ends [OF k'(4)]
      have uni': "ends_unique k'" by (rule ends_unique_others [OF k'(3) found(3) ends uni])
      have "\<exists>v' \<in> set (view_step q s v). shows_conn k' q v'" if v: "shows_conn k q v" for q v
      proof (cases "q = e")
        case True
        then show ?thesis
          using shows_conn_own [OF k'(4) found(3) uni uni' _ k'(3), of v] v by (simp add: mine e ev_def)
      next
        case False
        then show ?thesis
          using shows_conn_others [OF k'(3) found(3) _ ends v] e by (simp add: foreign)
      qed
      then show ?thesis using k'(1,2) uni' in_ok_inv run by (auto simp: sim_def)
    qed
  qed
qed

lemma view_runs_own: "view_runs q ss v = view_runs q (filter (\<lambda>s. own_event q s \<noteq> None) ss) v"
proof (induction ss arbitrary: v)
  case (Cons s ss)
  show ?case
  proof (cases "own_event q s")
    case None
    then have "view_step q s v = [v]" by (simp add: view_step_def)
    then show ?thesis using None Cons [of v] by simp
  next
    case (Some e)
    have "map (view_runs q ss) l = map (view_runs q (filter (\<lambda>s. own_event q s \<noteq> None) ss)) l" for l
      by (rule map_cong [OF refl Cons])
    moreover have "filter (\<lambda>s. own_event q s \<noteq> None) (s # ss) = s # filter (\<lambda>s. own_event q s \<noteq> None) ss"
      using Some by (simp del: not_None_eq)
    ultimately show ?thesis by (simp only: view_runs.simps)
  qed
qed simp

end
