(* ===== verification/Frames.thy ===== *)
theory Frames
  imports Session Net_Rx
begin

text \<open>
  The receive path as a whole: the buffers the driver delivers, of any content, and the TCP segments
  they carry once the Ethernet and IPv4 layers have accepted them. The lemmas lift the runs of the
  theory Session to runs of delivered buffers.
\<close>

unbundle bit_operations_syntax

section \<open>The segment a buffer carries\<close>

definition carried_ip :: "u32 \<Rightarrow> bytes \<Rightarrow> u32 \<Rightarrow> seg option" where
  "carried_ip own d m =
     (case ipv4_cast d of
        None \<Rightarrow> None
      | Some ip \<Rightarrow>
          let header_len = (ucast ((ip_version_ihl ip AND 0x0F) * 4) :: u32);
              total_len = (ucast (ntohs (ip_total_len ip)) :: u32)
          in if 20 \<le> m \<and> drop_bit 4 (ip_version_ihl ip) = 4 \<and> 5 \<le> ip_version_ihl ip AND 0x0F \<and> header_len \<le> m
                \<and> ipv4_checksum (d[10 := 0, 11 := 0]) (unat header_len) = Some (ip_checksum ip)
                \<and> header_len \<le> total_len \<and> total_len \<le> m \<and> ntohl (ip_dest_ip ip) = own \<and> ip_protocol ip = IP_PROTO_TCP
             then Some (drop (unat header_len) d, ucast (total_len - header_len), ntohl (ip_src_ip ip), ntohl (ip_dest_ip ip))
             else None)"

definition carried :: "u32 \<Rightarrow> bytes \<Rightarrow> u32 \<Rightarrow> seg option" where
  "carried own f n =
     (if 14 \<le> n \<and> map_option bswap16 (ld16 f 12) = Some ETH_TYPE_IPV4
      then carried_ip own (drop 14 f) (n - 14) else None)"

section \<open>One frame\<close>

lemma ipv4_demux_other:
  "proto \<noteq> IP_PROTO_TCP \<Longrightarrow> \<exists>k'. ipv4_demux proto p n s d k = Some k' \<and> tcbs k' = tcbs k"
  by (simp add: ipv4_demux_def)

lemma ipv4_handle_carried:
  assumes len: "unat m + 2 \<le> length d"
  shows "case carried_ip (aether_ip k) d m of
       Some s \<Rightarrow> ipv4_handle d m k = run_segment s k \<and> padded s
     | None \<Rightarrow> (\<exists>k'. ipv4_handle d m k = Some k' \<and> tcbs k' = tcbs k)"
proof (cases "m < 20")
  case True
  then have "\<not> 20 \<le> m" by (simp add: not_le)
  then have "carried_ip (aether_ip k) d m = None" by (simp add: carried_ip_def Let_def split: option.split)
  then show ?thesis using True by (simp add: ipv4_handle_def IPV4_HEADER_SIZE_def)
next
  case False
  then have "20 \<le> length d" using len by (simp add: word_less_nat_alt)
  then obtain ip where ip: "ipv4_cast d = Some ip" by (simp add: ipv4_cast_def)
  let ?hl = "ucast ((ip_version_ihl ip AND 0x0F) * 4) :: u32" and ?tl = "ucast (ntohs (ip_total_len ip)) :: u32"
  have hl: "unat ?hl \<le> 255"
    using unat_u8_less [of "(ip_version_ihl ip AND 0x0F) * 4"] by (simp add: unat_ucast del: unat_u8_less)
  have tl: "unat ?tl < 65536" using unat_u16_less [of "ntohs (ip_total_len ip)"] by (simp add: unat_ucast del: unat_u16_less)
  show ?thesis
  proof (cases "m < ?hl")
    case True
    then have "carried_ip (aether_ip k) d m = None" by (simp add: carried_ip_def ip Let_def not_le)
    then show ?thesis using True False ip by (simp add: ipv4_handle_def IPV4_HEADER_SIZE_def Let_def)
  next
    case fits: False
    then have "unat ?hl \<le> length (d[10 := 0, 11 := 0])" using len by (simp add: word_less_nat_alt)
    then obtain c where c: "ipv4_checksum (d[10 := 0, 11 := 0]) (unat ?hl) = Some c"
      using ipv4_checksum_total [of "unat ?hl" "d[10 := 0, 11 := 0]"] hl by auto
    have pad: "padded (drop (unat ?hl) d, ucast (?tl - ?hl), s1, s2)" if "?hl \<le> ?tl" "?tl \<le> m" for s1 s2
    proof -
      have "unat (?tl - ?hl) = unat ?tl - unat ?hl" "unat ?tl \<le> unat m" "unat ?hl \<le> unat ?tl"
        using that by (simp_all add: unat_sub word_le_nat_alt)
      then have "unat (?tl - ?hl) + 2 \<le> length (drop (unat ?hl) d)" "unat (?tl - ?hl) < 65536"
        using len tl unfolding length_drop by linarith+
      then show ?thesis by (simp add: padded_def unat_ucast)
    qed
    have d: "ipv4_handle d m k =
        (if \<not> (drop_bit 4 (ip_version_ihl ip) = 4 \<and> 5 \<le> ip_version_ihl ip AND 0x0F) then Some k
         else if c \<noteq> ip_checksum ip then Some (k\<lparr>k_stats := health_report_checksum_error (k_stats k)\<rparr>)
         else if \<not> (?hl \<le> ?tl \<and> ?tl \<le> m) then Some k
         else if ntohl (ip_dest_ip ip) \<noteq> aether_ip k then Some k
         else ipv4_demux (ip_protocol ip) (drop (unat ?hl) d) (?tl - ?hl) (ntohl (ip_src_ip ip)) (ntohl (ip_dest_ip ip)) k)"
      using False fits ip c unfolding ipv4_handle_def IPV4_HEADER_SIZE_def Let_def by (simp add: not_le disj_commute)
    have e: "carried_ip (aether_ip k) d m =
        (if (drop_bit 4 (ip_version_ihl ip) = 4 \<and> 5 \<le> ip_version_ihl ip AND 0x0F) \<and> c = ip_checksum ip
            \<and> (?hl \<le> ?tl \<and> ?tl \<le> m) \<and> ntohl (ip_dest_ip ip) = aether_ip k \<and> ip_protocol ip = IP_PROTO_TCP
         then Some (drop (unat ?hl) d, ucast (?tl - ?hl), ntohl (ip_src_ip ip), ntohl (ip_dest_ip ip)) else None)"
      using False fits ip c unfolding carried_ip_def Let_def by (simp add: not_less)
    show ?thesis
    proof (cases "drop_bit 4 (ip_version_ihl ip) = 4 \<and> 5 \<le> ip_version_ihl ip AND 0x0F \<and> c = ip_checksum ip
        \<and> ?hl \<le> ?tl \<and> ?tl \<le> m \<and> ntohl (ip_dest_ip ip) = aether_ip k")
      case all: True
      show ?thesis
      proof (cases "ip_protocol ip = IP_PROTO_TCP")
        case True
        then have "carried_ip (aether_ip k) d m
            = Some (drop (unat ?hl) d, ucast (?tl - ?hl), ntohl (ip_src_ip ip), ntohl (ip_dest_ip ip))"
          unfolding e using all by (simp only: if_True simp_thms)
        moreover have "ipv4_handle d m k = run_segment (drop (unat ?hl) d, ucast (?tl - ?hl), ntohl (ip_src_ip ip), ntohl (ip_dest_ip ip)) k"
          unfolding d using all True by (simp add: ipv4_demux_def run_segment_def)
        ultimately show ?thesis using pad all by (simp only: option.case)
      next
        case other: False
        then have "carried_ip (aether_ip k) d m = None" unfolding e by (simp only: simp_thms if_False)
        then show ?thesis unfolding d using all ipv4_demux_other [OF other] by (simp only: option.case if_True if_False simp_thms)
      qed
    next
      case some: False
      then have "carried_ip (aether_ip k) d m = None" unfolding e by (intro if_not_P) blast
      moreover have "\<exists>k'. ipv4_handle d m k = Some k' \<and> tcbs k' = tcbs k"
        unfolding d using some by (simp split: if_split)
      ultimately show ?thesis by simp
    qed
  qed
qed

lemma ethernet_handle_carried:
  assumes inv: "net_inv k" and len: "unat n + 2 \<le> length f"
  shows "case carried (aether_ip k) f n of
       Some s \<Rightarrow> ethernet_handle_packet f n k = run_segment s k \<and> padded s
     | None \<Rightarrow> (\<exists>k'. ethernet_handle_packet f n k = Some k' \<and> tcbs k' = tcbs k)"
proof (cases "n < 14")
  case True
  then have "\<not> 14 \<le> n" by (simp add: not_le)
  with True show ?thesis by (simp add: carried_def ethernet_handle_packet_def ETH_HEADER_SIZE_def)
next
  case False
  then have n: "14 \<le> n" "14 \<le> unat n" "unat (n - 14) = unat n - 14"
    by (simp_all add: word_less_nat_alt unat_sub word_le_nat_alt)
  then have pl: "unat (n - 14) + 2 \<le> length (drop 14 f)" using len by simp
  then have pl': "unat (n - 14) \<le> length (drop 14 f)" by linarith
  obtain lo where lo: "ld16 f 12 = Some lo" using n len by (simp add: ld16_def)
  have six: "\<exists>k'. k_ipv6_handle (drop 14 f) (n - 14) k = Some k' \<and> tcbs k' = tcbs k"
    using ipv6_handle_total [OF pl', of "k_uart k"] by (auto simp: k_ipv6_handle_def)
  have arp: "\<exists>k'. arp_handle (drop 14 f) (n - 14) k = Some k' \<and> tcbs k' = tcbs k"
  proof (cases "n - 14 < 28")
    case True
    then show ?thesis by (simp add: arp_handle_def ARP_PACKET_SIZE_def)
  next
    case False
    then have "28 \<le> length (drop 14 f)" using pl' by (simp add: word_less_nat_alt)
    from arp_handle_safe [OF inv this, of "n - 14"] show ?thesis by blast
  qed
  have types: "ETH_TYPE_IPV4 \<noteq> ETH_TYPE_ARP" by (simp add: ETH_TYPE_IPV4_def ETH_TYPE_ARP_def)
  show ?thesis
  proof (cases "bswap16 lo = ETH_TYPE_IPV4")
    case True
    then have "carried (aether_ip k) f n = carried_ip (aether_ip k) (drop 14 f) (n - 14)"
      using n(1) lo by (simp add: carried_def)
    moreover have "ethernet_handle_packet f n k = ipv4_handle (drop 14 f) (n - 14) k"
      using True False lo types by (simp add: ethernet_handle_packet_def ETH_HEADER_SIZE_def Let_def)
    ultimately show ?thesis using ipv4_handle_carried [OF pl, of k] by (simp only:)
  next
    case other: False
    then have "carried (aether_ip k) f n = None" using lo by (simp add: carried_def)
    then show ?thesis
      using other False lo arp six by (simp add: ethernet_handle_packet_def ETH_HEADER_SIZE_def Let_def)
  qed
qed

section \<open>One buffer\<close>

definition frame_length :: "u32 \<Rightarrow> u32" where
  "frame_length n = (if virtio_net_hdr_size < n then n - virtio_net_hdr_size else 0)"

text \<open>The segment in a buffer the device reports with length \<open>n\<close>, header included.\<close>

definition delivered :: "u32 \<Rightarrow> bytes \<times> u32 \<Rightarrow> seg option" where
  "delivered own = (\<lambda>(f, n). carried own f (frame_length n))"

definition buffer_ok :: "bytes \<times> u32 \<Rightarrow> bool" where
  "buffer_ok = (\<lambda>(f, n). 14 \<le> length f \<and> unat n \<le> length f + 8)"

lemma tcbs_print_mac:
  assumes "print_mac f k = Some k'"
  shows "tcbs k' = tcbs k"
proof -
  have "tcbs (fold (\<lambda>i k. let k = k_put_hex (ucast (m ! i)) k
                            in if i < 5 then k_puts (str '':'') k else k) is k) = tcbs k" for m "is" k
    by (induction "is" arbitrary: k) (simp_all add: Let_def k_put_hex_def k_puts_def)
  then show ?thesis using assms unfolding print_mac_def by (auto split: bind_splits simp del: fold_simps)
qed

lemma rx_deliver_frame:
  assumes inv: "net_inv k" and ok: "buffer_ok (f, n)"
  shows "(frame_length n = 0 \<and> rx_deliver f n k = Some k)
    \<or> (\<exists>k1. rx_ok k k1 \<and> tcbs k1 = tcbs k \<and> rx_deliver f n k = ethernet_handle_packet f (frame_length n) k1)"
proof (cases "frame_length n = 0")
  case True
  then show ?thesis by (simp add: rx_deliver_def frame_length_def Let_def)
next
  case False
  have len: "14 \<le> length f" using ok by (simp add: buffer_ok_def)
  obtain hi lo where b: "ld8 f 12 = Some hi" "ld8 f 13 = Some lo" using len by (simp add: ld8_def)
  have "rx_ok k (k_puts s k)" for s using rx_ok_refl [OF inv] by simp
  moreover have "6 \<le> length f" using len by simp
  ultimately obtain k1 where
    k1: "print_mac f (k_puts (str ''[RX] Dest MAC: '') k) = Some k1" "rx_ok k k1"
    using rx_ok_print_mac by blast
  define e where "e = (push_bit 8 (ucast hi) OR ucast lo :: u16)"
  let ?k2 = "k_puts crlf (k_put_hex (ucast e) (k_puts (str ''[RX] EtherType: '') (k_puts crlf k1)))"
  let ?k3 = "?k2\<lparr>k_stats := (k_stats ?k2)\<lparr>rx_packets := rx_packets (k_stats ?k2) + 1\<rparr>\<rparr>"
  have "rx_ok k ?k3" using k1(2) by simp
  moreover have "tcbs ?k3 = tcbs k"
    using tcbs_print_mac [OF k1(1)] by (simp add: k_put_hex_def k_puts_def)
  moreover have "rx_deliver f n k = ethernet_handle_packet f (frame_length n) ?k3"
    using False k1(1) b unfolding rx_deliver_def frame_length_def Let_def e_def by simp
  ultimately show ?thesis by blast
qed

definition buffer_step :: "u32 \<Rightarrow> ends \<Rightarrow> bytes \<times> u32 \<Rightarrow> conn_view \<Rightarrow> conn_view list" where
  "buffer_step own q b v = (case delivered own b of None \<Rightarrow> [v] | Some s \<Rightarrow> view_step q s v)"

lemma aether_ip_in_ok: "in_ok k k' \<Longrightarrow> aether_ip k' = aether_ip k"
  by (simp add: in_ok_def)

lemma buffer_simulates:
  assumes k: "sim k" and ok: "buffer_ok (f, n)"
  shows "\<exists>k'. rx_deliver f n k = Some k' \<and> sim k' \<and> aether_ip k' = aether_ip k
     \<and> (\<forall>q v. shows_conn k q v \<longrightarrow> (\<exists>v' \<in> set (buffer_step (aether_ip k) q (f, n) v). shows_conn k' q v'))"
proof -
  have inv: "net_inv k" using k by (simp add: sim_def)
  have silent: "\<exists>k'. rx_deliver f n k = Some k' \<and> sim k' \<and> aether_ip k' = aether_ip k
     \<and> (\<forall>q v. shows_conn k q v \<longrightarrow> (\<exists>v' \<in> set (buffer_step (aether_ip k) q (f, n) v). shows_conn k' q v'))"
    if "rx_deliver f n k = Some k1" "rx_ok k k1" "tcbs k1 = tcbs k" "delivered (aether_ip k) (f, n) = None" for k1
    using that k shows_conn_cong [OF that(3)] ends_unique_cong [OF that(3)]
    by (intro exI [of _ k1]) (simp add: sim_def rx_ok_def buffer_step_def)
  from rx_deliver_frame [OF inv ok] show ?thesis
  proof
    assume z: "frame_length n = 0 \<and> rx_deliver f n k = Some k"
    then have "delivered (aether_ip k) (f, n) = None" by (simp add: delivered_def carried_def)
    from silent [of k] this z rx_ok_refl [OF inv] show ?thesis by simp
  next
    assume "\<exists>k1. rx_ok k k1 \<and> tcbs k1 = tcbs k \<and> rx_deliver f n k = ethernet_handle_packet f (frame_length n) k1"
    then obtain k1 where k1: "rx_ok k k1" "tcbs k1 = tcbs k" "rx_deliver f n k = ethernet_handle_packet f (frame_length n) k1"
      by blast
    have sim1: "sim k1" using k k1(1) ends_unique_cong [OF k1(2)] by (simp add: sim_def rx_ok_def)
    have ip: "aether_ip k1 = aether_ip k" using k1(1) by (simp add: rx_ok_def)
    have len: "unat (frame_length n) + 2 \<le> length f"
      using ok by (auto simp: buffer_ok_def frame_length_def virtio_net_hdr_size_def unat_sub word_less_nat_alt word_le_nat_alt)
    have inv1: "net_inv k1" using sim1 by (simp add: sim_def)
    from ethernet_handle_packet_ok [OF inv1 len] obtain k2 where
      k2: "ethernet_handle_packet f (frame_length n) k1 = Some k2" "rx_ok k1 k2" by blast
    have run: "rx_deliver f n k = Some k2" using k1(3) k2(1) by simp
    have ok2: "rx_ok k k2" by (rule rx_ok_trans [OF k1(1) k2(2)])
    show ?thesis
    proof (cases "delivered (aether_ip k) (f, n)")
      case None
      then have "tcbs k2 = tcbs k1"
        using ethernet_handle_carried [OF inv1 len] k2(1) by (simp add: delivered_def ip)
      then have "tcbs k2 = tcbs k" using k1(2) by simp
      from silent [of k2] this run ok2 None show ?thesis by simp
    next
      case (Some s)
      then have s: "run_segment s k1 = Some k2" "padded s"
        using ethernet_handle_carried [OF inv1 len] k2(1) by (simp_all add: delivered_def ip)
      from segment_simulates [OF sim1 s(2)] s(1) have "sim k2"
        "\<forall>q v. shows_conn k1 q v \<longrightarrow> (\<exists>v' \<in> set (view_step q s v). shows_conn k2 q v')" by simp_all
      moreover have "shows_conn k q v = shows_conn k1 q v" for q v by (rule shows_conn_cong [OF k1(2) [symmetric]])
      ultimately show ?thesis using run ok2 Some by (simp add: buffer_step_def rx_ok_def)
    qed
  qed
qed

section \<open>Runs of buffers\<close>

primrec deliver_all :: "(bytes \<times> u32) list \<Rightarrow> kstate \<Rightarrow> kstate option" where
  "deliver_all [] k = Some k"
| "deliver_all (b # bs) k = do { k \<leftarrow> rx_deliver (fst b) (snd b) k; deliver_all bs k }"

definition segments :: "u32 \<Rightarrow> (bytes \<times> u32) list \<Rightarrow> seg list" where
  "segments own = List.map_filter (delivered own)"

definition own_segments :: "ends \<Rightarrow> u32 \<Rightarrow> (bytes \<times> u32) list \<Rightarrow> seg list" where
  "own_segments q own bs = filter (\<lambda>s. own_event q s \<noteq> None) (segments own bs)"

lemma deliver_all_simulates:
  "sim k \<Longrightarrow> list_all buffer_ok bs \<Longrightarrow>
   \<exists>k'. deliver_all bs k = Some k' \<and> sim k'
     \<and> (\<forall>q v. shows_conn k q v \<longrightarrow> (\<exists>v' \<in> set (view_runs q (segments (aether_ip k) bs) v). shows_conn k' q v'))"
proof (induction bs arbitrary: k)
  case Nil
  then show ?case by (simp add: segments_def map_filter_simps)
next
  case (Cons b bs)
  obtain f n where b: "b = (f, n)" by (cases b)
  from Cons(3) have ok: "buffer_ok (f, n)" "list_all buffer_ok bs" by (simp_all add: b)
  from buffer_simulates [OF Cons(2) ok(1)] obtain k1 where k1: "rx_deliver f n k = Some k1" "sim k1" "aether_ip k1 = aether_ip k"
    "\<forall>q v. shows_conn k q v \<longrightarrow> (\<exists>v' \<in> set (buffer_step (aether_ip k) q (f, n) v). shows_conn k1 q v')" by blast
  from Cons(1) [OF k1(2) ok(2)] obtain k2 where k2: "deliver_all bs k1 = Some k2" "sim k2"
    "\<forall>q v. shows_conn k1 q v \<longrightarrow> (\<exists>v' \<in> set (view_runs q (segments (aether_ip k) bs) v). shows_conn k2 q v')"
    unfolding k1(3) by blast
  have "\<exists>v' \<in> set (view_runs q (segments (aether_ip k) (b # bs)) v). shows_conn k2 q v'" if v: "shows_conn k q v" for q v
  proof -
    from v k1(4) obtain v1 where v1: "v1 \<in> set (buffer_step (aether_ip k) q (f, n) v)" "shows_conn k1 q v1" by blast
    from v1(2) k2(3) obtain v2 where v2: "v2 \<in> set (view_runs q (segments (aether_ip k) bs) v1)" "shows_conn k2 q v2" by blast
    show ?thesis
    proof (cases "delivered (aether_ip k) (f, n)")
      case None
      then show ?thesis using v1(1) v2 by (auto simp: b segments_def map_filter_simps buffer_step_def)
    next
      case (Some s)
      then have "segments (aether_ip k) (b # bs) = s # segments (aether_ip k) bs"
        by (simp add: b segments_def map_filter_simps)
      moreover have "v1 \<in> set (view_step q s v)" using v1(1) Some by (simp add: buffer_step_def)
      ultimately show ?thesis using v2 by (intro bexI [of _ v2]) auto
    qed
  qed
  moreover have "deliver_all (b # bs) k = Some k2" using k1(1) k2(1) by (simp add: b)
  ultimately show ?case using k2(2) by blast
qed

section \<open>Properties\<close>

text \<open>
  C3: any run of buffers the driver delivers, whatever they hold, is handled without a fault, keeps
  the network invariant and at most one connection for each 4-tuple, and takes the connection of
  every 4-tuple to a state that the abstract TCP machine reaches on the accepted segments of that
  4-tuple alone, among those the buffers carry in valid IPv4 packets for this host. No other
  traffic, no bad frame, packet or segment and no send on the way makes a difference to it; the only
  freedom is that a SYN may find no memory.
\<close>

theorem connections_follow_their_own_segments:
  assumes "net_inv k" and "ends_unique k" and "list_all buffer_ok bs" and "shows_conn k q v"
  shows "\<exists>k' v'. deliver_all bs k = Some k' \<and> net_inv k' \<and> ends_unique k'
     \<and> shows_conn k' q v' \<and> v' \<in> set (view_runs q (own_segments q (aether_ip k) bs) v)"
proof -
  have "sim k" using assms(1,2) by (simp add: sim_def)
  from deliver_all_simulates [OF this assms(3)] assms(4) obtain k' v' where
    "deliver_all bs k = Some k'" "sim k'" "shows_conn k' q v'" "v' \<in> set (view_runs q (segments (aether_ip k) bs) v)" by blast
  then show ?thesis unfolding sim_def own_segments_def view_runs_own [symmetric] by blast
qed

text \<open>
  An HTTP exchange of one client, with a segment of another in between: the client's connection is
  gone at the end, and waits for the last acknowledgement before it, if it ever got memory.
\<close>

definition client :: ends where
  "client = (0x0A000202, 40001, 0x0A00020F, 80)"

definition client_packet :: "u8 \<Rightarrow> u8 \<Rightarrow> bytes \<Rightarrow> bytes" where
  "client_packet n c b = [0x45, 0, 0, n, 0, 1, 0, 0, 64, 6, c, 98, 10, 0, 2, 2, 10, 0, 2, 15] @ b @ [0, 0]"

definition client_buffer :: "u8 \<Rightarrow> u8 \<Rightarrow> bytes \<Rightarrow> bytes \<times> u32" where
  "client_buffer n c b =
     (AETHER_MAC_ADDR @ [2, 0, 0, 0, 0, 1, 8, 0] @ client_packet n c b, of_nat (length b) + 44)"

definition syn_bytes :: bytes where
  "syn_bytes = [156, 65, 0, 80, 0, 0, 27, 88, 0, 0, 0, 0, 80, 2, 32, 0, 198, 225, 0, 0]"

definition ack_bytes :: bytes where
  "ack_bytes = [156, 65, 0, 80, 0, 0, 27, 89, 0, 0, 0, 1, 80, 16, 32, 0, 198, 209, 0, 0]"

definition get_bytes :: bytes where
  "get_bytes = [156, 65, 0, 80, 0, 0, 27, 89, 0, 0, 0, 1, 80, 24, 32, 0, 232, 64, 0, 0,
     71, 69, 84, 32, 47, 13, 10, 13, 10]"

definition last_bytes :: bytes where
  "last_bytes = [156, 65, 0, 80, 0, 0, 27, 98, 0, 0, 0, 229, 80, 16, 32, 0, 197, 228, 0, 0]"

lemmas byte_defs = syn_bytes_def ack_bytes_def get_bytes_def last_bytes_def sample_segment_def

definition client_buffers :: "(bytes \<times> u32) list" where
  "client_buffers = [client_buffer 40 191 syn_bytes, client_buffer 44 187 sample_segment,
     client_buffer 40 191 ack_bytes, client_buffer 49 182 get_bytes, client_buffer 40 191 last_bytes]"

definition client_segment :: "bytes \<Rightarrow> seg" where
  "client_segment b = (b @ [0, 0], of_nat (length b), 0x0A000202, 0x0A00020F)"

lemma be_sum_0: "be_sum p 0 s = Some s"
  by (cases "(p, 0 :: nat, s)" rule: be_sum.cases) simp_all

lemma client_checksums:
  "ipv4_checksum ((client_packet 40 191 b)[10 := 0, 11 := 0]) 20 = Some (le16 191 98)"
  "ipv4_checksum ((client_packet 44 187 b)[10 := 0, 11 := 0]) 20 = Some (le16 187 98)"
  "ipv4_checksum ((client_packet 49 182 b)[10 := 0, 11 := 0]) 20 = Some (le16 182 98)"
  by (simp_all add: client_packet_def ipv4_checksum_def be_sum_0 fold_carry.simps le16_def)

lemma client_carried:
  "length b = 20 \<Longrightarrow> carried_ip 0x0A00020F (client_packet 40 191 b) 40 = Some (client_segment b)"
  "length b = 24 \<Longrightarrow> carried_ip 0x0A00020F (client_packet 44 187 b) 44 = Some (client_segment b)"
  "length b = 29 \<Longrightarrow> carried_ip 0x0A00020F (client_packet 49 182 b) 49 = Some (client_segment b)"
  using client_checksums [of b]
  by (simp_all add: carried_ip_def ipv4_cast_def client_segment_def Let_def
      client_packet_def le16_def le32_def ntohs_def htons_def ntohl_def htonl_def IP_PROTO_TCP_def)

lemma client_delivered:
  "delivered own (client_buffer n c b) = carried_ip own (client_packet n c b) (20 + of_nat (length b))"
  if "length b < 100"
proof -
  have "unat (of_nat (length b) :: u32) = length b" using that by (simp add: unat_of_nat)
  then have l: "unat (of_nat (length b) + 44 :: u32) = length b + 44" "unat (34 + of_nat (length b) :: u32) = length b + 34"
    using that by (simp_all add: unat_word_ariths)
  then have "10 < (of_nat (length b) + 44 :: u32)" "14 \<le> (34 + of_nat (length b) :: u32)"
    by (simp_all add: word_less_nat_alt word_le_nat_alt)
  then show ?thesis
    by (simp add: client_buffer_def delivered_def frame_length_def virtio_net_hdr_size_def carried_def
        AETHER_MAC_ADDR_def ld16_def le16_def bswap16_def ETH_TYPE_IPV4_def client_packet_def)
qed

lemma client_segments:
  "segments 0x0A00020F client_buffers =
     map client_segment [syn_bytes, sample_segment, ack_bytes, get_bytes, last_bytes]"
  by (simp add: segments_def client_buffers_def map_filter_simps client_delivered client_carried byte_defs)

lemma client_valid:
  "tcp_validate_checksum 0x0A000202 0x0A00020F (b @ [0, 0]) (of_nat (length b)) = Some True"
  if "b \<in> {syn_bytes, sample_segment, ack_bytes, get_bytes, last_bytes}" for b
  using that unfolding insert_iff empty_iff
  by (elim disjE; simp add: byte_defs; subst tcp_validate_total;
      simp add: tcp_total_def ip_halves_def le16_def htons_def)

lemma client_events:
  "own_event client (client_segment syn_bytes) = Some (2, 7000, 0)"
  "own_event client (client_segment ack_bytes) = Some (16, 7001, 0)"
  "own_event client (client_segment get_bytes) = Some (24, 7001, 9)"
  "own_event client (client_segment last_bytes) = Some (16, 7010, 0)"
  "own_event client (client_segment sample_segment) = None"
  using client_valid [of syn_bytes] client_valid [of ack_bytes] client_valid [of get_bytes]
    client_valid [of last_bytes] client_valid [of sample_segment]
  by (simp_all add: byte_defs client_segment_def own_event_def seg_accepted_def seg_hlen_def client_def tcp_cast_def
      le16_def le32_def ntohs_def ntohl_def htons_def htonl_def)

theorem connections_follow_their_own_segments_witness:
  "(\<exists>k v. deliver_all (take 4 client_buffers) (boot_state (\<lambda>_. 0) 0) = Some k
       \<and> shows_conn k client v \<and> v \<in> {None, Some (TCP_STATE_LAST_ACK, 7010)})
   \<and> (\<exists>k. deliver_all client_buffers (boot_state (\<lambda>_. 0) 0) = Some k \<and> shows_conn k client None)"
proof -
  let ?k = "boot_state (\<lambda>_. 0) 0"
  have start: "ends_unique ?k" "shows_conn ?k client None" and ip: "aether_ip ?k = 0x0A00020F"
    by (simp_all add: ends_unique_def shows_conn_def boot_state_def AETHER_IP_ADDR_def)
  have ok: "list_all buffer_ok client_buffers"
    by (simp add: client_buffers_def client_buffer_def client_packet_def buffer_ok_def AETHER_MAC_ADDR_def byte_defs)
  then have ok4: "list_all buffer_ok (take 4 client_buffers)" by (simp add: client_buffers_def)
  have "segments 0x0A00020F (take 4 client_buffers) = take 4 (segments 0x0A00020F client_buffers)"
    by (simp add: segments_def client_buffers_def map_filter_simps client_delivered client_carried byte_defs)
  then have v: "set (view_runs client (own_segments client (aether_ip ?k) (take 4 client_buffers)) None)
      = {None, Some (TCP_STATE_LAST_ACK, 7010)}"
    "set (view_runs client (own_segments client (aether_ip ?k) client_buffers) None) = {None}"
    unfolding ip own_segments_def
    by (simp_all add: client_segments client_events view_step_def next_views_def tcp_spec_def tcp_flags
        client_def [THEN arg_cong, of "\<lambda>q. snd (snd (snd q))"])
  show ?thesis
    using connections_follow_their_own_segments [OF boot_net_inv start(1) ok start(2)]
      connections_follow_their_own_segments [OF boot_net_inv start(1) ok4 start(2)]
    unfolding v by blast
qed

end
