(* ===== verification/Entry.thy ===== *)
theory Entry
  imports Memory
begin

text \<open>
  The core a kernel image runs on and the entry code of the kernel (arch/aarch64/boot.S). The state
  is that of one core: general registers, stack pointer, program counter, the part of PSTATE a SPSR
  keeps in its low ten bits (the mask bits DAIF and the mode), the system registers the code touches
  and memory. Condition flags and barriers are not part of it. What the processor itself does at
  \<open>eret\<close> is written as the architecture describes it. The lemmas give the closed form of
  the loop that clears the BSS and say in what state \<open>kernel_main\<close> is entered.
\<close>

unbundle bit_operations_syntax

section \<open>The core\<close>

record core =
  xr :: "nat \<Rightarrow> u64"
  sp :: u64
  pc :: addr
  pstate :: u64
  mpidr_el1 :: u64
  vbar_el1 :: u64
  elr_el1 :: u64
  spsr_el1 :: u64
  esr_el1 :: u64
  far_el1 :: u64
  cpacr_el1 :: u64
  cnthctl_el2 :: u64
  cntvoff_el2 :: u64
  hcr_el2 :: u64
  spsr_el2 :: u64
  elr_el2 :: u64
  cmem :: ram

definition mov :: "nat \<Rightarrow> u64 \<Rightarrow> core \<Rightarrow> core" where
  "mov i v c = c\<lparr>xr := (xr c)(i := v)\<rparr>"

text \<open>The exception level, bits 3 and 2 of the mode, as \<open>CurrentEL\<close> shows it.\<close>

definition CurrentEL :: "core \<Rightarrow> u64" where
  "CurrentEL c = pstate c AND 0xC"

definition st64 :: "u64 \<Rightarrow> bytes" where
  "st64 w = st32 (ucast w) @ st32 (ucast (drop_bit 32 w))"

definition ld64 :: "bytes \<Rightarrow> u64" where
  "ld64 d = ucast (le32 (d ! 0) (d ! 1) (d ! 2) (d ! 3))
     OR push_bit 32 (ucast (le32 (d ! 4) (d ! 5) (d ! 6) (d ! 7)))"

text \<open>\<open>stp\<close> and \<open>ldp\<close> of two registers, \<open>str\<close> and \<open>ldr\<close> of one, relative to the stack pointer.\<close>

definition stp :: "nat \<Rightarrow> nat \<Rightarrow> u64 \<Rightarrow> core \<Rightarrow> core" where
  "stp i j off c = c\<lparr>cmem := ram_write (cmem c) (sp c + off) (st64 (xr c i) @ st64 (xr c j))\<rparr>"

definition str_x :: "nat \<Rightarrow> u64 \<Rightarrow> core \<Rightarrow> core" where
  "str_x i off c = c\<lparr>cmem := ram_write (cmem c) (sp c + off) (st64 (xr c i))\<rparr>"

definition ldr_x :: "nat \<Rightarrow> u64 \<Rightarrow> core \<Rightarrow> core" where
  "ldr_x i off c = mov i (ld64 (ram_read (cmem c) (sp c + off) 8)) c"

definition ldp :: "nat \<Rightarrow> nat \<Rightarrow> u64 \<Rightarrow> core \<Rightarrow> core" where
  "ldp i j off c =
     mov j (ld64 (ram_read (cmem c) (sp c + off + 8) 8)) (mov i (ld64 (ram_read (cmem c) (sp c + off) 8)) c)"

section \<open>Entry\<close>

text \<open>Where the linker script puts what the code names; \<open>bss_size\<close> counts 8-byte words.\<close>

record image =
  at_setup_fpu :: addr
  stack_top :: addr
  bss_start :: addr
  bss_size :: u64
  exception_vectors :: addr

text \<open>\<open>eret\<close> at level 2.\<close>

definition eret_el2 :: "core \<Rightarrow> core" where
  "eret_el2 c = c\<lparr>pc := elr_el2 c, pstate := spsr_el2 c\<rparr>"

definition leave_el2 :: "image \<Rightarrow> core \<Rightarrow> core" where
  "leave_el2 im c =
     (let c = mov 0 (cnthctl_el2 c) c;
          c = mov 0 (xr c 0 OR 3) c;
          c = c\<lparr>cnthctl_el2 := xr c 0\<rparr>;
          c = c\<lparr>cntvoff_el2 := 0\<rparr>;
          c = mov 0 (push_bit 31 1) c;
          c = mov 0 (xr c 0 OR push_bit 1 1) c;
          c = c\<lparr>hcr_el2 := xr c 0\<rparr>;
          c = mov 0 0x3c5 c;
          c = c\<lparr>spsr_el2 := xr c 0\<rparr>;
          c = mov 0 (at_setup_fpu im) c;
          c = c\<lparr>elr_el2 := xr c 0\<rparr>
      in eret_el2 c)"

function setup_bss :: "core \<Rightarrow> core" where
  "setup_bss c =
     (if xr c 1 = 0 then c
      else let c = c\<lparr>cmem := ram_write (cmem c) (xr c 0) (st64 0)\<rparr>;
               c = mov 0 (xr c 0 + 8) c;
               c = mov 1 (xr c 1 - 1) c
           in if xr c 1 \<noteq> 0 then setup_bss c else c)"
  by pat_completeness auto
termination
  by (relation "measure (\<lambda>c. unat (xr c 1))") (auto simp: mov_def unat_minus_one unat_gt_0)

declare setup_bss.simps [simp del]

definition setup_fpu :: "image \<Rightarrow> core \<Rightarrow> core" where
  "setup_fpu im c =
     (let c = mov 0 (push_bit 20 3) c;
          c = c\<lparr>cpacr_el1 := xr c 0\<rparr>;
          c = mov 0 (stack_top im) c;
          c = mov 0 (xr c 0 AND NOT 0xF) c;
          c = c\<lparr>sp := xr c 0\<rparr>;
          c = mov 0 (bss_start im) c;
          c = mov 1 (bss_size im) c
      in setup_bss c)"

text \<open>A core waits for ever at \<open>hang\<close>, or calls \<open>kernel_main\<close> in the state given.\<close>

datatype boot_outcome = Hang core | Kernel_main core

definition boot_start :: "image \<Rightarrow> core \<Rightarrow> boot_outcome" where
  "boot_start im c =
     (let c = mov 0 (mpidr_el1 c) c;
          c = mov 0 (xr c 0 AND 0xFF) c
      in if xr c 0 \<noteq> 0 then Hang c
         else let c = mov 0 (CurrentEL c) c;
                  c = mov 0 (xr c 0 AND 0xC) c;
                  c = mov 0 (drop_bit 2 (xr c 0)) c;
                  c = (if xr c 0 \<noteq> 2 then c else leave_el2 im c)
              in Kernel_main (setup_fpu im c))"

section \<open>Words in memory\<close>

lemma length_st64 [simp]: "length (st64 w) = 8"
  by (simp add: st64_def)

lemma ld64_st64 [simp]: "ld64 (st64 w) = w"
proof -
  have "ld64 (st64 w) = ucast (ucast w :: u32) OR push_bit 32 (ucast (ucast (drop_bit 32 w) :: u32))"
    by (simp add: ld64_def st64_def st32_def)
  also have "\<dots> = w"
    by (rule bit_word_eqI) (auto simp: bit_simps dest: bit_imp_le_length)
  finally show ?thesis .
qed

lemma ram_write_append:
  assumes "b = a + of_nat (length xs)" and "length xs + length ys \<le> 2 ^ 64"
  shows "ram_write (ram_write r a xs) b ys = ram_write r a (xs @ ys)"
proof
  fix x :: addr
  show "ram_write (ram_write r a xs) b ys x = ram_write r a (xs @ ys) x"
  proof (cases "ys = []")
    case False
    then have xs: "length xs < 2 ^ 64" using assms(2) by (cases ys) simp_all
    then have n: "unat (of_nat (length xs) :: addr) = length xs" by (rule unat_of_nat_u64)
    have d: "x - b = x - a - of_nat (length xs)" using assms(1) by simp
    show ?thesis
    proof (cases "unat (x - a) < length xs")
      case True
      then have "unat (x - b) = 2 ^ 64 + unat (x - a) - length xs"
        unfolding d by (subst unat_sub_if') (use n in simp)
      then have "\<not> unat (x - b) < length ys" using assms(2) by linarith
      then show ?thesis using True by (simp add: ram_write_def nth_append)
    next
      case False
      then have "unat (x - b) = unat (x - a) - length xs"
        unfolding d by (subst unat_sub_if') (use n in simp)
      then show ?thesis using False by (simp add: ram_write_def nth_append) arith
    qed
  qed (simp add: ram_write_def)
qed

lemma ram_read_slice:
  "k + n \<le> m \<Longrightarrow> ram_read r (a + of_nat k) n = take n (drop k (ram_read r a m))"
  by (rule nth_equalityI) (simp_all add: ram_read_def add.assoc)

section \<open>The state in which the kernel is entered\<close>

lemma st64_0: "st64 0 = replicate 8 0"
  by (simp add: st64_def st32_def eval_nat_numeral)

lemma setup_bss_closed:
  "8 * unat (xr c 1) \<le> 2 ^ 64 \<Longrightarrow>
   setup_bss c = c\<lparr>xr := (xr c)(0 := xr c 0 + 8 * xr c 1, 1 := 0),
     cmem := ram_write (cmem c) (xr c 0) (replicate (8 * unat (xr c 1)) 0)\<rparr>"
proof (induction c rule: setup_bss.induct)
  case (1 c)
  show ?case
  proof (cases "xr c 1 = 0")
    case True
    then show ?thesis
      by (subst setup_bss.simps) (auto simp: fun_upd_idem)
  next
    case False
    then have n: "unat (xr c 1) = Suc (unat (xr c 1 - 1))"
      by (simp add: unat_minus_one unat_gt_0)
    let ?d = "mov 1 (xr c 1 - 1) (mov 0 (xr c 0 + 8) (c\<lparr>cmem := ram_write (cmem c) (xr c 0) (st64 0)\<rparr>))"
    have w: "ram_write (ram_write (cmem c) (xr c 0) (st64 0)) (xr c 0 + 8) (replicate (8 * unat (xr c 1 - 1)) 0)
        = ram_write (cmem c) (xr c 0) (replicate (8 * unat (xr c 1)) 0)"
      using 1(2) n by (subst ram_write_append) (simp_all add: st64_0 replicate_add [symmetric])
    have "setup_bss c = (if xr c 1 - 1 = 0 then ?d else setup_bss ?d)"
      using False by (subst setup_bss.simps) (simp add: mov_def Let_def)
    also have "\<dots> = c\<lparr>xr := (xr c)(0 := xr c 0 + 8 * xr c 1, 1 := 0),
        cmem := ram_write (cmem c) (xr c 0) (replicate (8 * unat (xr c 1)) 0)\<rparr>"
    proof (cases "xr c 1 - 1 = 0")
      case True
      then have "xr c 1 = 1" by simp
      then show ?thesis by (simp add: mov_def st64_0)
    next
      case more: False
      have "setup_bss ?d = ?d\<lparr>xr := (xr ?d)(0 := xr ?d 0 + 8 * xr ?d 1, 1 := 0),
          cmem := ram_write (cmem ?d) (xr ?d 0) (replicate (8 * unat (xr ?d 1)) 0)\<rparr>"
        using 1(1) [OF False refl refl refl] 1(2) n more by (simp add: mov_def fun_eq_iff)
      then show ?thesis
        using more w by (simp add: mov_def algebra_simps)
    qed
    finally show ?thesis .
  qed
qed

lemma level_bits:
  assumes "CurrentEL c = 4 \<or> CurrentEL c = 8"
  shows "drop_bit 2 (CurrentEL c AND 0xC) = 2 \<longleftrightarrow> CurrentEL c = 8"
  using assms by auto

text \<open>What \<open>kernel_main\<close> may rely on, and what a core that does not reach it has done.\<close>

definition entered_from :: "core \<Rightarrow> image \<Rightarrow> core \<Rightarrow> bool" where
  "entered_from c im c' \<longleftrightarrow>
     CurrentEL c' = 4
     \<and> (CurrentEL c = 8 \<longrightarrow> c'\<lparr>xr := xr c, sp := sp c, cmem := cmem c\<rparr> = c\<lparr>pc := at_setup_fpu im, pstate := 0x3c5,
          cpacr_el1 := 0x300000, cnthctl_el2 := cnthctl_el2 c OR 3, cntvoff_el2 := 0, hcr_el2 := 0x80000002,
          spsr_el2 := 0x3c5, elr_el2 := at_setup_fpu im\<rparr>)
     \<and> (CurrentEL c = 4 \<longrightarrow> c'\<lparr>xr := xr c, sp := sp c, cmem := cmem c\<rparr> = c\<lparr>cpacr_el1 := 0x300000\<rparr>)
     \<and> sp c' = stack_top im AND NOT 0xF
     \<and> cmem c' = ram_write (cmem c) (bss_start im) (replicate (8 * unat (bss_size im)) 0)"

text \<open>
  C12: the entry code, from any registers and memory, on a core that the firmware starts at level 1 or
  2. Core 0 calls \<open>kernel_main\<close> at level 1 with floating point enabled, the stack pointer at the
  top of the stack rounded down to 16 bytes and exactly the words of the BSS cleared; started at level
  2 it has first opened the timer to level 1, set 64-bit execution and masked all interrupts, and
  nothing else of the system registers has changed. Every other core waits, its memory untouched.
\<close>

theorem boot_reaches_kernel_main:
  assumes "CurrentEL c = 4 \<or> CurrentEL c = 8" and "8 * unat (bss_size im) \<le> 2 ^ 64"
  shows "case boot_start im c of
       Kernel_main c' \<Rightarrow> mpidr_el1 c AND 0xFF = 0 \<and> entered_from c im c'
     | Hang c' \<Rightarrow> mpidr_el1 c AND 0xFF \<noteq> 0 \<and> c'\<lparr>xr := xr c\<rparr> = c"
proof (cases "mpidr_el1 c AND 0xFF = 0")
  case False
  then show ?thesis by (simp add: boot_start_def mov_def Let_def)
next
  case True
  define d where "d = mov 0 (drop_bit 2 (CurrentEL c AND 0xC)) c"
  have b: "boot_start im c = Kernel_main (setup_fpu im (if CurrentEL c = 8 then leave_el2 im d else d))"
    using True level_bits [OF assms(1)]
    by (simp add: boot_start_def mov_def Let_def d_def CurrentEL_def)
  show ?thesis using assms
    by (auto simp: b True setup_fpu_def setup_bss_closed entered_from_def leave_el2_def eret_el2_def
        d_def mov_def Let_def CurrentEL_def)
qed

text \<open>A core that the firmware starts at level 2, with an image whose stack top is not aligned.\<close>

definition started_core :: core where
  "started_core = \<lparr>xr = (\<lambda>_. 0), sp = 0, pc = 0x40080000, pstate = 0x3c9, mpidr_el1 = 0x80000000,
     vbar_el1 = 0, elr_el1 = 0, spsr_el1 = 0, esr_el1 = 0, far_el1 = 0, cpacr_el1 = 0,
     cnthctl_el2 = 0, cntvoff_el2 = 9, hcr_el2 = 0, spsr_el2 = 0, elr_el2 = 0, cmem = (\<lambda>_. 0xAA)\<rparr>"

definition sample_image :: image where
  "sample_image = \<lparr>at_setup_fpu = 0x40080060, stack_top = 0x40100008, bss_start = 0x40090000, bss_size = 16,
     exception_vectors = 0x40082000\<rparr>"

theorem boot_reaches_kernel_main_witness:
  "case boot_start sample_image started_core of
     Kernel_main c \<Rightarrow> CurrentEL c = 4 \<and> sp c = 0x40100000 \<and> cmem c 0x4009007F = 0 \<and> cmem c 0x40090080 = 0xAA
   | Hang _ \<Rightarrow> False"
  using boot_reaches_kernel_main [of started_core sample_image]
  by (simp add: started_core_def sample_image_def CurrentEL_def entered_from_def ram_write_def
      split: boot_outcome.splits)

end
