(* ===== verification/Vectors.thy ===== *)
theory Vectors
  imports Entry Timer
begin

text \<open>
  The exception vectors (arch/aarch64/vectors.S) and the interrupt mask (src/common/asm_utils.S), on
  the core of the theory Entry, joined to the C handlers of the theory Timer. The lemmas show that
  the assembly of an interrupt saves and restores what the interrupted code uses, for every C
  function that keeps the calling convention, and that the panic screen shows the registers of the
  faulting code.
\<close>

unbundle bit_operations_syntax

section \<open>The interrupt mask\<close>

definition enable_interrupts :: "core \<Rightarrow> core" where
  "enable_interrupts c = c\<lparr>pstate := pstate c AND NOT (push_bit 7 1)\<rparr>"

definition disable_interrupts :: "core \<Rightarrow> core" where
  "disable_interrupts c = c\<lparr>pstate := pstate c OR push_bit 7 1\<rparr>"

section \<open>Exceptions\<close>

definition exceptions_init :: "image \<Rightarrow> core \<Rightarrow> core" where
  "exceptions_init im c = (let c = mov 0 (exception_vectors im) c in c\<lparr>vbar_el1 := xr c 0\<rparr>)"

datatype exception_label = Sync_el1h | Irq_el1h | Invalid_exception_handler

definition exception_vector_table :: "exception_label list" where
  "exception_vector_table =
     [Invalid_exception_handler, Invalid_exception_handler, Invalid_exception_handler, Invalid_exception_handler]
     @ [Sync_el1h, Irq_el1h, Invalid_exception_handler, Invalid_exception_handler]
     @ replicate 4 Invalid_exception_handler
     @ replicate 4 Invalid_exception_handler"

text \<open>The processor takes an exception to level 1 and finds its entry of 128 bytes; it sets the
  syndrome and the faulting address.\<close>

datatype exception_kind = Synchronous | Irq | Fiq | Serror

primrec kind_number :: "exception_kind \<Rightarrow> nat" where
  "kind_number Synchronous = 0"
| "kind_number Irq = 1"
| "kind_number Fiq = 2"
| "kind_number Serror = 3"

definition vector_group :: "u64 \<Rightarrow> nat" where
  "vector_group p = (if p AND 0xC = 0 then 2 else if p AND 1 = 0 then 0 else 1)"

definition take_exception :: "exception_kind \<Rightarrow> u64 \<Rightarrow> u64 \<Rightarrow> core \<Rightarrow> core" where
  "take_exception k esr far c = c\<lparr>elr_el1 := pc c, spsr_el1 := pstate c,
     esr_el1 := esr, far_el1 := far, pstate := 0x3c5,
     pc := vbar_el1 c + of_nat (512 * vector_group (pstate c) + 128 * kind_number k)\<rparr>"

definition vector_label :: "image \<Rightarrow> core \<Rightarrow> exception_label option" where
  "vector_label im c =
     (let off = unat (pc c - exception_vectors im)
      in if off mod 128 = 0 \<and> off div 128 < 16 then Some (exception_vector_table ! (off div 128)) else None)"

definition kernel_entry :: "core \<Rightarrow> core" where
  "kernel_entry c =
     (let c = c\<lparr>sp := sp c - 256\<rparr>;
          c = stp 0 1 (16 * 0) c;
          c = stp 2 3 (16 * 1) c;
          c = stp 4 5 (16 * 2) c;
          c = stp 6 7 (16 * 3) c;
          c = stp 8 9 (16 * 4) c;
          c = stp 10 11 (16 * 5) c;
          c = stp 12 13 (16 * 6) c;
          c = stp 14 15 (16 * 7) c;
          c = stp 16 17 (16 * 8) c;
          c = stp 18 19 (16 * 9) c;
          c = stp 20 21 (16 * 10) c;
          c = stp 22 23 (16 * 11) c;
          c = stp 24 25 (16 * 12) c;
          c = stp 26 27 (16 * 13) c;
          c = stp 28 29 (16 * 14) c
      in str_x 30 (16 * 15) c)"

text \<open>\<open>eret\<close> at level 1.\<close>

definition eret_el1 :: "core \<Rightarrow> core" where
  "eret_el1 c = c\<lparr>pc := elr_el1 c, pstate := spsr_el1 c\<rparr>"

definition kernel_exit :: "core \<Rightarrow> core" where
  "kernel_exit c =
     (let c = ldr_x 30 (16 * 15) c;
          c = ldp 28 29 (16 * 14) c;
          c = ldp 26 27 (16 * 13) c;
          c = ldp 24 25 (16 * 12) c;
          c = ldp 22 23 (16 * 11) c;
          c = ldp 20 21 (16 * 10) c;
          c = ldp 18 19 (16 * 9) c;
          c = ldp 16 17 (16 * 8) c;
          c = ldp 14 15 (16 * 7) c;
          c = ldp 12 13 (16 * 6) c;
          c = ldp 10 11 (16 * 5) c;
          c = ldp 8 9 (16 * 4) c;
          c = ldp 6 7 (16 * 3) c;
          c = ldp 4 5 (16 * 2) c;
          c = ldp 2 3 (16 * 1) c;
          c = ldp 0 1 (16 * 0) c;
          c = c\<lparr>sp := sp c + 256\<rparr>
      in eret_el1 c)"

text \<open>
  The arguments of the C handlers, in x0 to x3. The call itself puts a return address in x30, which
  the handler saves like any other register; it is part of what the handler may change.
\<close>

definition handler_arguments :: "core \<Rightarrow> core" where
  "handler_arguments c =
     (let c = mov 0 (esr_el1 c) c; c = mov 1 (elr_el1 c) c; c = mov 2 (far_el1 c) c in mov 3 (sp c) c)"

definition irq_el1h :: "(core \<times> 's \<Rightarrow> core \<times> 's) \<Rightarrow> core \<times> 's \<Rightarrow> core \<times> 's" where
  "irq_el1h handler = (\<lambda>(c, s).
     let (c, s) = handler (handler_arguments (kernel_entry c), s) in (kernel_exit c, s))"

text \<open>The panic handler does not return; its frame is the 31 registers at the address in x3.\<close>

definition trap_frame :: "ram \<Rightarrow> addr \<Rightarrow> u64 list" where
  "trap_frame m a = map (\<lambda>i. ld64 (ram_read m (a + of_nat (8 * i)) 8)) [0..<31]"

definition sync_el1h :: "core \<Rightarrow> uart \<Rightarrow> uart option" where
  "sync_el1h c u =
     (let c = handler_arguments (kernel_entry c)
      in handle_sync_exception (xr c 0) (xr c 1) (xr c 2) (trap_frame (cmem c) (xr c 3)) u)"

text \<open>The other vectors store one letter to the serial port and wait for ever.\<close>

definition invalid_exception_handler :: "core \<Rightarrow> addr \<times> u32" where
  "invalid_exception_handler c =
     (let c = mov 4 0x09000000 c; c = mov 5 69 c in (xr c 4, ucast (xr c 5)))"

section \<open>The saved registers\<close>

definition reg_bytes :: "u64 list \<Rightarrow> bytes" where
  "reg_bytes xs = concat (map st64 xs)"

lemma length_reg_bytes [simp]: "length (reg_bytes xs) = 8 * length xs"
  by (induction xs) (simp_all add: reg_bytes_def)

lemma reg_bytes_nth: "i < length xs \<Longrightarrow> take 8 (drop (8 * i) (reg_bytes xs)) = st64 (xs ! i)"
proof (induction xs arbitrary: i)
  case (Cons x xs)
  then show ?case by (cases i) (simp_all add: reg_bytes_def)
qed simp

lemma trap_reg_bytes:
  assumes "ram_read m a 248 = reg_bytes xs" and "length xs = 31"
  shows "trap_frame m a = xs"
proof (rule nth_equalityI)
  show "length (trap_frame m a) = length xs" using assms(2) by (simp add: trap_frame_def)
  fix i assume "i < length (trap_frame m a)"
  then have i: "i < 31" by (simp add: trap_frame_def)
  then have "ram_read m (a + of_nat (8 * i)) 8 = st64 (xs ! i)"
    using assms by (subst ram_read_slice [where m = 248]) (simp_all add: reg_bytes_nth)
  then show "trap_frame m a ! i = xs ! i" using i by (simp add: trap_frame_def)
qed

lemma upt_31: "[0..<31] = [0, 1, 2, 3, 4, 5, 6, 7, 8, 9, 10, 11, 12, 13, 14, 15, 16, 17, 18, 19, 20, 21,
    22, 23, 24, 25, 26, 27, 28, 29, 30 :: nat]"
  by (simp add: upt_conv_Cons eval_nat_numeral)

definition registers :: "core \<Rightarrow> u64 list" where
  "registers c = map (xr c) [0..<31]"

lemma kernel_entry_closed:
  "kernel_entry c = c\<lparr>sp := sp c - 256, cmem := ram_write (cmem c) (sp c - 256) (reg_bytes (registers c))\<rparr>"
  by (simp add: kernel_entry_def stp_def str_x_def registers_def reg_bytes_def ram_write_append
      upt_31 Let_def)

lemma kernel_exit_loads:
  "kernel_exit c = c\<lparr>xr := (xr c)(30 := ld64 (ram_read (cmem c) (sp c + 240) 8), 28 := ld64 (ram_read (cmem c) (sp c + 224)
     8), 29 := ld64 (ram_read (cmem c) (sp c + 232) 8), 26 := ld64 (ram_read (cmem c) (sp c +
     208) 8), 27 := ld64 (ram_read (cmem c) (sp c + 216) 8), 24 := ld64 (ram_read (cmem c) (sp c
     + 192) 8), 25 := ld64 (ram_read (cmem c) (sp c + 200) 8), 22 := ld64 (ram_read (cmem c) (sp
     c + 176) 8), 23 := ld64 (ram_read (cmem c) (sp c + 184) 8), 20 := ld64 (ram_read (cmem c)
     (sp c + 160) 8), 21 := ld64 (ram_read (cmem c) (sp c + 168) 8), 18 := ld64 (ram_read (cmem
     c) (sp c + 144) 8), 19 := ld64 (ram_read (cmem c) (sp c + 152) 8), 16 := ld64 (ram_read
     (cmem c) (sp c + 128) 8), 17 := ld64 (ram_read (cmem c) (sp c + 136) 8), 14 := ld64
     (ram_read (cmem c) (sp c + 112) 8), 15 := ld64 (ram_read (cmem c) (sp c + 120) 8), 12 :=
     ld64 (ram_read (cmem c) (sp c + 96) 8), 13 := ld64 (ram_read (cmem c) (sp c + 104) 8), 10 :=
     ld64 (ram_read (cmem c) (sp c + 80) 8), 11 := ld64 (ram_read (cmem c) (sp c + 88) 8), 8 :=
     ld64 (ram_read (cmem c) (sp c + 64) 8), 9 := ld64 (ram_read (cmem c) (sp c + 72) 8), 6 :=
     ld64 (ram_read (cmem c) (sp c + 48) 8), 7 := ld64 (ram_read (cmem c) (sp c + 56) 8), 4 :=
     ld64 (ram_read (cmem c) (sp c + 32) 8), 5 := ld64 (ram_read (cmem c) (sp c + 40) 8), 2 :=
     ld64 (ram_read (cmem c) (sp c + 16) 8), 3 := ld64 (ram_read (cmem c) (sp c + 24) 8), 0 :=
     ld64 (ram_read (cmem c) (sp c) 8), 1 := ld64 (ram_read (cmem c) (sp c + 8) 8)),
     sp := sp c + 256, pc := elr_el1 c, pstate := spsr_el1 c\<rparr>"
  by (simp add: kernel_exit_def ldp_def ldr_x_def mov_def eret_el1_def Let_def add.commute)

lemma kernel_exit_closed:
  "kernel_exit c = c\<lparr>xr := (\<lambda>i. if i < 31 then trap_frame (cmem c) (sp c) ! i else xr c i),
     sp := sp c + 256, pc := elr_el1 c, pstate := spsr_el1 c\<rparr>"
proof -
  have "xr (kernel_exit c) i = (if i < 31 then trap_frame (cmem c) (sp c) ! i else xr c i)" for i
  proof (cases "i < 31")
    case True
    then have "i \<in> set [0..<31]" by simp
    then have "i = 0 \<or> i = 1 \<or> i = 2 \<or> i = 3 \<or> i = 4 \<or> i = 5 \<or> i = 6 \<or> i = 7 \<or> i = 8 \<or> i = 9 \<or> i = 10
       \<or> i = 11 \<or> i = 12 \<or> i = 13 \<or> i = 14 \<or> i = 15 \<or> i = 16 \<or> i = 17 \<or> i = 18 \<or> i = 19 \<or> i = 20
       \<or> i = 21 \<or> i = 22 \<or> i = 23 \<or> i = 24 \<or> i = 25 \<or> i = 26 \<or> i = 27 \<or> i = 28 \<or> i = 29 \<or> i = 30"
      unfolding upt_31 by simp
    then show ?thesis
      by (elim disjE) (simp_all add: kernel_exit_loads trap_frame_def)
  qed (simp add: kernel_exit_loads)
  then show ?thesis by (simp add: kernel_exit_loads fun_eq_iff)
qed

section \<open>An interrupt\<close>

text \<open>
  An interrupt waits while the mask bit I is set. Taken, it runs the code at its vector: the result
  is the state in which the interrupted code goes on, or None when no entry of the table returns.
\<close>

definition interrupt :: "image \<Rightarrow> (core \<times> 's \<Rightarrow> core \<times> 's) \<Rightarrow> u64 \<Rightarrow> u64 \<Rightarrow> core \<times> 's \<Rightarrow> (core \<times> 's) option" where
  "interrupt im handler esr far = (\<lambda>(c, s).
     if pstate c AND push_bit 7 1 \<noteq> 0 then Some (c, s)
     else let c = take_exception Irq esr far c
          in if vector_label im c = Some Irq_el1h then Some (irq_el1h handler (c, s)) else None)"

lemma mode_bits: "p AND 0xF = 5 \<Longrightarrow> p AND 0xC = 4 \<and> p AND 1 = 1" for p :: u64
proof -
  assume p: "p AND 0xF = 5"
  have "p AND 0xC = (p AND 0xF) AND 0xC" and "p AND 1 = (p AND 0xF) AND 1"
    by (simp_all add: and.assoc)
  then show "p AND 0xC = 4 \<and> p AND 1 = 1" by (simp add: p)
qed

lemma kind_number_less: "kind_number k < 4"
  by (cases k) simp_all

lemma vector_label_taken:
  assumes "vbar_el1 c = exception_vectors im"
  shows "vector_label im (take_exception k esr far c) =
     Some (exception_vector_table ! (4 * vector_group (pstate c) + kind_number k))"
proof -
  let ?n = "4 * vector_group (pstate c) + kind_number k"
  have n: "?n < 16" using kind_number_less [of k] by (simp add: vector_group_def)
  have "pc (take_exception k esr far c) - exception_vectors im = of_nat (128 * ?n)"
    using assms by (simp add: take_exception_def algebra_simps)
  moreover have "unat (of_nat (128 * ?n) :: u64) = 128 * ?n"
    using n by (intro unat_of_nat_u64) simp
  ultimately show ?thesis using n by (simp add: vector_label_def Let_def)
qed

lemma vector_label_el1h:
  assumes "vbar_el1 c = exception_vectors im" and "pstate c AND 0xF = 5"
  shows "vector_label im (take_exception Irq esr far c) = Some Irq_el1h"
    and "vector_label im (take_exception Synchronous esr far c) = Some Sync_el1h"
  using mode_bits [OF assms(2)]
  by (simp_all add: vector_label_taken [OF assms(1)] vector_group_def exception_vector_table_def)

section \<open>The calling convention\<close>

text \<open>The addresses of the \<open>n\<close> bytes below a stack pointer.\<close>

definition below :: "addr \<Rightarrow> nat \<Rightarrow> addr set" where
  "below a n = {x. unat (x - (a - of_nat n)) < n}"

lemma below_mono:
  assumes "x \<in> below a m" and "m \<le> n" and "n \<le> 2 ^ 64"
  shows "x \<in> below a n"
proof -
  have eq: "x - (a - of_nat n) = (x - (a - of_nat m)) + of_nat (n - m)"
    using assms(2) by (simp add: of_nat_diff)
  have "unat (x - (a - of_nat n)) \<le> unat (x - (a - of_nat m)) + (n - m)"
    unfolding eq by (simp add: unat_word_ariths unat_of_nat)
  then show ?thesis using assms(1,2) by (simp add: below_def)
qed

lemma below_below: "x \<in> below (a - of_nat k) m \<Longrightarrow> x \<in> below a (k + m)"
  by (simp add: below_def diff_diff_eq)

lemma not_below:
  assumes "i < k" and "k + m \<le> 2 ^ 64"
  shows "a - of_nat k + of_nat i \<notin> below (a - of_nat k) m"
proof -
  have "a - of_nat k + of_nat i - (a - of_nat k - of_nat m) = (of_nat (i + m) :: u64)"
    by simp
  moreover have "unat (of_nat (i + m) :: u64) = i + m"
    using assms by (intro unat_of_nat_u64) simp
  ultimately show ?thesis by (simp add: below_def)
qed

lemma ram_write_outside: "x \<notin> below a n \<Longrightarrow> length bs \<le> n \<Longrightarrow> ram_write r (a - of_nat n) bs x = r x"
  by (simp add: below_def ram_write_def)

text \<open>
  A C function on the core: it works on its own state and on the core, may change every general
  register, the memory of its static variables \<open>own\<close> and \<open>use\<close> bytes of the stack, and
  leaves the rest as it is.
\<close>

locale c_function =
  fixes f :: "core \<times> 's \<Rightarrow> core \<times> 's"
    and own :: "addr set"
    and use :: nat
  assumes frame: "fst (f (c, s)) = c\<lparr>xr := xr (fst (f (c, s))), pc := pc (fst (f (c, s))), cmem := cmem (fst (f (c, s)))\<rparr>"
    and memory: "a \<notin> own \<Longrightarrow> a \<notin> below (sp c) use \<Longrightarrow> cmem (fst (f (c, s))) a = cmem c a"
begin

lemma keeps:
  "sp (fst (f (c, s))) = sp c" "elr_el1 (fst (f (c, s))) = elr_el1 c" "spsr_el1 (fst (f (c, s))) = spsr_el1 c"
  by (subst frame, simp)+

lemma saved_registers:
  assumes "256 + use \<le> 2 ^ 64" and "own \<inter> below (sp c) (256 + use) = {}"
  shows "trap_frame (cmem (fst (f (handler_arguments (kernel_entry c), s)))) (sp c - 256) = registers c"
proof (rule trap_reg_bytes)
  let ?c = "handler_arguments (kernel_entry c)"
  have sp: "sp ?c = sp c - 256" and m: "cmem ?c = ram_write (cmem c) (sp c - 256) (reg_bytes (registers c))"
    by (simp_all add: handler_arguments_def mov_def Let_def kernel_entry_closed)
  have "cmem (fst (f (?c, s))) (sp c - 256 + of_nat i) = cmem ?c (sp c - 256 + of_nat i)" if "i < 248" for i
  proof (rule memory)
    have "sp c - 256 + of_nat i - (sp c - 256) = (of_nat i :: u64)" by simp
    moreover have "unat (of_nat i :: u64) = i" using that by (intro unat_of_nat_u64) simp
    ultimately have "sp c - 256 + of_nat i \<in> below (sp c) 256" using that by (simp add: below_def)
    then have "sp c - 256 + of_nat i \<in> below (sp c) (256 + use)" by (rule below_mono [OF _ _ assms(1)]) simp
    then show "sp c - 256 + of_nat i \<notin> own" using assms(2) by blast
    show "sp c - 256 + of_nat i \<notin> below (sp ?c) use"
      using not_below [of i 256 use "sp c"] that assms(1) sp by simp
  qed
  then have "ram_read (cmem (fst (f (?c, s)))) (sp c - 256) 248 = ram_read (cmem ?c) (sp c - 256) 248"
    by (simp add: ram_read_def)
  also have "\<dots> = reg_bytes (registers c)"
    unfolding m using ram_read_write_same [of "reg_bytes (registers c)"] by (simp add: registers_def)
  finally show "ram_read (cmem (fst (f (?c, s)))) (sp c - 256) 248 = reg_bytes (registers c)" .
qed (simp add: registers_def)

lemma irq_el1h_restores:
  assumes "256 + use \<le> 2 ^ 64" and "own \<inter> below (sp c) (256 + use) = {}"
  shows "snd (irq_el1h f (c, s)) = snd (f (handler_arguments (kernel_entry c), s))"
    and "registers (fst (irq_el1h f (c, s))) = registers c"
    and "sp (fst (irq_el1h f (c, s))) = sp c"
    and "pc (fst (irq_el1h f (c, s))) = elr_el1 c"
    and "pstate (fst (irq_el1h f (c, s))) = spsr_el1 c"
    and "cmem (fst (irq_el1h f (c, s))) = cmem (fst (f (handler_arguments (kernel_entry c), s)))"
    and "a \<notin> own \<union> below (sp c) (256 + use) \<Longrightarrow> cmem (fst (irq_el1h f (c, s))) a = cmem c a"
proof -
  let ?c = "handler_arguments (kernel_entry c)"
  have eq: "irq_el1h f (c, s) = (kernel_exit (fst (f (?c, s))), snd (f (?c, s)))"
    by (simp add: irq_el1h_def split: prod.split)
  have c: "sp ?c = sp c - 256" "elr_el1 ?c = elr_el1 c" "spsr_el1 ?c = spsr_el1 c"
    by (simp_all add: handler_arguments_def mov_def Let_def kernel_entry_closed)
  show "snd (irq_el1h f (c, s)) = snd (f (?c, s))" "sp (fst (irq_el1h f (c, s))) = sp c"
    "pc (fst (irq_el1h f (c, s))) = elr_el1 c" "pstate (fst (irq_el1h f (c, s))) = spsr_el1 c"
    "cmem (fst (irq_el1h f (c, s))) = cmem (fst (f (?c, s)))"
    by (simp_all add: eq kernel_exit_closed keeps c)
  show "registers (fst (irq_el1h f (c, s))) = registers c"
    using saved_registers [OF assms, of s] unfolding eq
    by (simp add: kernel_exit_closed keeps c registers_def)
  assume a: "a \<notin> own \<union> below (sp c) (256 + use)"
  have "a \<notin> below (sp c - 256) use"
    using a below_below [of a "sp c" 256 use] by auto
  moreover have "a \<notin> below (sp c) 256"
    using a below_mono [of a "sp c" 256 "256 + use"] assms(1) by auto
  then have "cmem ?c a = cmem c a"
    using ram_write_outside [of a "sp c" 256 "reg_bytes (registers c)" "cmem c"]
    by (simp add: handler_arguments_def mov_def Let_def kernel_entry_closed registers_def)
  ultimately show "cmem (fst (irq_el1h f (c, s))) a = cmem c a"
    using a memory [of a ?c s] c(1) by (simp add: eq kernel_exit_closed)
qed

end

text \<open>
  handle_irq_exception as a compiled function: it leaves any values in the registers and any bytes on
  its stack, and stores the clock in its static variable.
\<close>

definition compiled_irq_handler :: "addr \<Rightarrow> bytes \<Rightarrow> (nat \<Rightarrow> u64) \<Rightarrow> u32 \<Rightarrow> core \<times> cpu \<Rightarrow> core \<times> cpu" where
  "compiled_irq_handler clock stack regs iar = (\<lambda>(c, s).
     let s = handle_irq_exception iar s;
         m = ram_write (cmem c) (sp c - of_nat (length stack)) stack
     in (c\<lparr>xr := regs, pc := regs 30, cmem := ram_write m clock (st64 (uptime_ms (tmr s)))\<rparr>, s))"

lemma compiled_irq_handler_state: "snd (compiled_irq_handler clock stack regs iar (c, s)) = handle_irq_exception iar s"
  by (simp add: compiled_irq_handler_def Let_def)

lemma compiled_irq_handler_clock:
  "ld64 (ram_read (cmem (fst (compiled_irq_handler clock stack regs iar (c, s)))) clock 8)
     = uptime_ms (tmr (handle_irq_exception iar s))"
  using ram_read_write_same [of "st64 w" for w] by (simp add: compiled_irq_handler_def Let_def)

definition clock_bytes :: "addr \<Rightarrow> addr set" where
  "clock_bytes clock = {x. unat (x - clock) < 8}"

interpretation irq: c_function "compiled_irq_handler clock stack regs iar" "clock_bytes clock" "length stack"
  for clock stack regs iar
proof
  fix c :: core and s :: cpu and a :: addr
  let ?f = "compiled_irq_handler clock stack regs iar"
  show "fst (?f (c, s)) = c\<lparr>xr := xr (fst (?f (c, s))), pc := pc (fst (?f (c, s))), cmem := cmem (fst (?f (c, s)))\<rparr>"
    by (simp add: compiled_irq_handler_def Let_def)
  assume "a \<notin> clock_bytes clock" and "a \<notin> below (sp c) (length stack)"
  then show "cmem (fst (?f (c, s))) a = cmem c a"
    by (simp add: compiled_irq_handler_def Let_def clock_bytes_def below_def ram_write_def)
qed

lemma sync_el1h_frame:
  "sync_el1h c u = handle_sync_exception (esr_el1 c) (elr_el1 c) (far_el1 c) (registers c) u"
proof -
  let ?m = "ram_write (cmem c) (sp c - 256) (reg_bytes (registers c))"
  have "ram_read ?m (sp c - 256) 248 = reg_bytes (registers c)"
    using ram_read_write_same [of "reg_bytes (registers c)"] by (simp add: registers_def)
  then have "trap_frame ?m (sp c - 256) = registers c"
    by (rule trap_reg_bytes) (simp add: registers_def)
  then show ?thesis
    by (simp add: sync_el1h_def handler_arguments_def mov_def Let_def kernel_entry_closed)
qed

text \<open>After the entry from level 2, \<open>exceptions_init\<close> and \<open>enable_interrupts\<close>, interrupts are taken.\<close>

lemma ready_for_interrupts:
  assumes "entered_from c im c'" and "CurrentEL c = 8"
  defines "d \<equiv> enable_interrupts (exceptions_init im c')"
  shows "vbar_el1 d = exception_vectors im" and "pstate d AND 0xF = 5" and "pstate d AND push_bit 7 1 = 0"
proof -
  have "pstate (c'\<lparr>xr := xr c, sp := sp c, cmem := cmem c\<rparr>) = 0x3c5"
    using assms(1,2) by (simp add: entered_from_def)
  then show "vbar_el1 d = exception_vectors im" "pstate d AND 0xF = 5" "pstate d AND push_bit 7 1 = 0"
    by (simp_all add: d_def enable_interrupts_def exceptions_init_def mov_def Let_def)
qed

section \<open>Properties\<close>

text \<open>
  C6: an interrupt of code at level 1 with its own stack pointer is transparent to it: whatever the
  compiled handler leaves in the registers and on its stack, the code goes on at its next instruction
  with its 31 registers, stack pointer, mode and mask bits, and with all its memory but the bytes below
  its stack pointer that the interrupt used; the state of the kernel is that after
  \<open>handle_irq_exception\<close>, and the variable of the clock holds the new uptime. The static variable
  must lie apart from the stack.
\<close>

theorem interrupt_is_transparent:
  assumes "vbar_el1 c = exception_vectors im" and "pstate c AND 0xF = 5" and "pstate c AND push_bit 7 1 = 0"
    and "256 + length stack \<le> 2 ^ 64" and "clock_bytes clock \<inter> below (sp c) (256 + length stack) = {}"
  shows "\<exists>c'. interrupt im (compiled_irq_handler clock stack regs iar) esr far (c, s) = Some (c', handle_irq_exception iar s)
     \<and> registers c' = registers c \<and> sp c' = sp c \<and> pc c' = pc c \<and> pstate c' = pstate c
     \<and> ld64 (ram_read (cmem c') clock 8) = uptime_ms (tmr (handle_irq_exception iar s))
     \<and> (\<forall>a. a \<in> clock_bytes clock \<union> below (sp c) (256 + length stack) \<or> cmem c' a = cmem c a)"
proof -
  let ?f = "compiled_irq_handler clock stack regs iar" and ?t = "take_exception Irq esr far c"
  have t: "sp ?t = sp c" "elr_el1 ?t = pc c" "spsr_el1 ?t = pstate c" "cmem ?t = cmem c" "registers ?t = registers c"
    by (simp_all add: take_exception_def registers_def)
  have i: "interrupt im ?f esr far (c, s) = Some (irq_el1h ?f (?t, s))"
    using assms(3) vector_label_el1h(1) [OF assms(1,2)] by (simp add: interrupt_def Let_def)
  have own: "clock_bytes clock \<inter> below (sp ?t) (256 + length stack) = {}" using assms(5) t by simp
  note r = irq.irq_el1h_restores [OF assms(4) own, where s = s and regs = regs and iar = iar, unfolded t]
  have "snd (irq_el1h ?f (?t, s)) = handle_irq_exception iar s"
    by (simp only: r(1) compiled_irq_handler_state)
  moreover have "ld64 (ram_read (cmem (fst (irq_el1h ?f (?t, s)))) clock 8) = uptime_ms (tmr (handle_irq_exception iar s))"
    by (simp only: r(6) compiled_irq_handler_clock)
  moreover have "\<forall>a. a \<in> clock_bytes clock \<union> below (sp c) (256 + length stack)
      \<or> cmem (fst (irq_el1h ?f (?t, s))) a = cmem c a"
    using r(7) by blast
  ultimately show ?thesis
    unfolding i using r(2-5)
    by (intro exI [of _ "fst (irq_el1h ?f (?t, s))"] conjI) (simp_all add: prod_eq_iff)
qed

text \<open>A core at level 1 with its own stack pointer, interrupts enabled, the vectors at 0x40082000.\<close>

definition running_core :: core where
  "running_core = \<lparr>xr = (\<lambda>i. of_nat i), sp = 0x40100000, pc = 0x40080100, pstate = 0x345, mpidr_el1 = 0,
     vbar_el1 = 0x40082000, elr_el1 = 0, spsr_el1 = 0, esr_el1 = 0, far_el1 = 0, cpacr_el1 = 0x300000,
     cnthctl_el2 = 0, cntvoff_el2 = 0, hcr_el2 = 0, spsr_el2 = 0, elr_el2 = 0, cmem = (\<lambda>_. 0)\<rparr>"

definition sample_cpu :: cpu where
  "sample_cpu = \<lparr>tmr = \<lparr>timer_freq = 62500000, uptime_ms = 40, cntfrq_el0 = 62500000, cntp_tval_el0 = 0, cntp_ctl_el0 = 1\<rparr>, eois = []\<rparr>"

theorem interrupt_is_transparent_witness:
  "\<exists>c'. interrupt sample_image (compiled_irq_handler 0x40090000 [1, 2, 3, 4] (\<lambda>_. 7) 30) 0 0 (running_core, sample_cpu)
       = Some (c', handle_irq_exception 30 sample_cpu)
     \<and> registers c' = registers running_core \<and> pc c' = 0x40080100 \<and> pstate c' = 0x345
     \<and> ld64 (ram_read (cmem c') 0x40090000 8) = 50"
proof -
  have d: "clock_bytes 0x40090000 \<inter> below 0x40100000 (256 + length [1, 2, 3, 4 :: u8]) = {}"
  proof -
    have False if "unat (x - 0x40090000) < 8" and "unat (x - 0x400FFEFC) < 260" for x :: addr
    proof -
      have "unat (x - 0x40090000) = (unat (x - 0x400FFEFC) + 0x6FEFC) mod 2 ^ 64"
        using unat_word_ariths(1) [of "x - 0x400FFEFC" "0x6FEFC"] by simp
      with that show False by simp
    qed
    then show ?thesis by (auto simp: clock_bytes_def below_def)
  qed
  show ?thesis
    using interrupt_is_transparent [where c = running_core and im = sample_image and stack = "[1, 2, 3, 4]"
        and clock = "0x40090000" and regs = "\<lambda>_. 7" and iar = 30 and esr = 0 and far = 0 and s = sample_cpu] d
    by (simp add: running_core_def sample_image_def)
      (auto simp: sample_cpu_def handle_irq_exception_def handle_timer_irq_def TIMER_IRQ_ID_def Let_def)
qed

text \<open>
  C15: with the vectors installed, an exception reaches the code meant for it: synchronous ones and
  interrupts of level 1 with its own stack pointer their handlers, every other kind and mode (the
  shared stack pointer, level 0) the one that gives up. The panic handler is then given the syndrome,
  the address of the faulting instruction, the faulting address and exactly the 31 registers of the
  interrupted code.
\<close>

theorem exceptions_reach_their_code:
  assumes "vbar_el1 c = exception_vectors im" and "pstate c AND 0xF \<in> {0, 4, 5}"
  shows "vector_label im (take_exception k esr far c) =
       Some (if pstate c AND 0xF = 5 \<and> k = Synchronous then Sync_el1h
             else if pstate c AND 0xF = 5 \<and> k = Irq then Irq_el1h else Invalid_exception_handler)
     \<and> sync_el1h (take_exception k esr far c) u = handle_sync_exception esr (pc c) far (registers c) u"
proof
  have "p AND 0xC = 0" "p AND 1 = 0" if "p AND 0xF = 0" for p :: u64
    using and.assoc [of p "0xF" "0xC"] and.assoc [of p "0xF" 1] that by simp_all
  moreover have "p AND 0xC = 4" "p AND 1 = 0" if "p AND 0xF = 4" for p :: u64
    using and.assoc [of p "0xF" "0xC"] and.assoc [of p "0xF" 1] that by simp_all
  ultimately show "vector_label im (take_exception k esr far c) =
       Some (if pstate c AND 0xF = 5 \<and> k = Synchronous then Sync_el1h
             else if pstate c AND 0xF = 5 \<and> k = Irq then Irq_el1h else Invalid_exception_handler)"
    using assms(2) mode_bits [of "pstate c"] unfolding vector_label_taken [OF assms(1)]
    by (cases k) (auto simp: vector_group_def exception_vector_table_def nth_append)
  show "sync_el1h (take_exception k esr far c) u = handle_sync_exception esr (pc c) far (registers c) u"
    unfolding sync_el1h_frame by (simp add: take_exception_def registers_def)
qed

theorem exceptions_reach_their_code_witness:
  "vector_label sample_image (take_exception Synchronous 0x96000005 0xDEAD0000 running_core) = Some Sync_el1h
   \<and> sync_el1h (take_exception Synchronous 0x96000005 0xDEAD0000 running_core) \<lparr>console = [], current_mode = MODE_PORTAL\<rparr>
     = handle_sync_exception 0x96000005 0x40080100 0xDEAD0000 (map of_nat [0..<31]) \<lparr>console = [], current_mode = MODE_PORTAL\<rparr>"
  using exceptions_reach_their_code [where c = running_core and im = sample_image and k = Synchronous
      and esr = "0x96000005" and far = "0xDEAD0000" and u = "\<lparr>console = [], current_mode = MODE_PORTAL\<rparr>"]
  by (simp add: running_core_def sample_image_def registers_def)

end
