(* ===== verification/Interrupts.thy ===== *)
theory Interrupts
  imports Vectors Kernel
begin

text \<open>
  The main loop under timer interrupts. The theory Kernel takes an iteration as one step; here the
  interrupts come inside it: between the reading of the clock and the refresh of the portal state
  (kernel.c:91 and portal.c:26, which reads the clock again), before the input and before the
  network. An interrupt at another point of the same phase has the effect of one at its end, since
  nothing else reads the clock, and it leaves the interrupted code alone (theory Vectors). The lemmas show
  that such an iteration is the undisturbed one followed by the interrupts.
\<close>

section \<open>An iteration with interrupts\<close>

definition sys_irq :: "u32 \<Rightarrow> sys \<Rightarrow> sys" where
  "sys_irq iar s = s\<lparr>clock := tmr (handle_irq_exception iar \<lparr>tmr = clock s, eois = []\<rparr>)\<rparr>"

definition sys_irqs :: "u32 list \<Rightarrow> sys \<Rightarrow> sys" where
  "sys_irqs = fold sys_irq"

definition interrupted_refresh :: "u32 list \<Rightarrow> sys \<Rightarrow> sys option" where
  "interrupted_refresh iars s =
     (let current_time = get_system_uptime_ms (clock s);
          s = sys_irqs iars s in
      if 100 \<le> current_time - last_refresh s
      then do {
        let s = portal_refresh_state s;
        s \<leftarrow> (if Some (s_mode s) \<noteq> last_mode s
              then render_entered_mode ((s_puts clear_screen s)\<lparr>last_mode := Some (s_mode s)\<rparr>)
              else if s_mode s = MODE_NET_STATS then portal_render_net_dashboard s
              else Some s);
        Some (s\<lparr>last_refresh := current_time\<rparr>) }
      else Some s)"

definition interrupted_iteration :: "u32 list \<Rightarrow> u32 list \<Rightarrow> u32 list \<Rightarrow> addr \<Rightarrow> sys \<Rightarrow> sys option" where
  "interrupted_iteration i1 i2 i3 rxb s =
     do { s \<leftarrow> interrupted_refresh i1 s;
          let s = sys_irqs i2 s;
          (skip, s) \<leftarrow> kernel_input s;
          let s = sys_irqs i3 s;
          if skip then Some s
          else do { k \<leftarrow> kernel_network rxb (net s); Some (s\<lparr>net := k\<rparr>) } }"

text \<open>The state with another clock, and another time in the state the portal shows.\<close>

definition retime :: "timer \<Rightarrow> u64 \<Rightarrow> sys \<Rightarrow> sys" where
  "retime t p s = s\<lparr>clock := t, current_state := (current_state s)\<lparr>p_uptime_ms := p\<rparr>\<rparr>"

section \<open>What does not read the clock\<close>

lemma sys_irqs_clock:
  "sys_irqs iars s = s\<lparr>clock := tmr (fold handle_irq_exception iars \<lparr>tmr = clock s, eois = e\<rparr>)\<rparr>"
proof (induction iars arbitrary: s e)
  case (Cons i iars)
  have t: "tmr (handle_irq_exception i \<lparr>tmr = t, eois = e\<rparr>) = tmr (handle_irq_exception i \<lparr>tmr = t, eois = e'\<rparr>)" for t e e'
    by (simp add: handle_irq_exception_def Let_def)
  obtain e' where e': "handle_irq_exception i \<lparr>tmr = clock s, eois = e\<rparr>
      = \<lparr>tmr = tmr (handle_irq_exception i \<lparr>tmr = clock s, eois = []\<rparr>), eois = e'\<rparr>"
    using t [of "clock s" e "[]"] by (cases "handle_irq_exception i \<lparr>tmr = clock s, eois = e\<rparr>") auto
  show ?case
    using Cons [of "sys_irq i s" e'] by (simp add: sys_irqs_def e') (simp add: sys_irq_def)
qed (simp add: sys_irqs_def)

lemma retime_simps [simp]:
  "net (retime t p s) = net s" "last_refresh (retime t p s) = last_refresh s" "last_mode (retime t p s) = last_mode s"
  "uart_in (retime t p s) = uart_in s" "esc_state (retime t p s) = esc_state s" "num (retime t p s) = num s"
  "portal_active (retime t p s) = portal_active s" "s_mode (retime t p s) = s_mode s" "s_uart (retime t p s) = s_uart s"
  "total_pci_devices (retime t p s) = total_pci_devices s" "dev_mac (retime t p s) = dev_mac s" "clock (retime t p s) = t"
  "current_state (retime t p s) = (current_state s)\<lparr>p_uptime_ms := p\<rparr>"
  by (simp_all add: retime_def s_mode_def s_uart_def)

lemma retime_upd [simp]:
  "(retime t p s)\<lparr>last_mode := m\<rparr> = retime t p (s\<lparr>last_mode := m\<rparr>)"
  "(retime t p s)\<lparr>last_refresh := r\<rparr> = retime t p (s\<lparr>last_refresh := r\<rparr>)"
  "(retime t p s)\<lparr>esc_state := e\<rparr> = retime t p (s\<lparr>esc_state := e\<rparr>)"
  "(retime t p s)\<lparr>num := n\<rparr> = retime t p (s\<lparr>num := n\<rparr>)"
  "(retime t p s)\<lparr>uart_in := i\<rparr> = retime t p (s\<lparr>uart_in := i\<rparr>)"
  "(retime t p s)\<lparr>net := k\<rparr> = retime t p (s\<lparr>net := k\<rparr>)"
  "s_print f (retime t p s) = retime t p (s_print f s)"
  "s_puts b (retime t p s) = retime t p (s_puts b s)"
  "s_set_mode md (retime t p s) = retime t p (s_set_mode md s)"
  "(retime t p s)\<lparr>clock := t'\<rparr> = retime t' p s"
  "retime t p (retime t' p' s) = retime t p s"
  by (simp_all add: retime_def s_print_def s_puts_def s_set_mode_def)

lemma dashboard_head_retime: "dashboard_head (retime t p s) = dashboard_head s"
proof
  have "p_mac (current_state (retime t p s)) = p_mac (current_state s)"
    "link_status (current_state (retime t p s)) = link_status (current_state s)" by simp_all
  then show "dashboard_head (retime t p s) u = dashboard_head s u" for u
    by (simp only: dashboard_head_def retime_simps(1))
qed

lemma screens_retime:
  "portal_render_confirm_prompt (retime t p s) = retime t p (portal_render_confirm_prompt s)"
  "debug_banner (retime t p s) = retime t p (debug_banner s)"
  by (simp_all add: portal_render_confirm_prompt_def debug_banner_def Let_def)

lemma terminal_retime: "portal_render_terminal (retime t p s) = retime t p (portal_render_terminal s)"
proof -
  have "heap_usage_kb (current_state (retime t p s)) = heap_usage_kb (current_state s)"
    "link_status (current_state (retime t p s)) = link_status (current_state s)" by simp_all
  then show ?thesis
    by (simp only: portal_render_terminal_def Let_def retime_simps(7,9) retime_upd(7) split: if_split) blast
qed

lemma dashboard_retime:
  "portal_render_net_dashboard (retime t p s) = map_option (retime t p) (portal_render_net_dashboard s)"
proof (cases "portal_active s")
  case True
  let ?s = "s_print (dashboard_head s) s"
  have "net (retime t p ?s) = net ?s" "s_uart (retime t p ?s) = s_uart ?s" by simp_all
  then show ?thesis
    by (cases "dashboard_loop (tcbs (net ?s)) (tcp_tcb_list (net ?s)) 0 (s_uart ?s)")
      (simp_all add: True portal_render_net_dashboard_def dashboard_head_retime split_beta)
qed (simp add: portal_render_net_dashboard_def)

lemma render_entered_mode_retime:
  "render_entered_mode (retime t p s) = map_option (retime t p) (render_entered_mode s)"
  by (simp add: render_entered_mode_def screens_retime terminal_retime dashboard_retime split: kernel_mode_t.split)

lemma input_retime:
  "kernel_input (retime t p s) = map_option (\<lambda>(b, s). (b, retime t p s)) (kernel_input s)"
proof -
  have "input_byte c (retime t p s) = map_option (\<lambda>(b, s). (b, retime t p s)) (input_byte c s)" for c s
    by (simp add: input_byte_def esc_number_def esc_o_def function_key_def Let_def)
  then show ?thesis by (simp add: kernel_input_def split: list.split)
qed

text \<open>The time the portal state holds after the refresh of an iteration.\<close>

definition shown_time :: "timer \<Rightarrow> sys \<Rightarrow> u64" where
  "shown_time t s = (if refresh_due s then uptime_ms t else p_uptime_ms (current_state s))"

lemma portal_refresh_retime:
  "portal_refresh_state (s\<lparr>clock := t\<rparr>) = retime t (uptime_ms t) (portal_refresh_state s)"
  by (simp add: portal_refresh_state_def retime_def get_system_uptime_ms_def Let_def split: option.split)

lemma clock_retime: "s\<lparr>clock := t\<rparr> = retime t (p_uptime_ms (current_state s)) s"
  by (simp add: retime_def)

definition clock_after :: "u32 list \<Rightarrow> timer \<Rightarrow> timer" where
  "clock_after iars t = tmr (fold handle_irq_exception iars \<lparr>tmr = t, eois = []\<rparr>)"

lemma sys_irqs_clock_after: "sys_irqs iars s = s\<lparr>clock := clock_after iars (clock s)\<rparr>"
  unfolding clock_after_def by (rule sys_irqs_clock)

lemma clock_after_append: "clock_after (i @ j) t = clock_after j (clock_after i t)"
proof -
  let ?s = "undefined\<lparr>clock := t\<rparr> :: sys"
  have "clock (sys_irqs (i @ j) ?s) = clock (sys_irqs j (sys_irqs i ?s))" by (simp add: sys_irqs_def)
  then show ?thesis unfolding sys_irqs_clock_after by simp
qed

lemma refresh_retime:
  "interrupted_refresh iars s =
     map_option (retime (clock_after iars (clock s)) (shown_time (clock_after iars (clock s)) s)) (kernel_refresh s)"
proof (cases "refresh_due s")
  case True
  let ?t = "clock_after iars (clock s)" and ?p = "portal_refresh_state s"
  have s: "portal_refresh_state (sys_irqs iars s) = retime ?t (uptime_ms ?t) ?p"
    "last_refresh (sys_irqs iars s) = last_refresh s"
    by (simp_all add: sys_irqs_clock_after portal_refresh_retime)
  have due: "100 \<le> get_system_uptime_ms (clock s) - last_refresh s" using True by (simp add: refresh_due_def)
  show ?thesis
    using True due unfolding interrupted_refresh_def kernel_refresh_def Let_def s
    by (simp add: shown_time_def render_entered_mode_retime dashboard_retime option.map_comp comp_def
        map_option_bind map_conv_bind_option)
next
  case False
  then show ?thesis
    by (simp add: interrupted_refresh_def kernel_refresh_def Let_def refresh_due_def sys_irqs_clock_after
        shown_time_def clock_retime)
qed

section \<open>Properties\<close>

text \<open>
  C8: an iteration of the main loop with any interrupts between its phases fails exactly when the
  undisturbed iteration fails, and otherwise ends in the state of the undisturbed iteration but for two
  things: the clock has taken all the interrupts, and the uptime in the portal state, which no screen
  shows, is that of the clock after the first group. Taking iterations as atomic steps loses nothing.
\<close>

theorem timer_interrupts_commute:
  "interrupted_iteration i1 i2 i3 rxb s =
     map_option (retime (clock_after (i1 @ i2 @ i3) (clock s)) (shown_time (clock_after i1 (clock s)) s))
       (kernel_iteration rxb s)"
proof (cases "kernel_refresh s")
  case None
  then show ?thesis by (simp add: interrupted_iteration_def kernel_iteration_def refresh_retime)
next
  case (Some s1)
  let ?p = "shown_time (clock_after i1 (clock s)) s"
  have i: "sys_irqs i (retime t ?p s') = retime (clock_after i t) ?p s'" for i t s'
    by (simp add: sys_irqs_clock_after)
  show ?thesis
  proof (cases "kernel_input s1")
    case None
    then show ?thesis
      by (simp add: interrupted_iteration_def kernel_iteration_def refresh_retime Some i input_retime)
  next
    case skip: (Some r)
    obtain b s2 where r: "r = (b, s2)" by (cases r)
    show ?thesis
      by (cases "kernel_network rxb (net s2)")
        (simp_all add: interrupted_iteration_def kernel_iteration_def refresh_retime Some i input_retime skip r
          clock_after_append)
  qed
qed

end
