(* ===== verification/Backup_Checksum.thy ===== *)
theory Backup_Checksum
  imports Tcp
begin

text \<open>
  The checksum of the earlier TCP stack (backups/src/tcp_chk.c). It keeps the pseudo-header in an
  IPv4 header whose fields are in network order, adds it as host numbers, and adds the words of the
  segment first byte high; the present stack does the opposite of each.
\<close>

section \<open>The code\<close>

text \<open>\<open>calculate_sum\<close> is the loop of \<open>ipv4_checksum\<close> with a sum to start from.\<close>

definition calculate_sum :: "bytes \<Rightarrow> u32 \<Rightarrow> u32 \<Rightarrow> u32 option" where
  "calculate_sum data n initial_sum = be_sum data (unat n) initial_sum"

definition build_pseudo :: "u32 \<Rightarrow> u32 \<Rightarrow> u16 \<Rightarrow> ipv4_header" where
  "build_pseudo src_ip dst_ip tcp_len =
     \<lparr>ip_version_ihl = 0, ip_tos = 0, ip_total_len = htons tcp_len, ip_id = 0, ip_flags_fragment = 0, ip_ttl = 0,
      ip_protocol = 6, ip_checksum = 0, ip_src_ip = htonl src_ip, ip_dest_ip = htonl dst_ip\<rparr>"

definition pseudo_sum :: "ipv4_header \<Rightarrow> u32" where
  "pseudo_sum ip =
     (let sum = 0;
          sum = sum + (drop_bit 16 (ip_src_ip ip) AND 0xFFFF);
          sum = sum + (ip_src_ip ip AND 0xFFFF);
          sum = sum + (drop_bit 16 (ip_dest_ip ip) AND 0xFFFF);
          sum = sum + (ip_dest_ip ip AND 0xFFFF)
      in sum + 0x0006)"

text \<open>The payload pointer may be NULL.\<close>

definition payload_sum :: "bytes option \<Rightarrow> u32 \<Rightarrow> u32 \<Rightarrow> u32 option" where
  "payload_sum payload payload_len s =
     (case payload of Some p \<Rightarrow> if 0 < payload_len then calculate_sum p payload_len s else Some s
      | None \<Rightarrow> Some s)"

definition backup_tcp_checksum :: "ipv4_header \<Rightarrow> bytes \<Rightarrow> bytes option \<Rightarrow> u32 \<Rightarrow> u16 option" where
  "backup_tcp_checksum ip tcp payload payload_len =
     do { let tcp_len = (ucast (20 + payload_len) :: u16);
          let s = pseudo_sum ip + ucast (htons tcp_len);
          s \<leftarrow> calculate_sum (tcp[16 := 0, 17 := 0]) 20 s;
          s \<leftarrow> payload_sum payload payload_len s;
          Some (ucast (NOT (fold_carry s))) }"

definition backup_validate_checksum :: "ipv4_header \<Rightarrow> bytes \<Rightarrow> bytes option \<Rightarrow> u32 \<Rightarrow> bool option" where
  "backup_validate_checksum ip tcp payload payload_len =
     do { let tcp_len = (ucast (20 + payload_len) :: u16);
          let s = pseudo_sum ip + ucast tcp_len;
          s \<leftarrow> calculate_sum tcp 20 s;
          s \<leftarrow> payload_sum payload payload_len s;
          Some (fold_carry s = 0xFFFF) }"

section \<open>Sums\<close>

lemma unat_pseudo_sum:
  "unat (pseudo_sum ip) = ip_halves (ip_src_ip ip) + ip_halves (ip_dest_ip ip) + 6"
proof -
  note b = ip_halves_bound [of "ip_src_ip ip", unfolded ip_halves_def] ip_halves_bound [of "ip_dest_ip ip", unfolded ip_halves_def]
  have top: "drop_bit 16 w AND 0xFFFF = drop_bit 16 w" for w :: u32
  proof -
    have "unat w div 65536 < 65536" using unat_u32_less [of w] by (simp add: less_mult_imp_div_less)
    then have "unat (drop_bit 16 w AND 0xFFFF) = unat (drop_bit 16 w)" by (simp add: unat_low16 unat_high16)
    then show ?thesis by (simp only: word_unat_eq_iff)
  qed
  show ?thesis using b unfolding pseudo_sum_def Let_def top ip_halves_def
    by (simp add: unat_word_ariths unat_low16 unat_high16)
qed

lemma unat_le32: "unat (le32 a b c d) = unat (le16 a b) + 65536 * unat (le16 c d)"
proof -
  have "le32 a b c d = ucast (le16 a b) OR push_bit 16 (ucast (le16 c d))"
    unfolding le32_def le16_def
    by (rule bit_word_eqI) (auto simp: bit_simps dest: bit_imp_le_length)
  also have "\<dots> = ucast (le16 a b) + push_bit 16 (ucast (le16 c d))"
    by (rule disjunctive_add_eq_or [symmetric])
      (use bit_imp_le_length [of "le16 a b"] in \<open>fastforce intro!: bit_word_eqI simp: bit_simps\<close>)
  finally have e: "le32 a b c d = ucast (le16 a b) + push_bit 16 (ucast (le16 c d))" .
  have "unat (push_bit 16 (ucast (le16 c d)) :: u32) = 65536 * unat (le16 c d)"
    unfolding unsigned_push_bit_eq using unat_u16_less [of "le16 c d"]
    by (simp add: take_bit_eq_mod push_bit_eq_mult del: unat_u16_less)
  then show ?thesis unfolding e using unat_u16_less [of "le16 a b"] unat_u16_less [of "le16 c d"]
    by (simp add: unat_word_ariths del: unat_u16_less)
qed

lemma ip_halves_le32: "ip_halves (le32 a b c d) = unat (le16 a b) + unat (le16 c d)"
  using unat_u16_less [of "le16 a b"] unfolding ip_halves_def unat_le32 by (simp del: unat_u16_less)

lemma ip_halves_htonl: "ip_halves (htonl ip) mod 65535 = 256 * ip_halves ip mod 65535"
proof -
  have "256 * ip_halves (le32 a b c d) = ip_halves (le32 d c b a) + 65535 * (unat b + unat d)" for a b c d
    unfolding ip_halves_le32 unat_le16_be16 by simp
  then have "256 * ip_halves (le32 a b c d) mod 65535 = ip_halves (bswap32 (le32 a b c d)) mod 65535" for a b c d
    by (simp only: bswap32_le32 mod_mult_self2)
  from this [of "ucast ip" "ucast (drop_bit 8 ip)" "ucast (drop_bit 16 ip)" "ucast (drop_bit 24 ip)"]
  show ?thesis by (simp only: le32_st32 htonl_bswap32)
qed

section \<open>The two checks in closed form\<close>

definition backup_total :: "u32 \<Rightarrow> u32 \<Rightarrow> bytes \<Rightarrow> nat" where
  "backup_total src dst words = ip_halves (htonl src) + ip_halves (htonl dst) + 6 + word_total be16 words"

lemma calculate_sum_total:
  assumes "unat n \<le> length p" and "unat n \<le> 65535" and "unat s \<le> 2147483647"
  shows "\<exists>t. calculate_sum p n s = Some t \<and> unat t = unat s + word_total be16 (take (unat n) p)"
proof -
  have "unat s + word_total be16 (take (unat n) p) < 2 ^ 32"
    using word_total_take_bound [OF assms(2), of be16 p] assms(3) by simp
  from be.loop_total [OF assms(1) this] show ?thesis by (simp add: calculate_sum_def)
qed

lemma pseudo_total:
  "unat (pseudo_sum (build_pseudo src dst n)) = ip_halves (htonl src) + ip_halves (htonl dst) + 6"
  by (simp add: unat_pseudo_sum build_pseudo_def)

lemma pseudo_words:
  "unat (pseudo_sum (build_pseudo src dst m) + ucast (w :: u16)) = ip_halves (htonl src) + ip_halves (htonl dst) + 6 + unat w"
  "unat (pseudo_sum (build_pseudo src dst m) + ucast w) \<le> 393210"
proof -
  note b = ip_halves_bound [of "htonl src"] ip_halves_bound [of "htonl dst"]
  have w: "unat w < 65536" by (rule unat_u16_less)
  then show "unat (pseudo_sum (build_pseudo src dst m) + ucast w)
      = ip_halves (htonl src) + ip_halves (htonl dst) + 6 + unat w"
    using b by (simp add: unat_word_ariths pseudo_total del: unat_u16_less)
  then show "unat (pseudo_sum (build_pseudo src dst m) + ucast w) \<le> 393210" using b w by linarith
qed

text \<open>The part both checks share: the header's words and the payload's after a sum of their own.\<close>

lemma header_payload_total:
  assumes "20 \<le> length t" and "unat n \<le> length p" and "unat n \<le> 65535" and "unat s \<le> 393210"
  shows "\<exists>u. (do { s \<leftarrow> calculate_sum t 20 s; payload_sum (Some p) n s }) = Some u
    \<and> unat u = unat s + word_total be16 (take 20 t @ take (unat n) p)"
proof -
  have l: "unat (20 :: u32) \<le> length t" "unat (20 :: u32) \<le> 65535" "unat s \<le> 2147483647" using assms by simp_all
  from calculate_sum_total [OF this] obtain x where
    x: "calculate_sum t 20 s = Some x" "unat x = unat s + word_total be16 (take 20 t)" by auto
  have "word_total be16 (take 20 t) \<le> 65535 * ((20 + 1) div 2)"
    using word_total_bound [of be16 "take 20 t"] assms(1) by simp
  then have xb: "unat x \<le> 2147483647" using x assms(4) by simp
  have e: "word_total be16 (take 20 t @ take (unat n) p) = word_total be16 (take 20 t) + word_total be16 (take (unat n) p)"
    using assms(1) by (simp add: word_total_append)
  show ?thesis
  proof (cases "0 < n")
    case True
    from calculate_sum_total [OF assms(2,3) xb] obtain u where
      "calculate_sum p n x = Some u" "unat u = unat x + word_total be16 (take (unat n) p)" by blast
    then show ?thesis using True x e by (simp add: payload_sum_def)
  next
    case False
    then have "n = 0" by (simp add: word_gt_0)
    then show ?thesis using x by (simp add: payload_sum_def)
  qed
qed

lemma backup_validate_total:
  assumes "20 \<le> length t" and "unat n \<le> length p" and "unat n \<le> 65515"
  shows "backup_validate_checksum (build_pseudo src dst m) t (Some p) n
    = Some ((backup_total src dst (take 20 t @ take (unat n) p) + (20 + unat n)) mod 65535 = 0)"
proof -
  let ?w = "ucast (20 + n) :: u16" and ?ws = "take 20 t @ take (unat n) p"
  let ?s = "pseudo_sum (build_pseudo src dst m) + ucast ?w"
  have w: "unat ?w = 20 + unat n" using assms(3) by (simp add: unat_ucast unat_word_ariths)
  have n: "unat n \<le> 65535" using assms(3) by simp
  from header_payload_total [OF assms(1,2) n pseudo_words(2) [of src dst m ?w]] obtain u where
    u: "(do { s \<leftarrow> calculate_sum t 20 ?s; payload_sum (Some p) n s }) = Some u"
    "unat u = backup_total src dst ?ws + (20 + unat n)"
    unfolding pseudo_words(1) w backup_total_def by (auto simp only: ac_simps)
  have "fold_carry u = 0xFFFF \<longleftrightarrow> unat (fold_carry u) = 65535" by (simp add: word_unat_eq_iff)
  also have "\<dots> \<longleftrightarrow> unat u mod 65535 = 0" using u(2) by (auto simp: unat_fold_carry oc_full_iff)
  finally show ?thesis using u by (auto simp: backup_validate_checksum_def Let_def split: Option.bind_splits)
qed

lemma backup_checksum_total:
  assumes "20 \<le> length t" and "unat n \<le> length p" and "unat n \<le> 65515"
  shows "\<exists>c. backup_tcp_checksum (build_pseudo src dst m) t (Some p) n = Some c
    \<and> unat c = 65535 - oc (backup_total src dst (take 20 (t[16 := 0, 17 := 0]) @ take (unat n) p)
        + unat (htons (20 + ucast n)))"
proof -
  let ?w = "htons (ucast (20 + n)) :: u16" and ?t = "t[16 := 0, 17 := 0]"
  let ?s = "pseudo_sum (build_pseudo src dst m) + ucast ?w"
  have w: "(ucast (20 + n) :: u16) = 20 + ucast n" 
    using assms(3) by (simp add: word_unat_eq_iff unat_ucast unat_word_ariths)
  have n: "unat n \<le> 65535" "20 \<le> length ?t" using assms by simp_all
  from header_payload_total [OF n(2) assms(2) n(1) pseudo_words(2) [of src dst m ?w]] obtain u where
    u: "(do { s \<leftarrow> calculate_sum ?t 20 ?s; payload_sum (Some p) n s }) = Some u"
    "unat u = backup_total src dst (take 20 ?t @ take (unat n) p) + unat ?w"
    unfolding pseudo_words(1) backup_total_def by (auto simp only: ac_simps)
  have "unat (checksum_finalize u) = 65535 - oc (unat u)" by (rule unat_finalize)
  then show ?thesis using u
    by (auto simp: backup_tcp_checksum_def checksum_finalize_def Let_def w split: Option.bind_splits)
qed

section \<open>Properties\<close>

text \<open>The factor between the two byte orders is a unit modulo 65535.\<close>

lemma unit_256: "256 * m mod 65535 = 0 \<longleftrightarrow> m mod 65535 = 0" for m :: nat
proof -
  have "256 * (256 * m) = m + 65535 * m" by simp
  then have "256 * (256 * m) mod 65535 = m mod 65535" by (simp only: mod_mult_self2)
  moreover have "256 * m mod 65535 = 0 \<Longrightarrow> 256 * (256 * m) mod 65535 = 256 * 0 mod 65535"
    by (rule mod_mult_cong [OF refl]) simp
  moreover have "m mod 65535 = 0 \<Longrightarrow> 256 * m mod 65535 = 256 * 0 mod 65535"
    by (rule mod_mult_cong [OF refl]) simp
  ultimately show ?thesis by auto
qed

text \<open>The total of the present stack times 256 is the total of the earlier one, modulo 65535.\<close>

lemma tcp_total_backup_total:
  "tcp_total src dst seg n mod 65535 = 0 \<longleftrightarrow> (backup_total src dst (take (unat n) seg) + unat n) mod 65535 = 0"
proof -
  let ?ws = "take (unat n) seg"
  have six: "256 * unat (htons 6) mod 65535 = 6 mod (65535 :: nat)" by (simp add: htons_def)
  have len: "256 * unat (htons n) mod 65535 = unat n mod 65535" using htons_mod [of "htons n"] by simp
  have words: "256 * word_total le16 ?ws mod 65535 = word_total be16 ?ws mod 65535"
  proof -
    have "256 * word_total le16 ?ws mod 65535 = 256 * (256 * word_total be16 ?ws) mod 65535"
      by (rule mod_mult_cong [OF refl word_total_le_be])
    also have "256 * (256 * word_total be16 ?ws) = word_total be16 ?ws + 65535 * word_total be16 ?ws" by simp
    finally show ?thesis by (simp only: mod_mult_self2)
  qed
  have "256 * tcp_total src dst seg n mod 65535
      = (256 * ip_halves src + 256 * ip_halves dst + 256 * unat (htons 6) + 256 * unat (htons n)
         + 256 * word_total le16 ?ws) mod 65535"
    by (simp add: tcp_total_def algebra_simps)
  also have "\<dots> = (ip_halves (htonl src) + ip_halves (htonl dst) + 6 + unat n + word_total be16 ?ws) mod 65535"
    by (intro mod_add_cong ip_halves_htonl [symmetric] six len words)
  also have "ip_halves (htonl src) + ip_halves (htonl dst) + 6 + unat n + word_total be16 ?ws
      = backup_total src dst ?ws + unat n"
    by (simp add: backup_total_def)
  finally show ?thesis by (subst unit_256 [symmetric]) simp
qed

text \<open>
  The check of the earlier stack and the check of the present one accept the same segments,
  although one adds network-order addresses to words read first byte high and the other host-order
  addresses to words read first byte low: the two sums differ by the factor 256 modulo 65535.
\<close>

lemma earlier_check_accepts_the_same_segments:
  assumes "20 \<le> unat n" and "unat n \<le> length seg"
  shows "backup_validate_checksum (build_pseudo src dst n) seg (Some (drop 20 seg)) (ucast n - 20)
    = tcp_validate_checksum src dst seg n"
proof -
  have n: "unat (ucast n - 20 :: u32) = unat n - 20" 
    using assms(1) by (subst unat_sub) (simp_all add: word_le_nat_alt)
  have le: "20 \<le> length seg" "unat (ucast n - 20 :: u32) \<le> length (drop 20 seg)" "unat (ucast n - 20 :: u32) \<le> 65515"
    using assms unat_u16_less [of n] unfolding n by (simp_all del: unat_u16_less)
  have "take 20 seg @ take (unat n - 20) (drop 20 seg) = take (20 + (unat n - 20)) seg" by (simp only: take_add)
  then have ws: "take 20 seg @ take (unat n - 20) (drop 20 seg) = take (unat n) seg" using assms(1) by simp
  have "20 + (unat n - 20) = unat n" using assms(1) by simp
  then show ?thesis
    unfolding backup_validate_total [OF le] tcp_validate_total [OF assms(2)] n ws tcp_total_backup_total by simp
qed

text \<open>
  A segment the earlier stack builds for itself passes its own check only by luck: the checksum
  is computed with the length in network order and stored low byte first, and of a segment with
  checksum 0 whose sum without the length is B, the check accepts the finished segment exactly when
  257 divides B.
\<close>

lemma earlier_stack_verifies_own_segment_iff_257:
  assumes "length t = 20" and "t ! 16 = 0" and "t ! 17 = 0"
    and "unat n \<le> length p" and "unat n \<le> 65515"
    and "backup_tcp_checksum (build_pseudo src dst m) t (Some p) n = Some c"
  shows "backup_validate_checksum (build_pseudo src dst m) (t[16 := ucast c, 17 := ucast (drop_bit 8 c)]) (Some p) n
    = Some (257 dvd backup_total src dst (t @ take (unat n) p))"
proof -
  let ?B = "backup_total src dst (t @ take (unat n) p)" and ?N = "20 + ucast n :: u16"
  let ?f = "be16 (ucast c) (ucast (drop_bit 8 c))" and ?t = "t[16 := ucast c, 17 := ucast (drop_bit 8 c)]"
  have N: "unat ?N = 20 + unat n" using assms(5) by (simp add: unat_ucast unat_word_ariths)
  have z: "t[16 := 0, 17 := 0] = t" by (metis assms(2,3) list_update_id)
  have l: "20 \<le> length t" "20 \<le> length ?t" using assms(1) by simp_all
  have "c = le16 (ucast c) (ucast (drop_bit 8 c))" by simp
  then have f: "?f = htons c" by (simp only: be16_le16) (metis htons_le16)
  have c: "unat c = 65535 - oc (?B + unat (htons ?N))"
    using backup_checksum_total [OF l(1) assms(4,5), of src dst m] assms(1,6) by (auto simp: z)
  have "word_total be16 (t[16 := ucast c, 16 + 1 := ucast (drop_bit 8 c)]) = word_total be16 t + unat ?f"
    by (rule word_total_store) (use assms(1-3) in \<open>simp_all add: be16_def\<close>)
  then have B: "backup_total src dst (?t @ take (unat n) p) = ?B + unat ?f"
    using assms(1) by (simp add: backup_total_def word_total_append)
  have "(255 * ?B + (?B + unat ?f + (20 + unat n))) mod 65535
      = (256 * ?B + unat (htons c) + unat ?N) mod 65535"
    by (simp add: f N add.assoc)
  also have "\<dots> = (256 * ?B + 256 * unat c + 256 * unat (htons ?N)) mod 65535"
    by (intro mod_add_cong refl htons_mod) (use htons_mod [of "htons ?N"] in simp)
  also have "256 * ?B + 256 * unat c + 256 * unat (htons ?N) = 256 * (?B + unat (htons ?N) + unat c)" by simp
  finally have e: "(255 * ?B + (?B + unat ?f + (20 + unat n))) mod 65535
      = 256 * (?B + unat (htons ?N) + unat c) mod 65535" .
  have "(?B + unat (htons ?N) + unat c) mod 65535 = (oc (?B + unat (htons ?N)) + unat c) mod 65535"
    by (intro mod_add_cong oc_mod [symmetric] refl)
  also have "oc (?B + unat (htons ?N)) + unat c = 65535" using c oc_less [of "?B + unat (htons ?N)"] by simp
  finally have "(?B + unat (htons ?N) + unat c) mod 65535 = 0" by simp
  then have "256 * (?B + unat (htons ?N) + unat c) mod 65535 = 0" by (simp only: unit_256)
  with e have s: "(255 * ?B + (?B + unat ?f + (20 + unat n))) mod 65535 = 0" by (rule trans)
  have "(?B + unat ?f + (20 + unat n)) mod 65535 = 0 \<longleftrightarrow> 255 * ?B mod 65535 = 0"
    using s by (rule mod_0_pair)
  also have "\<dots> \<longleftrightarrow> 255 * 257 dvd 255 * ?B" by (simp add: mod_eq_0_iff_dvd)
  also have "\<dots> \<longleftrightarrow> 257 dvd ?B" by (subst nat_mult_dvd_cancel_disj) simp
  finally show ?thesis
    using backup_validate_total [OF l(2) assms(4,5), of src dst m] assms(1) by (simp add: B)
qed

end
