(* ===== verification/Backup_Tcp.thy ===== *)
theory Backup_Tcp
  imports Backup_Checksum
begin

text \<open>
  The earlier TCP stack, kept under src/AetherWebOS/backups: the connection table (tcp_state.c, tcp_state.h) and the
  four functions of tcp.c that send a segment. A connection is a slot of a fixed table, and a
  pointer to it is its index. The segment is built with \<open>ipv4_send\<close> of the present stack below it.
\<close>

section \<open>The connection table\<close>

datatype backup_tcp_state_t =
    TCP_CLOSED
  | TCP_LISTEN
  | TCP_SYN_RCVD
  | TCP_ESTABLISHED
  | TCP_FIN_WAIT_1
  | TCP_FIN_WAIT_2
  | TCP_CLOSE_WAIT
  | TCP_LAST_ACK
  | TCP_TIME_WAIT

record tcp_control_block =
  b_remote_ip :: u32
  b_remote_port :: u16
  b_local_port :: u16
  b_state :: backup_tcp_state_t
  b_snd_una :: u32
  b_snd_nxt :: u32
  b_rcv_nxt :: u32
  b_snd_wnd :: u16
  b_rcv_wnd :: u16
  b_data_callback :: addr
  b_last_activity :: u64

text \<open>What \<open>memset(tcb, 0, sizeof *tcb)\<close> leaves: \<open>TCP_CLOSED\<close> is 0.\<close>

definition zero_tcb :: tcp_control_block where
  "zero_tcb = \<lparr>b_remote_ip = 0, b_remote_port = 0, b_local_port = 0, b_state = TCP_CLOSED, b_snd_una = 0,
     b_snd_nxt = 0, b_rcv_nxt = 0, b_snd_wnd = 0, b_rcv_wnd = 0, b_data_callback = 0, b_last_activity = 0\<rparr>"

definition MAX_TCP_CONN :: nat where "MAX_TCP_CONN = 8"

text \<open>
  The globals of the earlier stack: the kernel below, the timer's \<open>uptime_ms\<close>, the table, and the
  socket registry, whose handlers are pointers to functions; the only one in the tree is the portal's.
\<close>

datatype socket_handler_t = Portal_socket_wrapper | Other_handler nat

record socket_listener =
  sl_port :: u16
  sl_handler :: "socket_handler_t option"

record backup_stack =
  bs_kernel :: kstate
  bs_uptime :: u64
  tcb_table :: "tcp_control_block list"
  listeners :: "socket_listener list"
  listener_count :: nat

definition bs_puts :: "bytes \<Rightarrow> backup_stack \<Rightarrow> backup_stack" where
  "bs_puts t s = s\<lparr>bs_kernel := k_puts t (bs_kernel s)\<rparr>"

definition slot :: "nat \<Rightarrow> backup_stack \<Rightarrow> tcp_control_block option" where
  "slot i s = (if i < length (tcb_table s) then Some (tcb_table s ! i) else None)"

definition set_slot :: "nat \<Rightarrow> (tcp_control_block \<Rightarrow> tcp_control_block) \<Rightarrow> backup_stack \<Rightarrow> backup_stack option" where
  "set_slot i f s = do { t \<leftarrow> slot i s; Some (s\<lparr>tcb_table := (tcb_table s)[i := f t]\<rparr>) }"

text \<open>The loops over the table that return the first slot with a property.\<close>

fun slot_loop :: "(tcp_control_block \<Rightarrow> bool) \<Rightarrow> tcp_control_block list \<Rightarrow> nat \<Rightarrow> nat option" where
  "slot_loop P (t # ts) i = (if P t then Some i else slot_loop P ts (i + 1))"
| "slot_loop P [] i = None"

definition backup_init_stack :: "backup_stack \<Rightarrow> backup_stack" where
  "backup_init_stack s =
     bs_puts (str ''[OK] TCP State Table Initialized.'' @ crlf)
       (s\<lparr>tcb_table := map (\<lambda>t. zero_tcb\<lparr>b_state := TCP_CLOSED\<rparr>) (tcb_table s)\<rparr>)"

definition backup_allocate_tcb :: "backup_stack \<Rightarrow> nat option \<times> backup_stack" where
  "backup_allocate_tcb s =
     (case slot_loop (\<lambda>t. b_state t = TCP_CLOSED) (tcb_table s) 0 of
        Some i \<Rightarrow>
          (Some i, s\<lparr>tcb_table := (tcb_table s)[i := zero_tcb\<lparr>b_rcv_wnd := 8192, b_last_activity := bs_uptime s\<rparr>]\<rparr>)
      | None \<Rightarrow> (None, bs_puts (str ''[WARN] TCP: No free TCB slot.'' @ crlf) s))"

definition is_endpoint :: "u32 \<Rightarrow> u16 \<Rightarrow> tcp_control_block \<Rightarrow> bool" where
  "is_endpoint ip port t \<longleftrightarrow> b_state t \<noteq> TCP_CLOSED \<and> b_remote_ip t = ip \<and> b_remote_port t = port"

definition backup_find_tcb :: "u32 \<Rightarrow> u16 \<Rightarrow> backup_stack \<Rightarrow> nat option" where
  "backup_find_tcb ip port s = slot_loop (is_endpoint ip port) (tcb_table s) 0"

text \<open>\<open>tcp_free_tcb\<close>; the pointer may be NULL.\<close>

definition backup_free_tcb :: "nat option \<Rightarrow> backup_stack \<Rightarrow> backup_stack option" where
  "backup_free_tcb p s = (case p of None \<Rightarrow> Some s | Some i \<Rightarrow> set_slot i (\<lambda>_. zero_tcb\<lparr>b_state := TCP_CLOSED\<rparr>) s)"

definition backup_active_count :: "backup_stack \<Rightarrow> nat" where
  "backup_active_count s =
     fold (\<lambda>t count. if b_state t = TCP_ESTABLISHED then count + 1 else count) (tcb_table s) 0"

fun reap_syn_loop :: "u64 \<Rightarrow> u64 \<Rightarrow> nat list \<Rightarrow> backup_stack \<Rightarrow> backup_stack option" where
  "reap_syn_loop now timeout [] s = Some s"
| "reap_syn_loop now timeout (i # js) s =
     do { t \<leftarrow> slot i s;
          s \<leftarrow> (if b_state t = TCP_SYN_RCVD \<and> now - b_last_activity t > timeout
                then backup_free_tcb (Some i) (bs_puts (str ''[TCP] Reaping stale SYN_RCVD.'' @ crlf) s)
                else Some s);
          reap_syn_loop now timeout js s }"

definition backup_reap_syn_timeouts :: "u64 \<Rightarrow> backup_stack \<Rightarrow> backup_stack option" where
  "backup_reap_syn_timeouts timeout s = reap_syn_loop (bs_uptime s) timeout [0..<MAX_TCP_CONN] s"

section \<open>Sending\<close>

text \<open>The fields every sender stores after clearing the header; the checksum is still 0.\<close>

definition backup_reply :: "u16 \<Rightarrow> u16 \<Rightarrow> u8 \<Rightarrow> tcp_control_block \<Rightarrow> tcp_hdr" where
  "backup_reply src_port dst_port flags t =
     \<lparr>th_src_port = htons src_port, th_dst_port = htons dst_port, th_seq = htonl (b_snd_nxt t),
      th_ack = htonl (b_rcv_nxt t), th_offset_reserved = push_bit 4 5, th_flags = flags,
      th_window = htons (b_rcv_wnd t), th_checksum = 0, th_urgent_ptr = 0\<rparr>"

definition backup_send_synack :: "nat \<Rightarrow> backup_stack \<Rightarrow> backup_stack option" where
  "backup_send_synack tcb s =
     do { t \<leftarrow> slot tcb s;
          let reply = backup_reply (b_local_port t) (b_remote_port t) (TCP_FLAG_SYN OR TCP_FLAG_ACK) t;
          let pseudo = build_pseudo (aether_ip (bs_kernel s)) (b_remote_ip t) 20;
          c \<leftarrow> backup_tcp_checksum pseudo (tcp_image reply) None 0;
          k \<leftarrow> ipv4_send (b_remote_ip t) 6 (tcp_image (reply\<lparr>th_checksum := c\<rparr>)) 20 (bs_kernel s);
          set_slot tcb (\<lambda>t. t\<lparr>b_snd_nxt := b_snd_nxt t + 1, b_last_activity := bs_uptime s\<rparr>) (s\<lparr>bs_kernel := k\<rparr>) }"

definition backup_send_ack :: "nat \<Rightarrow> backup_stack \<Rightarrow> backup_stack option" where
  "backup_send_ack tcb s =
     do { t \<leftarrow> slot tcb s;
          let reply = backup_reply (b_local_port t) (b_remote_port t) TCP_FLAG_ACK t;
          let pseudo = build_pseudo (aether_ip (bs_kernel s)) (b_remote_ip t) 20;
          c \<leftarrow> backup_tcp_checksum pseudo (tcp_image reply) None 0;
          k \<leftarrow> ipv4_send (b_remote_ip t) 6 (tcp_image (reply\<lparr>th_checksum := c\<rparr>)) 20 (bs_kernel s);
          set_slot tcb (\<lambda>t. t\<lparr>b_last_activity := bs_uptime s\<rparr>) (s\<lparr>bs_kernel := k\<rparr>) }"

text \<open>
  \<open>tcp_send_data\<close>: the segment is built in a heap block. The pseudo-header takes the length as a
  16-bit number.
\<close>

definition backup_send_data :: "u32 \<Rightarrow> u16 \<Rightarrow> u16 \<Rightarrow> bytes \<Rightarrow> u32 \<Rightarrow> backup_stack \<Rightarrow> backup_stack option" where
  "backup_send_data dst_ip dst_port src_port data n s =
     (case backup_find_tcb dst_ip dst_port s of
        None \<Rightarrow> Some s
      | Some tcb \<Rightarrow> do {
          t \<leftarrow> slot tcb s;
          if b_state t \<noteq> TCP_ESTABLISHED then Some s
          else do {
            let packet_len = 20 + n;
            (reply, k) \<leftarrow> k_kmalloc (ucast packet_len) (bs_kernel s);
            if reply = 0 then Some (s\<lparr>bs_kernel := k\<rparr>)
            else do {
              k \<leftarrow> k_store reply 0 (replicate (unat packet_len) 0) k;
              k \<leftarrow> k_store reply 0
                    (tcp_image (backup_reply src_port dst_port (TCP_FLAG_ACK OR TCP_FLAG_PSH) t)) k;
              body \<leftarrow> rd_bytes data (unat n);
              k \<leftarrow> k_store reply 20 body k;
              let pseudo = build_pseudo (aether_ip k) dst_ip (ucast packet_len);
              c \<leftarrow> backup_tcp_checksum pseudo (ram_read (ram (k_heap k)) reply 20)
                    (Some (ram_read (ram (k_heap k)) (reply + 20) (unat n))) n;
              k \<leftarrow> k_store reply 16 (st16 c) k;
              k \<leftarrow> ipv4_send dst_ip 6 (ram_read (ram (k_heap k)) reply (unat packet_len)) packet_len k;
              s \<leftarrow> set_slot tcb (\<lambda>t. t\<lparr>b_snd_nxt := b_snd_nxt t + n, b_last_activity := bs_uptime s\<rparr>)
                    (s\<lparr>bs_kernel := k\<rparr>);
              k \<leftarrow> k_kfree reply (bs_kernel s);
              Some (s\<lparr>bs_kernel := k\<rparr>) } } })"

definition backup_send_fin :: "u32 \<Rightarrow> u16 \<Rightarrow> u16 \<Rightarrow> backup_stack \<Rightarrow> backup_stack option" where
  "backup_send_fin dst_ip dst_port src_port s =
     (case backup_find_tcb dst_ip dst_port s of
        None \<Rightarrow> Some s
      | Some tcb \<Rightarrow> do {
          t \<leftarrow> slot tcb s;
          if b_state t \<noteq> TCP_ESTABLISHED then Some s
          else do {
            let reply = backup_reply src_port dst_port (TCP_FLAG_FIN OR TCP_FLAG_ACK) t;
            let pseudo = build_pseudo (aether_ip (bs_kernel s)) dst_ip 20;
            c \<leftarrow> backup_tcp_checksum pseudo (tcp_image reply) None 0;
            k \<leftarrow> ipv4_send dst_ip 6 (tcp_image (reply\<lparr>th_checksum := c\<rparr>)) 20 (bs_kernel s);
            set_slot tcb (\<lambda>t. t\<lparr>b_snd_nxt := b_snd_nxt t + 1, b_state := TCP_LAST_ACK,
                b_last_activity := bs_uptime s\<rparr>) (s\<lparr>bs_kernel := k\<rparr>) } })"

section \<open>The table\<close>

lemma slot_loop_Some:
  "slot_loop P ts n = Some j \<Longrightarrow> n \<le> j \<and> j - n < length ts \<and> P (ts ! (j - n))"
proof (induction P ts n rule: slot_loop.induct)
  case (1 P t ts i)
  show ?case
  proof (cases "P t")
    case True
    then show ?thesis using 1 by simp
  next
    case False
    then have "i + 1 \<le> j \<and> j - (i + 1) < length ts \<and> P (ts ! (j - (i + 1)))" using 1 by simp
    moreover from this have "j - i = Suc (j - (i + 1))" by (elim conjE) linarith
    ultimately show ?thesis by simp
  qed
qed simp

lemma slot_loop_None: "slot_loop P ts n = None \<longleftrightarrow> (\<forall>t \<in> set ts. \<not> P t)"
  by (induction P ts n rule: slot_loop.induct) auto

lemma backup_find_SomeD:
  "backup_find_tcb ip port s = Some i
    \<Longrightarrow> i < length (tcb_table s) \<and> is_endpoint ip port (tcb_table s ! i)"
  using slot_loop_Some [of "is_endpoint ip port" "tcb_table s" 0 i] by (simp add: backup_find_tcb_def)

lemma backup_find_None:
  "backup_find_tcb ip port s = None \<longleftrightarrow> (\<forall>t \<in> set (tcb_table s). \<not> is_endpoint ip port t)"
  by (simp add: backup_find_tcb_def slot_loop_None)

text \<open>At most one slot serves an endpoint.\<close>

definition endpoints_distinct :: "tcp_control_block list \<Rightarrow> bool" where
  "endpoints_distinct ts \<longleftrightarrow>
     (\<forall>i < length ts. \<forall>j < length ts. b_state (ts ! i) \<noteq> TCP_CLOSED
        \<and> is_endpoint (b_remote_ip (ts ! i)) (b_remote_port (ts ! i)) (ts ! j) \<longrightarrow> i = j)"

lemma endpoints_distinctD:
  "\<lbrakk>endpoints_distinct ts; i < length ts; j < length ts; is_endpoint ip port (ts ! i); is_endpoint ip port (ts ! j)\<rbrakk>
    \<Longrightarrow> i = j"
  by (auto simp: endpoints_distinct_def is_endpoint_def)

text \<open>A slot whose endpoint is kept, or given up.\<close>

lemma endpoints_distinct_update:
  assumes "endpoints_distinct ts" and "i < length ts"
    and "b_state t \<noteq> TCP_CLOSED
      \<Longrightarrow> b_remote_ip t = b_remote_ip (ts ! i) \<and> b_remote_port t = b_remote_port (ts ! i) \<and> b_state (ts ! i) \<noteq> TCP_CLOSED"
  shows "endpoints_distinct (ts[i := t])"
  using assms unfolding endpoints_distinct_def is_endpoint_def
  by (auto simp: nth_list_update split: if_splits; fastforce)

text \<open>A new endpoint in a slot.\<close>

lemma endpoints_distinct_new:
  assumes "endpoints_distinct ts" and "i < length ts"
    and "\<forall>u \<in> set ts. \<not> is_endpoint (b_remote_ip t) (b_remote_port t) u"
  shows "endpoints_distinct (ts[i := t])"
proof -
  have n: "\<not> is_endpoint (b_remote_ip t) (b_remote_port t) (ts ! j)" if "j < length ts" for j
    using assms(3) that by auto
  show ?thesis unfolding endpoints_distinct_def
  proof (intro allI impI)
    fix j l
    assume "j < length (ts[i := t])" "l < length (ts[i := t])"
      "b_state (ts[i := t] ! j) \<noteq> TCP_CLOSED
       \<and> is_endpoint (b_remote_ip (ts[i := t] ! j)) (b_remote_port (ts[i := t] ! j)) (ts[i := t] ! l)"
    then show "j = l" using n [of j] n [of l] assms(1,2)
      by (cases "j = i"; cases "l = i") (auto simp: is_endpoint_def endpoints_distinct_def)
  qed
qed

text \<open>
  The stack is sound: so is the transmit side below, the table has its eight slots and serves an
  endpoint at most once, and no handler besides the portal's is registered.
\<close>

definition backup_inv :: "backup_stack \<Rightarrow> bool" where
  "backup_inv s \<longleftrightarrow> tx_inv (bs_kernel s) \<and> length (tcb_table s) = MAX_TCP_CONN \<and> endpoints_distinct (tcb_table s)
     \<and> (\<forall>l \<in> set (listeners s). sl_handler l \<in> {None, Some Portal_socket_wrapper})"

section \<open>Sending, step by step\<close>

lemma backup_checksum_control:
  assumes "length t = 20"
  shows "\<exists>c. backup_tcp_checksum (build_pseudo src dst m) t None 0 = Some c"
proof -
  have "backup_tcp_checksum ip t None 0 = backup_tcp_checksum ip t (Some []) 0" for ip
    by (simp add: backup_tcp_checksum_def payload_sum_def)
  moreover have "\<exists>c. backup_tcp_checksum (build_pseudo src dst m) t (Some []) 0 = Some c"
    using backup_checksum_total [of t 0 "[]" src dst m] assms by auto
  ultimately show ?thesis by simp
qed

lemma backup_control_sent:
  assumes "tx_inv k"
  shows "\<exists>c k'. backup_tcp_checksum (build_pseudo src dst m) (tcp_image h) None 0 = Some c
    \<and> ipv4_send ip 6 (tcp_image (h\<lparr>th_checksum := c\<rparr>)) 20 k = Some k' \<and> sent_ok k k'"
proof -
  obtain c where "backup_tcp_checksum (build_pseudo src dst m) (tcp_image h) None 0 = Some c"
    using backup_checksum_control [of "tcp_image h" src dst m] by auto
  moreover have "unat (20 :: u32) \<le> length (tcp_image (h\<lparr>th_checksum := c\<rparr>))" "unat (20 :: u32) \<le> 2 ^ 30"
    by simp_all
  ultimately show ?thesis using ipv4_send_safe [OF assms] by blast
qed

lemma set_slot_Some: "i < length (tcb_table s) \<Longrightarrow> set_slot i f s = Some (s\<lparr>tcb_table := (tcb_table s)[i := f (tcb_table s ! i)]\<rparr>)"
  by (simp add: set_slot_def slot_def)

lemma backup_send_synack_ok:
  assumes "tx_inv (bs_kernel s)" and "i < length (tcb_table s)"
  shows "\<exists>k'. sent_ok (bs_kernel s) k' \<and> backup_send_synack i s = Some (s\<lparr>bs_kernel := k',
    tcb_table := (tcb_table s)[i := (tcb_table s ! i)\<lparr>b_snd_nxt := b_snd_nxt (tcb_table s ! i) + 1, b_last_activity := bs_uptime s\<rparr>]\<rparr>)"
proof -
  let ?t = "tcb_table s ! i"
  from backup_control_sent [OF assms(1), of "aether_ip (bs_kernel s)" "b_remote_ip ?t" 20
    "backup_reply (b_local_port ?t) (b_remote_port ?t) (TCP_FLAG_SYN OR TCP_FLAG_ACK) ?t" "b_remote_ip ?t"]
  obtain c k' where "sent_ok (bs_kernel s) k'"
    "backup_tcp_checksum (build_pseudo (aether_ip (bs_kernel s)) (b_remote_ip ?t) 20)
       (tcp_image (backup_reply (b_local_port ?t) (b_remote_port ?t) (TCP_FLAG_SYN OR TCP_FLAG_ACK) ?t)) None 0 = Some c"
    "ipv4_send (b_remote_ip ?t) 6 (tcp_image ((backup_reply (b_local_port ?t) (b_remote_port ?t)
       (TCP_FLAG_SYN OR TCP_FLAG_ACK) ?t)\<lparr>th_checksum := c\<rparr>)) 20 (bs_kernel s) = Some k'" by blast
  then show ?thesis using assms(2)
    by (intro exI [of _ k']) (simp add: backup_send_synack_def slot_def set_slot_def Let_def)
qed

lemma backup_send_ack_ok:
  assumes "tx_inv (bs_kernel s)" and "i < length (tcb_table s)"
  shows "\<exists>k'. sent_ok (bs_kernel s) k' \<and> backup_send_ack i s = Some (s\<lparr>bs_kernel := k',
    tcb_table := (tcb_table s)[i := (tcb_table s ! i)\<lparr>b_last_activity := bs_uptime s\<rparr>]\<rparr>)"
proof -
  let ?t = "tcb_table s ! i"
  from backup_control_sent [OF assms(1), of "aether_ip (bs_kernel s)" "b_remote_ip ?t" 20
    "backup_reply (b_local_port ?t) (b_remote_port ?t) TCP_FLAG_ACK ?t" "b_remote_ip ?t"]
  obtain c k' where "sent_ok (bs_kernel s) k'"
    "backup_tcp_checksum (build_pseudo (aether_ip (bs_kernel s)) (b_remote_ip ?t) 20)
       (tcp_image (backup_reply (b_local_port ?t) (b_remote_port ?t) TCP_FLAG_ACK ?t)) None 0 = Some c"
    "ipv4_send (b_remote_ip ?t) 6 (tcp_image ((backup_reply (b_local_port ?t) (b_remote_port ?t)
       TCP_FLAG_ACK ?t)\<lparr>th_checksum := c\<rparr>)) 20 (bs_kernel s) = Some k'" by blast
  then show ?thesis using assms(2)
    by (intro exI [of _ k']) (simp add: backup_send_ack_def slot_def set_slot_def Let_def)
qed

lemma backup_send_fin_ok:
  assumes "tx_inv (bs_kernel s)" and "backup_find_tcb ip port s = Some i"
    and "b_state (tcb_table s ! i) = TCP_ESTABLISHED"
  shows "\<exists>k'. sent_ok (bs_kernel s) k' \<and> backup_send_fin ip port lp s = Some (s\<lparr>bs_kernel := k',
    tcb_table := (tcb_table s)[i := (tcb_table s ! i)\<lparr>b_snd_nxt := b_snd_nxt (tcb_table s ! i) + 1, b_state := TCP_LAST_ACK,
      b_last_activity := bs_uptime s\<rparr>]\<rparr>)"
proof -
  let ?t = "tcb_table s ! i"
  note i = backup_find_SomeD [OF assms(2)]
  from backup_control_sent [OF assms(1), of "aether_ip (bs_kernel s)" ip 20
    "backup_reply lp port (TCP_FLAG_FIN OR TCP_FLAG_ACK) ?t" ip]
  obtain c k' where "sent_ok (bs_kernel s) k'"
    "backup_tcp_checksum (build_pseudo (aether_ip (bs_kernel s)) ip 20)
       (tcp_image (backup_reply lp port (TCP_FLAG_FIN OR TCP_FLAG_ACK) ?t)) None 0 = Some c"
    "ipv4_send ip 6 (tcp_image ((backup_reply lp port (TCP_FLAG_FIN OR TCP_FLAG_ACK) ?t)\<lparr>th_checksum := c\<rparr>)) 20
       (bs_kernel s) = Some k'" by blast
  then show ?thesis using assms(2,3) i
    by (intro exI [of _ k']) (simp add: backup_send_fin_def slot_def set_slot_def Let_def)
qed

text \<open>The stores that build a data segment in a fresh block.\<close>

lemma backup_fill:
  assumes "heap_inv (k_heap k)" and "live (k_heap k) p = Some m" and "20 + length body \<le> m"
  shows "\<exists>h1 h2 h3 h.
      k_store p 0 (replicate (20 + length body) 0) k = Some (k\<lparr>k_heap := h1\<rparr>)
    \<and> k_store p 0 (tcp_image hdr) (k\<lparr>k_heap := h1\<rparr>) = Some (k\<lparr>k_heap := h2\<rparr>)
    \<and> k_store p 20 body (k\<lparr>k_heap := h2\<rparr>) = Some (k\<lparr>k_heap := h3\<rparr>)
    \<and> ram_read (ram h3) p 20 = tcp_image hdr \<and> ram_read (ram h3) (p + 20) (length body) = body
    \<and> k_store p 16 (st16 c) (k\<lparr>k_heap := h3\<rparr>) = Some (k\<lparr>k_heap := h\<rparr>)
    \<and> only_block p (k_heap k) h
    \<and> ram_read (ram h) p (20 + length body) = take 16 (tcp_image hdr) @ st16 c @ drop 18 (tcp_image hdr) @ body"
proof -
  let ?n = "length body" and ?img = "tcp_image hdr"
  have z: "ram_read (ram (k_heap k)) p 0 = []" by (simp add: ram_read_def)
  from k_store_append [OF assms(1,2) _ z, of "replicate (20 + ?n) 0"] assms(3) obtain h1 where
    s1: "k_store p 0 (replicate (20 + ?n) 0) k = Some (k\<lparr>k_heap := h1\<rparr>)" "only_block p (k_heap k) h1" by auto
  have b1: "heap_inv h1" "live h1 p = Some m" using s1(2) assms(2) by (simp_all add: only_block_def)
  have z1: "ram_read (ram h1) p 0 = []" by (simp add: ram_read_def)
  from k_store_append [of "k\<lparr>k_heap := h1\<rparr>" p m 0 ?img "[]"] b1 z1 assms(3)
  obtain h2 where s2: "k_store p 0 ?img (k\<lparr>k_heap := h1\<rparr>) = Some (k\<lparr>k_heap := h2\<rparr>)" "only_block p h1 h2"
    "ram_read (ram h2) p 20 = ?img" by auto
  have b2: "heap_inv h2" "live h2 p = Some m" using s2(2) b1 by (simp_all add: only_block_def)
  from k_store_append [of "k\<lparr>k_heap := h2\<rparr>" p m 20 body ?img] b2 s2(3) assms(3)
  obtain h3 where s3: "k_store p 20 body (k\<lparr>k_heap := h2\<rparr>) = Some (k\<lparr>k_heap := h3\<rparr>)" "only_block p h2 h3"
    "ram_read (ram h3) p (20 + ?n) = ?img @ body" by auto
  have b3: "heap_inv h3" "live h3 p = Some m" using s3(2) b2 by (simp_all add: only_block_def)
  have r3: "ram_read (ram h3) p 20 = ?img" "ram_read (ram h3) (p + 20) ?n = body"
    using s3(3) by (simp_all add: ram_read_add [of _ _ 20 ?n])
  from k_store_splice [of "k\<lparr>k_heap := h3\<rparr>" p m 16 "st16 c" "20 + ?n" "?img @ body"] b3 s3(3) assms(3)
  obtain h4 where s4: "k_store p 16 (st16 c) (k\<lparr>k_heap := h3\<rparr>) = Some (k\<lparr>k_heap := h4\<rparr>)" "only_block p h3 h4"
    "ram_read (ram h4) p (20 + ?n) = take 16 (?img @ body) @ st16 c @ drop 18 (?img @ body)" by auto
  have "only_block p (k_heap k) h4"
    using s1(2) s2(2) s3(2) s4(2) only_block_trans by blast
  moreover have "ram_read (ram h4) p (20 + ?n) = take 16 ?img @ st16 c @ drop 18 ?img @ body"
    using s4(3) by simp
  ultimately show ?thesis using s1(1) s2(1) s3(1) r3 s4(1) by blast
qed

lemma backup_send_data_ok:
  assumes inv: "tx_inv (bs_kernel s)" and find: "backup_find_tcb ip port s = Some i"
    and est: "b_state (tcb_table s ! i) = TCP_ESTABLISHED" and len: "unat n \<le> length d" "unat n \<le> 65515"
  obtains (nomem) k' where "sent_ok (bs_kernel s) k'" "backup_send_data ip port lp d n s = Some (s\<lparr>bs_kernel := k'\<rparr>)"
  | (sent) k' where "sent_ok (bs_kernel s) k'" "backup_send_data ip port lp d n s = Some (s\<lparr>bs_kernel := k',
      tcb_table := (tcb_table s)[i := (tcb_table s ! i)\<lparr>b_snd_nxt := b_snd_nxt (tcb_table s ! i) + n,
        b_last_activity := bs_uptime s\<rparr>]\<rparr>)"
proof -
  let ?kern = "bs_kernel s" and ?t = "tcb_table s ! i" and ?body = "take (unat n) d"
  let ?h = "backup_reply lp port (TCP_FLAG_ACK OR TCP_FLAG_PSH) ?t"
  note i = backup_find_SomeD [OF find]
  have h0: "heap_inv (k_heap ?kern)" using inv by (simp add: tx_inv_def)
  have lb: "length ?body = unat n" using len by simp
  have tot: "unat (20 + n) = 20 + unat n" using len by (simp add: unat_word_ariths)
  have big: "unat (ucast (20 + n) :: u64) \<le> 2 ^ 32" using tot len by simp
  from h0 big show thesis
  proof (cases rule: k_kmalloc_cases)
    case (null u h)
    have "sent_ok ?kern (?kern\<lparr>k_uart := u, k_heap := h\<rparr>)"
      using tx_inv_heap [OF inv null(2,3)] null(3) by (auto simp: sent_ok_def same_conns_def)
    then show thesis using null(1) find est i
      by (intro nomem [of "?kern\<lparr>k_uart := u, k_heap := h\<rparr>"]) (simp_all add: backup_send_data_def slot_def Let_def)
  next
    case (block p m u h)
    let ?k = "?kern\<lparr>k_uart := u, k_heap := h\<rparr>"
    obtain c where c: "backup_tcp_checksum (build_pseudo (aether_ip ?kern) ip (ucast (20 + n))) (tcp_image ?h) (Some ?body) n = Some c"
      using backup_checksum_total [of "tcp_image ?h" n ?body "aether_ip ?kern" ip "ucast (20 + n)"] lb len by auto
    have hp: "heap_inv (k_heap ?k)" "live (k_heap ?k) p = Some m" "20 + length ?body \<le> m"
      using block tot lb by simp_all
    from backup_fill [OF hp, of ?h c] obtain h1 h2 h3 h' where
      fill: "k_store p 0 (replicate (20 + unat n) 0) ?k = Some (?k\<lparr>k_heap := h1\<rparr>)"
        "k_store p 0 (tcp_image ?h) (?k\<lparr>k_heap := h1\<rparr>) = Some (?k\<lparr>k_heap := h2\<rparr>)"
        "k_store p 20 ?body (?k\<lparr>k_heap := h2\<rparr>) = Some (?k\<lparr>k_heap := h3\<rparr>)"
        "ram_read (ram h3) p 20 = tcp_image ?h" "ram_read (ram h3) (p + 20) (unat n) = ?body"
        "k_store p 16 (st16 c) (?k\<lparr>k_heap := h3\<rparr>) = Some (?k\<lparr>k_heap := h'\<rparr>)"
      and ob: "only_block p h h'"
      unfolding lb by auto
    have ext: "heap_ext (k_heap ?kern) h'" by (rule heap_ext_only_block [OF block(3,5)]) (use ob in simp)
    have lv: "heap_inv h'" "live h' = (live (k_heap ?kern))(p \<mapsto> m)" using ob block(7) by (simp_all add: only_block_def)
    let ?k' = "?kern\<lparr>k_uart := u, k_heap := h'\<rparr>"
    let ?pkt = "ram_read (ram h') p (20 + unat n)"
    have "tx_inv ?k'" by (rule tx_inv_heap [OF inv lv(1) ext])
    moreover have "unat (20 + n) \<le> length ?pkt" "unat (20 + n) \<le> 2 ^ 30" using tot len by simp_all
    ultimately obtain k1 where k1: "ipv4_send ip 6 ?pkt (20 + n) ?k' = Some k1" "sent_ok ?k' k1"
      using ipv4_send_safe by blast
    from free_own_block [OF inv block(5) lv(2) ext k1(2)] obtain h4 where
      h4: "k_kfree p k1 = Some (k1\<lparr>k_heap := h4\<rparr>)" "sent_ok ?kern (k1\<lparr>k_heap := h4\<rparr>)" by blast
    from h4(2) show thesis
      by (rule sent) (use block(1,4) fill c k1(1) h4(1) i len find est in
        \<open>simp add: backup_send_data_def slot_def set_slot_def Let_def tot rd_bytes_take\<close>)
  qed
qed

section \<open>What an operation on connections may change\<close>

text \<open>A connection that has finished its handshake.\<close>

definition past_handshake :: "tcp_control_block \<Rightarrow> bool" where
  "past_handshake t \<longleftrightarrow> b_state t \<in> {TCP_ESTABLISHED, TCP_CLOSE_WAIT, TCP_LAST_ACK}"

text \<open>
  A slot keeps its endpoint, is not opened, and, unless a RST came, stays past its handshake when
  it was.
\<close>

definition slot_step :: "bool \<Rightarrow> tcp_control_block \<Rightarrow> tcp_control_block \<Rightarrow> bool" where
  "slot_step rst t t' \<longleftrightarrow> b_remote_ip t' = b_remote_ip t \<and> b_remote_port t' = b_remote_port t
     \<and> (b_state t = TCP_CLOSED \<longrightarrow> b_state t' = TCP_CLOSED) \<and> (past_handshake t \<and> \<not> rst \<longrightarrow> past_handshake t')"

lemma slot_step_refl [simp]: "slot_step rst t t"
  by (simp add: slot_step_def)

lemma slot_step_trans: "slot_step rst t u \<Longrightarrow> slot_step rst u v \<Longrightarrow> slot_step rst t v"
  by (auto simp: slot_step_def)

definition kept :: "bool \<Rightarrow> backup_stack \<Rightarrow> backup_stack \<Rightarrow> bool" where
  "kept rst s s' \<longleftrightarrow> sent_ok (bs_kernel s) (bs_kernel s') \<and> bs_uptime s' = bs_uptime s
     \<and> listeners s' = listeners s \<and> listener_count s' = listener_count s
     \<and> list_all2 (slot_step rst) (tcb_table s) (tcb_table s')"

lemma kept_refl: "tx_inv (bs_kernel s) \<Longrightarrow> kept rst s s"
  by (simp add: kept_def sent_ok_refl list.rel_refl)

lemma kept_trans: "kept rst s s' \<Longrightarrow> kept rst s' s'' \<Longrightarrow> kept rst s s''"
  unfolding kept_def using sent_ok_trans list_all2_trans [of "slot_step rst" "slot_step rst" "slot_step rst"]
  by (metis slot_step_trans)

lemma kept_weaken: "kept False s s' \<Longrightarrow> kept rst s s'"
  unfolding kept_def using list_all2_mono [of "slot_step False" _ _ "slot_step rst"]
  by (auto simp: slot_step_def)

lemma kept_tx_inv: "kept rst s s' \<Longrightarrow> tx_inv (bs_kernel s')"
  by (simp add: kept_def sent_ok_def)

lemma kept_length: "kept rst s s' \<Longrightarrow> length (tcb_table s') = length (tcb_table s)"
  by (auto simp: kept_def dest: list_all2_lengthD)

lemma endpoints_distinct_step:
  assumes "list_all2 (slot_step rst) ts us" and "endpoints_distinct ts"
  shows "endpoints_distinct us"
proof -
  have "length us = length ts" using assms(1) by (auto dest: list_all2_lengthD)
  moreover have "slot_step rst (ts ! i) (us ! i)" if "i < length ts" for i
    using assms(1) that by (rule list_all2_nthD)
  ultimately show ?thesis using assms(2) unfolding endpoints_distinct_def is_endpoint_def slot_step_def
    by (metis (no_types, lifting))
qed

lemma kept_inv: "kept rst s s' \<Longrightarrow> backup_inv s \<Longrightarrow> backup_inv s'"
  using endpoints_distinct_step kept_length [of rst s s']
  by (auto simp: backup_inv_def kept_def sent_ok_def)

lemma kept_update:
  assumes "sent_ok (bs_kernel s) k'" and "i < length (tcb_table s) \<Longrightarrow> slot_step rst (tcb_table s ! i) t"
  shows "kept rst s (s\<lparr>bs_kernel := k', tcb_table := (tcb_table s)[i := t]\<rparr>)"
proof -
  have "slot_step rst (tcb_table s ! j) ((tcb_table s)[i := t] ! j)" if "j < length (tcb_table s)" for j
    using assms(2) that by (cases "j = i") simp_all
  then show ?thesis using assms(1) by (simp add: kept_def list_all2_conv_all_nth)
qed

lemma set_slot_kept:
  assumes "tx_inv (bs_kernel s)" and "i < length (tcb_table s)" and "slot_step rst (tcb_table s ! i) (f (tcb_table s ! i))"
  shows "\<exists>s'. set_slot i f s = Some s' \<and> kept rst s s'
    \<and> tcb_table s' = (tcb_table s)[i := f (tcb_table s ! i)] \<and> bs_kernel s' = bs_kernel s"
  using kept_update [OF sent_ok_refl [OF assms(1)], of i rst "f (tcb_table s ! i)"] assms(2,3)
  by (simp add: set_slot_Some)

lemma bs_puts_kept:
  assumes "tx_inv (bs_kernel s)"
  shows "kept rst s (bs_puts x s)"
proof -
  have "sent_ok k (k_puts x k)" if "tx_inv k" for k
    using that net_inv_cong [of "k_puts x k" k] by (simp add: sent_ok_def same_conns_def)
  then show ?thesis using assms by (simp add: kept_def bs_puts_def list.rel_refl)
qed

lemma bs_puts_table [simp]: "tcb_table (bs_puts x s) = tcb_table s"
  by (simp add: bs_puts_def)

lemma past_handshake_update [simp]:
  "past_handshake (t\<lparr>b_last_activity := a\<rparr>) = past_handshake t"
  "past_handshake (t\<lparr>b_snd_nxt := x\<rparr>) = past_handshake t"
  "past_handshake (t\<lparr>b_rcv_nxt := x\<rparr>) = past_handshake t"
  by (simp_all add: past_handshake_def)

lemma backup_send_ack_kept:
  assumes "tx_inv (bs_kernel s)" and "i < length (tcb_table s)"
  shows "\<exists>s'. backup_send_ack i s = Some s' \<and> kept rst s s'"
proof -
  from backup_send_ack_ok [OF assms] obtain k' where k: "sent_ok (bs_kernel s) k'"
    "backup_send_ack i s = Some (s\<lparr>bs_kernel := k',
       tcb_table := (tcb_table s)[i := (tcb_table s ! i)\<lparr>b_last_activity := bs_uptime s\<rparr>]\<rparr>)" by blast
  show ?thesis unfolding k(2)
    by (intro exI conjI, rule refl, rule kept_update [OF k(1)]) (simp add: slot_step_def)
qed

lemma backup_send_data_kept:
  assumes "tx_inv (bs_kernel s)" and "unat n \<le> length d" and "unat n \<le> 65515"
  shows "\<exists>s'. backup_send_data ip port lp d n s = Some s' \<and> kept rst s s'"
proof (cases "backup_find_tcb ip port s")
  case None
  then show ?thesis using kept_refl [OF assms(1)] by (simp add: backup_send_data_def)
next
  case (Some i)
  note i = backup_find_SomeD [OF Some]
  show ?thesis
  proof (cases "b_state (tcb_table s ! i) = TCP_ESTABLISHED")
    case False
    then show ?thesis using Some i kept_refl [OF assms(1)] by (simp add: backup_send_data_def slot_def)
  next
    case True
    from assms(1) Some True assms(2,3) show ?thesis
    proof (cases rule: backup_send_data_ok [where lp = lp])
      case (nomem k')
      then show ?thesis by (simp add: kept_def list.rel_refl)
    next
      case (sent k')
      show ?thesis unfolding sent(2)
        by (intro exI conjI, rule refl, rule kept_update [OF sent(1)]) (simp add: slot_step_def)
    qed
  qed
qed

lemma backup_send_fin_kept:
  assumes "tx_inv (bs_kernel s)"
  shows "\<exists>s'. backup_send_fin ip port lp s = Some s' \<and> kept rst s s'"
proof (cases "backup_find_tcb ip port s")
  case None
  then show ?thesis using kept_refl [OF assms] by (simp add: backup_send_fin_def)
next
  case (Some i)
  note i = backup_find_SomeD [OF Some]
  show ?thesis
  proof (cases "b_state (tcb_table s ! i) = TCP_ESTABLISHED")
    case False
    then show ?thesis using Some i kept_refl [OF assms] by (simp add: backup_send_fin_def slot_def)
  next
    case True
    from backup_send_fin_ok [OF assms Some True, of lp] obtain k' where k: "sent_ok (bs_kernel s) k'"
      "backup_send_fin ip port lp s = Some (s\<lparr>bs_kernel := k', tcb_table := (tcb_table s)[i := (tcb_table s ! i)
         \<lparr>b_snd_nxt := b_snd_nxt (tcb_table s ! i) + 1, b_state := TCP_LAST_ACK, b_last_activity := bs_uptime s\<rparr>]\<rparr>)"
      by blast
    show ?thesis unfolding k(2)
      by (intro exI conjI, rule refl, rule kept_update [OF k(1)]) (use i in \<open>auto simp: slot_step_def past_handshake_def is_endpoint_def\<close>)
  qed
qed

end
