(* ===== verification/Backup_Input.thy ===== *)
theory Backup_Input
  imports Backup_Tcp
begin

text \<open>
  The input half of the earlier stack: the socket registry and the portal's page
  (backups/src/socket.c) and \<open>tcp_handle\<close> (backups/src/tcp.c). The page \<open>aether_index_html\<close> is
  declared there and defined nowhere in the tree, so its memory is a parameter, and so are the
  handlers a program could register besides the portal's.
\<close>

section \<open>The socket registry\<close>

definition MAX_LISTENERS :: nat where "MAX_LISTENERS = 16"

definition backup_socket_register :: "u16 \<Rightarrow> socket_handler_t option \<Rightarrow> backup_stack \<Rightarrow> int \<times> backup_stack" where
  "backup_socket_register port handler s =
     (if MAX_LISTENERS \<le> listener_count s then (- 1, s)
      else (0, s\<lparr>listeners := (listeners s)[listener_count s := \<lparr>sl_port = port, sl_handler = handler\<rparr>],
                 listener_count := listener_count s + 1\<rparr>))"

definition backup_socket_init :: "backup_stack \<Rightarrow> backup_stack" where
  "backup_socket_init s =
     (let (r, s) = backup_socket_register 80 (Some Portal_socket_wrapper) (s\<lparr>listener_count := 0\<rparr>)
      in bs_puts (str ''[OK] Socket Layer Initialized (Port 80 bound)'' @ crlf) s)"

fun listener_loop :: "u16 \<Rightarrow> nat \<Rightarrow> socket_listener list \<Rightarrow> socket_handler_t option" where
  "listener_loop port (Suc n) (l # ls) = (if sl_port l = port then sl_handler l else listener_loop port n ls)"
| "listener_loop port _ _ = None"

definition backup_socket_lookup :: "u16 \<Rightarrow> backup_stack \<Rightarrow> socket_handler_t option" where
  "backup_socket_lookup port s = listener_loop port (listener_count s) (listeners s)"

definition backup_send_rst :: "u32 \<Rightarrow> u16 \<Rightarrow> u16 \<Rightarrow> backup_stack \<Rightarrow> backup_stack" where
  "backup_send_rst dst_ip dst_port src_port s = bs_puts (str ''[SOCKET] RST requested (not implemented)'' @ crlf) s"

section \<open>The portal's handler\<close>

text \<open>
  \<open>str_contains\<close> on a pointer into a buffer: it reads up to a match or a zero byte, and past
  what can be read, a fault, if there is neither.
\<close>

definition mem_contains :: "bytes \<Rightarrow> bytes \<Rightarrow> bool option" where
  "mem_contains mem needle =
     (let found = str_contains (Some (takeWhile (\<lambda>c. c \<noteq> 0) mem)) (Some needle)
      in if found \<or> 0 \<in> set mem then Some found else None)"

definition portal_header_format :: bytes where
  "portal_header_format =
     str ''HTTP/1.0 200 OK'' @ crlf @ str ''Content-Length: %u'' @ crlf @ str ''Connection: close'' @ crlf
     @ str ''Content-Type: text/html'' @ crlf @ crlf @ [0]"

text \<open>The header's buffer is an uninitialised local of 256 bytes; only what is printed to it is sent.\<close>

definition portal_socket_wrapper ::
    "bytes \<Rightarrow> bytes \<Rightarrow> u64 \<Rightarrow> u32 \<Rightarrow> u16 \<Rightarrow> backup_stack \<Rightarrow> backup_stack option" where
  "portal_socket_wrapper aether_index_html data n src_ip src_port s =
     (let s = bs_puts (str ''[PORTAL] Wrapper entered'' @ crlf) s
      in if n = 0 then Some s
         else do {
           found \<leftarrow> mem_contains data (str ''GET '');
           if \<not> found then Some s
           else do {
             let s = bs_puts (str ''[PORTAL] GET detected'' @ crlf) s;
             body_len \<leftarrow> str_len aether_index_html;
             (header, header_len) \<leftarrow> ksnprintf (Some (replicate 256 0)) 256 portal_header_format [UArg body_len];
             let s = bs_puts (str ''[PORTAL] Sending header'' @ crlf) s;
             s \<leftarrow> backup_send_data src_ip src_port 80 (the header) (of_nat header_len) s;
             let s = bs_puts (str ''[PORTAL] Sending body'' @ crlf) s;
             s \<leftarrow> backup_send_data src_ip src_port 80 aether_index_html body_len s;
             let s = bs_puts (str ''[PORTAL] Sending FIN'' @ crlf) s;
             backup_send_fin src_ip src_port 80 s } })"

type_synonym app = "bytes \<Rightarrow> u64 \<Rightarrow> u32 \<Rightarrow> u16 \<Rightarrow> backup_stack \<Rightarrow> backup_stack option"

definition backup_socket_handle_packet ::
    "bytes \<Rightarrow> (nat \<Rightarrow> app) \<Rightarrow> u16 \<Rightarrow> bytes \<Rightarrow> u64 \<Rightarrow> u32 \<Rightarrow> u16 \<Rightarrow> backup_stack \<Rightarrow> backup_stack option" where
  "backup_socket_handle_packet html apps dst_port payload n src_ip src_port s =
     (let s = bs_puts (str ''[SOCKET] Packet dispatched'' @ crlf) s
      in case backup_socket_lookup dst_port s of
           None \<Rightarrow> Some (bs_puts (str ''[SOCKET] No handler for port'' @ crlf) s)
         | Some Portal_socket_wrapper \<Rightarrow> portal_socket_wrapper html payload n src_ip src_port s
         | Some (Other_handler i) \<Rightarrow> apps i payload n src_ip src_port s)"

section \<open>The handler\<close>

text \<open>A SYN for an endpoint that has no connection yet.\<close>

definition backup_accept_syn :: "u32 \<Rightarrow> u16 \<Rightarrow> u16 \<Rightarrow> u32 \<Rightarrow> backup_stack \<Rightarrow> backup_stack option" where
  "backup_accept_syn src_ip src_port dest_port incoming_seq s =
     (case backup_allocate_tcb s of
        (None, s) \<Rightarrow> Some s
      | (Some tcb, s) \<Rightarrow> do {
          s \<leftarrow> set_slot tcb (\<lambda>t. t\<lparr>b_remote_ip := src_ip, b_remote_port := src_port, b_local_port := dest_port,
                 b_state := TCP_SYN_RCVD, b_snd_nxt := 0, b_rcv_nxt := incoming_seq + 1, b_rcv_wnd := 8192,
                 b_last_activity := bs_uptime s\<rparr>) s;
          backup_send_synack tcb s })"

text \<open>A segment of a connection: the end of the handshake, data, FIN and RST, in this order.\<close>

definition backup_tcb_input ::
    "bytes \<Rightarrow> (nat \<Rightarrow> app) \<Rightarrow> nat \<Rightarrow> tcp_hdr \<Rightarrow> bytes \<Rightarrow> u32 \<Rightarrow> u32 \<Rightarrow> u16 \<Rightarrow> backup_stack \<Rightarrow> backup_stack option" where
  "backup_tcb_input html apps tcb h payload payload_len src_ip src_port s =
     do { s \<leftarrow> set_slot tcb (\<lambda>t. t\<lparr>b_last_activity := bs_uptime s\<rparr>) s;
          t \<leftarrow> slot tcb s;
          if b_state t = TCP_SYN_RCVD \<and> th_flags h AND TCP_FLAG_ACK \<noteq> 0 \<and> th_flags h AND TCP_FLAG_SYN = 0
             \<and> ntohl (th_ack h) = b_snd_nxt t
          then set_slot tcb (\<lambda>t. t\<lparr>b_state := TCP_ESTABLISHED\<rparr>) s
          else if b_state t = TCP_ESTABLISHED \<and> 0 < payload_len
          then if ntohl (th_seq h) = b_rcv_nxt t
               then do { s \<leftarrow> set_slot tcb (\<lambda>t. t\<lparr>b_rcv_nxt := b_rcv_nxt t + payload_len\<rparr>) s;
                         s \<leftarrow> backup_send_ack tcb s;
                         backup_socket_handle_packet html apps (ntohs (th_dst_port h)) payload (ucast payload_len)
                           src_ip src_port s }
               else Some s
          else if th_flags h AND TCP_FLAG_FIN \<noteq> 0 \<and> b_state t = TCP_ESTABLISHED
          then do { s \<leftarrow> set_slot tcb (\<lambda>t. t\<lparr>b_rcv_nxt := b_rcv_nxt t + 1\<rparr>) s;
                    s \<leftarrow> backup_send_ack tcb s;
                    set_slot tcb (\<lambda>t. t\<lparr>b_state := TCP_CLOSE_WAIT\<rparr>) s }
          else if th_flags h AND TCP_FLAG_RST \<noteq> 0
          then set_slot tcb (\<lambda>t. t\<lparr>b_state := TCP_CLOSED\<rparr>) s
          else Some s }"

text \<open>The memory from the segment's first byte on is \<open>segment\<close>; \<open>n\<close> bytes of it are the segment.\<close>

definition backup_tcp_handle ::
    "bytes \<Rightarrow> (nat \<Rightarrow> app) \<Rightarrow> bytes \<Rightarrow> u32 \<Rightarrow> u32 \<Rightarrow> u32 \<Rightarrow> backup_stack \<Rightarrow> backup_stack option" where
  "backup_tcp_handle html apps segment n src_ip dest_ip s =
     (if n < 20 then Some s
      else do {
        h \<leftarrow> tcp_cast segment;
        let header_len = ucast (drop_bit 4 (th_offset_reserved h)) * 4;
        if n < header_len then Some s
        else do {
          let payload = drop (unat header_len) segment;
          let payload_len = n - header_len;
          ok \<leftarrow> backup_validate_checksum (build_pseudo src_ip dest_ip (ucast n)) segment (Some payload) payload_len;
          if \<not> ok then Some s
          else
            let src_port = ntohs (th_src_port h);
                dest_port = ntohs (th_dst_port h);
                tcb = backup_find_tcb src_ip src_port s
            in if th_flags h AND TCP_FLAG_SYN \<noteq> 0 \<and> th_flags h AND TCP_FLAG_ACK = 0 \<and> tcb = None \<and> dest_port = 80
               then backup_accept_syn src_ip src_port dest_port (ntohl (th_seq h)) s
               else case tcb of
                      None \<Rightarrow> Some s
                    | Some i \<Rightarrow> backup_tcb_input html apps i h payload payload_len src_ip src_port s } })"

section \<open>The portal's answer\<close>

lemma ksn_loop_plain:
  "37 \<notin> set xs \<Longrightarrow> 0 \<notin> set xs \<Longrightarrow> length xs \<le> r
    \<Longrightarrow> ksn_loop (xs @ ys) args r out = ksn_loop ys args (r - length xs) (out @ xs)"
proof (induction xs arbitrary: r out)
  case (Cons x xs)
  then have "ksn_loop (xs @ ys) args (r - 1) (out @ [x]) = ksn_loop ys args (r - 1 - length xs) ((out @ [x]) @ xs)"
    by (intro Cons.IH) auto
  moreover have "x \<noteq> 0" "x \<noteq> 37" "r \<noteq> 0" using Cons.prems by auto
  ultimately show ?case by simp
qed simp

definition portal_header_head :: bytes where
  "portal_header_head = str ''HTTP/1.0 200 OK'' @ crlf @ str ''Content-Length: ''"

definition portal_header_tail :: bytes where
  "portal_header_tail = crlf @ str ''Connection: close'' @ crlf @ str ''Content-Type: text/html'' @ crlf @ crlf"

definition portal_header :: "u32 \<Rightarrow> bytes" where
  "portal_header v = portal_header_head @ dec_str (unat v) @ portal_header_tail"

lemma portal_header_parts:
  "length portal_header_head = 33" "length portal_header_tail = 48"
  "37 \<notin> set portal_header_head" "0 \<notin> set portal_header_head"
  "37 \<notin> set portal_header_tail" "0 \<notin> set portal_header_tail"
  by (simp_all add: portal_header_head_def portal_header_tail_def crlf_def str_eval)

lemma portal_format: "portal_header_format = portal_header_head @ 37 # 117 # portal_header_tail @ [0]"
  by (simp add: portal_header_format_def portal_header_head_def portal_header_tail_def crlf_def str_eval)

lemma dec_str_u32: "length (dec_str (unat (v :: u32))) \<le> 10"
proof (rule dec_str_length)
  have "unat v < 4294967296" by (rule unat_u32_less)
  then show "unat v < 10 ^ 10" by (rule less_trans) simp
qed simp

lemma portal_header_length: "length (portal_header v) \<le> 91"
proof -
  have "length (dec_str (unat v)) \<le> 10" by (rule dec_str_u32)
  then show ?thesis by (simp add: portal_header_def portal_header_parts)
qed

lemma portal_header_printed:
  "ksnprintf (Some (replicate 256 0)) 256 portal_header_format [UArg v]
    = Some (Some (splice (replicate 256 0) 0 (portal_header v @ [0])), length (portal_header v))"
proof -
  let ?d = "utoa_dec v"
  have d: "length ?d \<le> 10" unfolding utoa_dec_dec_str by (rule dec_str_u32)
  have "ksn_loop portal_header_format [UArg v] 255 []
      = ksn_loop (37 # 117 # portal_header_tail @ [0]) [UArg v] (255 - length portal_header_head) ([] @ portal_header_head)"
    unfolding portal_format by (rule ksn_loop_plain) (use portal_header_parts in simp_all)
  also have "\<dots> = ksn_loop (portal_header_tail @ [0]) [] (222 - length ?d) (portal_header_head @ ?d)"
    using d by (simp add: portal_header_parts)
  also have "\<dots> = ksn_loop [0] [] (222 - length ?d - length portal_header_tail) ((portal_header_head @ ?d) @ portal_header_tail)"
    by (rule ksn_loop_plain) (use portal_header_parts d in simp_all)
  also have "\<dots> = Some (portal_header v)" by (simp add: portal_header_def utoa_dec_dec_str)
  finally show ?thesis using portal_header_length [of v] by (simp add: ksnprintf_def)
qed

text \<open>The page in memory: a terminated string of at most 65515 bytes.\<close>

definition page_ok :: "bytes \<Rightarrow> bool" where
  "page_ok html \<longleftrightarrow> 0 \<in> set html \<and> length (takeWhile (\<lambda>c. c \<noteq> 0) html) \<le> 65515"

lemma page_len:
  assumes "page_ok html"
  shows "\<exists>n. str_len html = Some n \<and> unat n \<le> length html \<and> unat n \<le> 65515"
proof -
  let ?t = "takeWhile (\<lambda>c. c \<noteq> 0) html" and ?r = "dropWhile (\<lambda>c. c \<noteq> 0) html"
  have "?r \<noteq> []" using assms by (auto simp: page_ok_def dropWhile_eq_Nil_conv)
  then have "\<not> hd ?r \<noteq> 0" by (rule hd_dropWhile)
  then obtain r where "?r = 0 # r" using \<open>?r \<noteq> []\<close> by (cases ?r) auto
  then have e: "html = ?t @ 0 # r" by (metis takeWhile_dropWhile_id)
  have "0 \<notin> set ?t" by (auto dest: set_takeWhileD)
  from str_len_loop_terminated [OF this, of r 0] have "str_len html = Some (of_nat (length ?t))"
    using e by (simp add: str_len_def)
  moreover have "unat (of_nat (length ?t) :: u32) = length ?t"
    using assms by (simp add: page_ok_def unat_of_nat)
  moreover have "length ?t \<le> length html" by (rule length_takeWhile_le)
  ultimately show ?thesis using assms by (auto simp: page_ok_def)
qed

lemma portal_wrapper_kept:
  assumes inv: "tx_inv (bs_kernel s)" and page: "page_ok html" and mem: "0 \<in> set data"
  shows "\<exists>s'. portal_socket_wrapper html data n ip port s = Some s' \<and> kept rst s s'"
proof -
  let ?s1 = "bs_puts (str ''[PORTAL] Wrapper entered'' @ crlf) s"
  have k1: "kept rst s ?s1" by (rule bs_puts_kept [OF inv])
  obtain found where found: "mem_contains data (str ''GET '') = Some found"
    using mem by (auto simp: mem_contains_def Let_def)
  show ?thesis
  proof (cases "n \<noteq> 0 \<and> found")
    case False
    then show ?thesis using found k1 by (auto simp: portal_socket_wrapper_def Let_def)
  next
    case True
    obtain v where v: "str_len html = Some v" "unat v \<le> length html" "unat v \<le> 65515" using page_len [OF page] by blast
    let ?hdr = "splice (replicate 256 0) 0 (portal_header v @ [0])"
    let ?s2 = "bs_puts (str ''[PORTAL] Sending header'' @ crlf) (bs_puts (str ''[PORTAL] GET detected'' @ crlf) ?s1)"
    have k2: "kept rst s ?s2" using k1 by (meson bs_puts_kept kept_trans kept_tx_inv)
    have hl: "unat (of_nat (length (portal_header v)) :: u32) = length (portal_header v)"
      using portal_header_length [of v] by (simp add: unat_of_nat)
    have "unat (of_nat (length (portal_header v)) :: u32) \<le> length ?hdr"
      "unat (of_nat (length (portal_header v)) :: u32) \<le> 65515"
      unfolding hl using portal_header_length [of v] by simp_all
    from backup_send_data_kept [OF kept_tx_inv [OF k2] this, of ip port 80 rst] obtain s3 where
      s3: "backup_send_data ip port 80 ?hdr (of_nat (length (portal_header v))) ?s2 = Some s3" "kept rst ?s2 s3" by blast
    let ?s4 = "bs_puts (str ''[PORTAL] Sending body'' @ crlf) s3"
    have k4: "kept rst s ?s4" using k2 s3(2) by (meson bs_puts_kept kept_trans kept_tx_inv)
    from backup_send_data_kept [OF kept_tx_inv [OF k4] v(2,3), of ip port 80 rst] obtain s5 where
      s5: "backup_send_data ip port 80 html v ?s4 = Some s5" "kept rst ?s4 s5" by blast
    let ?s6 = "bs_puts (str ''[PORTAL] Sending FIN'' @ crlf) s5"
    have k6: "kept rst s ?s6" using k4 s5(2) by (meson bs_puts_kept kept_trans kept_tx_inv)
    from backup_send_fin_kept [OF kept_tx_inv [OF k6], of ip port 80 rst] obtain s7 where
      s7: "backup_send_fin ip port 80 ?s6 = Some s7" "kept rst ?s6 s7" by blast
    have "portal_socket_wrapper html data n ip port s = Some s7"
      using True found v(1) s3(1) s5(1) s7(1)
      by (simp add: portal_socket_wrapper_def portal_header_printed Let_def)
    then show ?thesis using kept_trans [OF k6 s7(2)] by blast
  qed
qed

section \<open>The handler, branch by branch\<close>

lemma listener_loop_handler: "listener_loop port n ls = Some h \<Longrightarrow> \<exists>l \<in> set ls. sl_handler l = Some h"
  by (induction port n ls rule: listener_loop.induct) (auto split: if_splits)

lemma backup_dispatch_kept:
  assumes inv: "tx_inv (bs_kernel s)" and portal: "\<forall>l \<in> set (listeners s). sl_handler l \<in> {None, Some Portal_socket_wrapper}"
    and page: "page_ok html" and mem: "0 \<in> set data"
  shows "\<exists>s'. backup_socket_handle_packet html apps port data n ip rport s = Some s' \<and> kept rst s s'"
proof -
  let ?s1 = "bs_puts (str ''[SOCKET] Packet dispatched'' @ crlf) s"
  have k1: "kept rst s ?s1" by (rule bs_puts_kept [OF inv])
  show ?thesis
  proof (cases "backup_socket_lookup port ?s1")
    case None
    have "kept rst s (bs_puts (str ''[SOCKET] No handler for port'' @ crlf) ?s1)"
      using k1 by (meson bs_puts_kept kept_trans kept_tx_inv)
    then show ?thesis using None by (simp add: backup_socket_handle_packet_def Let_def)
  next
    case (Some h)
    then have "h = Portal_socket_wrapper"
      using portal by (auto simp: backup_socket_lookup_def bs_puts_def dest!: listener_loop_handler)
    moreover obtain s' where "portal_socket_wrapper html data n ip rport ?s1 = Some s'" "kept rst ?s1 s'"
      using portal_wrapper_kept [OF kept_tx_inv [OF k1] page mem] by blast
    ultimately show ?thesis using Some kept_trans [OF k1] by (simp add: backup_socket_handle_packet_def Let_def)
  qed
qed

definition is_rst :: "tcp_hdr \<Rightarrow> bool" where
  "is_rst h \<longleftrightarrow> th_flags h AND TCP_FLAG_RST \<noteq> 0"

lemma backup_tcb_input_kept:
  assumes inv: "backup_inv s" and i: "i < length (tcb_table s)" and page: "page_ok html" and mem: "0 \<in> set payload"
  shows "\<exists>s'. backup_tcb_input html apps i h payload m ip port s = Some s' \<and> kept (is_rst h) s s'"
proof -
  let ?r = "is_rst h" and ?t = "tcb_table s ! i"
  have tx: "tx_inv (bs_kernel s)" using inv by (simp add: backup_inv_def)
  have "slot_step ?r ?t (?t\<lparr>b_last_activity := bs_uptime s\<rparr>)" by (simp add: slot_step_def)
  from set_slot_kept [OF tx i, of ?r "\<lambda>t. t\<lparr>b_last_activity := bs_uptime s\<rparr>", OF this] obtain s1 where
    s1: "set_slot i (\<lambda>t. t\<lparr>b_last_activity := bs_uptime s\<rparr>) s = Some s1" "kept ?r s s1"
      "tcb_table s1 = (tcb_table s)[i := ?t\<lparr>b_last_activity := bs_uptime s\<rparr>]" by blast
  let ?t1 = "?t\<lparr>b_last_activity := bs_uptime s\<rparr>"
  have tx1: "tx_inv (bs_kernel s1)" by (rule kept_tx_inv [OF s1(2)])
  have i1: "i < length (tcb_table s1)" "tcb_table s1 ! i = ?t1" "slot i s1 = Some ?t1"
    using i by (simp_all add: s1(3) slot_def)
  have set1: "\<exists>s'. set_slot i f s1 = Some s' \<and> kept r s1 s'" if "slot_step r ?t1 (f ?t1)" for f r
    using set_slot_kept [OF tx1 i1(1), of r f] that i1(2) by auto
  have ack: "\<exists>s'. (do { s \<leftarrow> set_slot i f s1; backup_send_ack i s }) = Some s' \<and> kept False s1 s'"
    if f: "slot_step False ?t1 (f ?t1)" for f
  proof -
    obtain s2 where s2: "set_slot i f s1 = Some s2" "kept False s1 s2" using set1 [of False f, OF f] by blast
    have "i < length (tcb_table s2)" using i1(1) kept_length [OF s2(2)] by simp
    from backup_send_ack_kept [OF kept_tx_inv [OF s2(2)] this] obtain s3 where
      "backup_send_ack i s2 = Some s3" "kept False s2 s3" by blast
    then show ?thesis using s2 kept_trans by fastforce
  qed
  have "\<exists>s'. backup_tcb_input html apps i h payload m ip port s = Some s' \<and> kept ?r s1 s'"
  proof -
    consider
        (shake) "b_state ?t1 = TCP_SYN_RCVD \<and> th_flags h AND TCP_FLAG_ACK \<noteq> 0 \<and> th_flags h AND TCP_FLAG_SYN = 0
             \<and> ntohl (th_ack h) = b_snd_nxt ?t1"
      | (inorder) "b_state ?t1 = TCP_ESTABLISHED" "0 < m" "ntohl (th_seq h) = b_rcv_nxt ?t1"
      | (other) "b_state ?t1 = TCP_ESTABLISHED" "0 < m" "ntohl (th_seq h) \<noteq> b_rcv_nxt ?t1"
      | (fin) "b_state ?t1 = TCP_ESTABLISHED" "m = 0" "th_flags h AND TCP_FLAG_FIN \<noteq> 0"
      | (rest) "\<not> (b_state ?t1 = TCP_SYN_RCVD \<and> th_flags h AND TCP_FLAG_ACK \<noteq> 0 \<and> th_flags h AND TCP_FLAG_SYN = 0
             \<and> ntohl (th_ack h) = b_snd_nxt ?t1)" "\<not> (b_state ?t1 = TCP_ESTABLISHED \<and> 0 < m)"
          "\<not> (th_flags h AND TCP_FLAG_FIN \<noteq> 0 \<and> b_state ?t1 = TCP_ESTABLISHED)"
      by (auto simp: word_gt_0)
    then show ?thesis
    proof cases
      case shake
      from set1 [of ?r "\<lambda>t. t\<lparr>b_state := TCP_ESTABLISHED\<rparr>"] shake obtain s2 where
        "set_slot i (\<lambda>t. t\<lparr>b_state := TCP_ESTABLISHED\<rparr>) s1 = Some s2" "kept ?r s1 s2"
        by (auto simp: slot_step_def past_handshake_def)
      then show ?thesis using shake s1(1) i1(3) by (simp add: backup_tcb_input_def)
    next
      case inorder
      from ack [of "\<lambda>t. t\<lparr>b_rcv_nxt := b_rcv_nxt t + m\<rparr>"] obtain s2 s3 where
        s2: "set_slot i (\<lambda>t. t\<lparr>b_rcv_nxt := b_rcv_nxt t + m\<rparr>) s1 = Some s2" "backup_send_ack i s2 = Some s3" "kept False s1 s3"
        by (auto simp: slot_step_def bind_eq_Some_conv)
      have "listeners s3 = listeners s" using s1(2) s2(3) by (simp add: kept_def)
      then have pl: "\<forall>l \<in> set (listeners s3). sl_handler l \<in> {None, Some Portal_socket_wrapper}"
        using inv by (simp add: backup_inv_def)
      from backup_dispatch_kept [OF kept_tx_inv [OF s2(3)] pl page mem] obtain s4 where
        "backup_socket_handle_packet html apps (ntohs (th_dst_port h)) payload (ucast m) ip port s3 = Some s4"
        "kept ?r s3 s4" by blast
      then show ?thesis using inorder s1(1) i1(3) s2 kept_trans [OF kept_weaken [OF s2(3)]] by (simp add: backup_tcb_input_def)
    next
      case other
      then show ?thesis using s1(1) i1(3) kept_refl [OF tx1] by (simp add: backup_tcb_input_def)
    next
      case fin
      from ack [of "\<lambda>t. t\<lparr>b_rcv_nxt := b_rcv_nxt t + 1\<rparr>"] obtain s2 s3 where
        s2: "set_slot i (\<lambda>t. t\<lparr>b_rcv_nxt := b_rcv_nxt t + 1\<rparr>) s1 = Some s2" "backup_send_ack i s2 = Some s3" "kept False s1 s3"
        by (auto simp: slot_step_def bind_eq_Some_conv)
      have i3: "i < length (tcb_table s3)" using i1(1) kept_length [OF s2(3)] by simp
      have "slot_step False (tcb_table s1 ! i) (tcb_table s3 ! i)"
        by (rule list_all2_nthD) (use s2(3) i1(1) in \<open>simp_all add: kept_def\<close>)
      then have "b_state (tcb_table s3 ! i) \<noteq> TCP_CLOSED"
        using fin(1) i1(2) by (auto simp: slot_step_def past_handshake_def)
      then have "slot_step ?r (tcb_table s3 ! i) ((tcb_table s3 ! i)\<lparr>b_state := TCP_CLOSE_WAIT\<rparr>)"
        by (simp add: slot_step_def past_handshake_def)
      from set_slot_kept [OF kept_tx_inv [OF s2(3)] i3, of ?r "\<lambda>t. t\<lparr>b_state := TCP_CLOSE_WAIT\<rparr>", OF this] obtain s4 where
        "set_slot i (\<lambda>t. t\<lparr>b_state := TCP_CLOSE_WAIT\<rparr>) s3 = Some s4" "kept ?r s3 s4" by blast
      then show ?thesis using fin s1(1) i1(3) s2 kept_trans [OF kept_weaken [OF s2(3)]] by (simp add: backup_tcb_input_def)
    next
      case rest
      show ?thesis
      proof (cases ?r)
        case True
        from set1 [of ?r "\<lambda>t. t\<lparr>b_state := TCP_CLOSED\<rparr>"] True obtain s2 where
          "set_slot i (\<lambda>t. t\<lparr>b_state := TCP_CLOSED\<rparr>) s1 = Some s2" "kept ?r s1 s2"
          by (auto simp: slot_step_def)
        then show ?thesis using True rest s1(1) i1(3) by (auto simp: backup_tcb_input_def is_rst_def)
      next
        case False
        then show ?thesis using rest s1(1) i1(3) kept_refl [OF tx1] by (auto simp: backup_tcb_input_def is_rst_def)
      qed
    qed
  qed
  then show ?thesis using kept_trans [OF s1(2)] by blast
qed

text \<open>The connection a SYN leaves behind when its answer has been sent.\<close>

definition syn_rcvd_tcb :: "u32 \<Rightarrow> u16 \<Rightarrow> u16 \<Rightarrow> u32 \<Rightarrow> u64 \<Rightarrow> tcp_control_block" where
  "syn_rcvd_tcb ip port lp irs now =
     \<lparr>b_remote_ip = ip, b_remote_port = port, b_local_port = lp, b_state = TCP_SYN_RCVD, b_snd_una = 0,
      b_snd_nxt = 1, b_rcv_nxt = irs + 1, b_snd_wnd = 0, b_rcv_wnd = 8192, b_data_callback = 0, b_last_activity = now\<rparr>"

lemma backup_accept_syn_cases:
  assumes tx: "tx_inv (bs_kernel s)"
  obtains (full) "\<forall>t \<in> set (tcb_table s). b_state t \<noteq> TCP_CLOSED"
      "backup_accept_syn ip port lp irs s = Some (bs_puts (str ''[WARN] TCP: No free TCB slot.'' @ crlf) s)"
  | (opened) i k' where "i < length (tcb_table s)" "b_state (tcb_table s ! i) = TCP_CLOSED" "sent_ok (bs_kernel s) k'"
      "backup_accept_syn ip port lp irs s = Some (s\<lparr>bs_kernel := k',
         tcb_table := (tcb_table s)[i := syn_rcvd_tcb ip port lp irs (bs_uptime s)]\<rparr>)"
proof (cases "slot_loop (\<lambda>t. b_state t = TCP_CLOSED) (tcb_table s) 0")
  case None
  then have "backup_accept_syn ip port lp irs s = Some (bs_puts (str ''[WARN] TCP: No free TCB slot.'' @ crlf) s)"
    by (simp add: backup_accept_syn_def backup_allocate_tcb_def)
  then show thesis using None by (intro full) (simp_all add: slot_loop_None)
next
  case (Some i)
  from slot_loop_Some [OF this] have i: "i < length (tcb_table s)" "b_state (tcb_table s ! i) = TCP_CLOSED" by auto
  let ?new = "(zero_tcb\<lparr>b_rcv_wnd := 8192, b_last_activity := bs_uptime s\<rparr>)\<lparr>b_remote_ip := ip, b_remote_port := port,
    b_local_port := lp, b_state := TCP_SYN_RCVD, b_snd_nxt := 0, b_rcv_nxt := irs + 1, b_rcv_wnd := 8192,
    b_last_activity := bs_uptime s\<rparr>"
  let ?s = "s\<lparr>tcb_table := (tcb_table s)[i := ?new]\<rparr>"
  have "tx_inv (bs_kernel ?s)" "i < length (tcb_table ?s)" using tx i by simp_all
  from backup_send_synack_ok [OF this] obtain k' where k: "sent_ok (bs_kernel s) k'"
    "backup_send_synack i ?s = Some (?s\<lparr>bs_kernel := k', tcb_table := (tcb_table ?s)
       [i := (tcb_table ?s ! i)\<lparr>b_snd_nxt := b_snd_nxt (tcb_table ?s ! i) + 1, b_last_activity := bs_uptime s\<rparr>]\<rparr>)"
    by auto
  have "backup_accept_syn ip port lp irs s = Some (s\<lparr>bs_kernel := k',
         tcb_table := (tcb_table s)[i := syn_rcvd_tcb ip port lp irs (bs_uptime s)]\<rparr>)"
    using i k(2) Some
    by (simp add: backup_accept_syn_def backup_allocate_tcb_def set_slot_def slot_def zero_tcb_def syn_rcvd_tcb_def)
  then show thesis using i k(1) by (intro opened)
qed

text \<open>A segment that passes the length checks and the checksum.\<close>

definition segment_ok :: "bytes \<Rightarrow> u32 \<Rightarrow> u32 \<Rightarrow> u32 \<Rightarrow> tcp_hdr \<Rightarrow> u32 \<Rightarrow> bool" where
  "segment_ok segment n src_ip dest_ip h header_len \<longleftrightarrow> 20 \<le> n \<and> tcp_cast segment = Some h
     \<and> header_len = ucast (drop_bit 4 (th_offset_reserved h)) * 4 \<and> header_len \<le> n
     \<and> backup_validate_checksum (build_pseudo src_ip dest_ip (ucast n)) segment
         (Some (drop (unat header_len) segment)) (n - header_len) = Some True"

text \<open>Such a segment is a SYN for a new endpoint, belongs to a connection, or is dropped.\<close>

definition opens_connection :: "tcp_hdr \<Rightarrow> u32 \<Rightarrow> backup_stack \<Rightarrow> bool" where
  "opens_connection h ip s \<longleftrightarrow> th_flags h AND TCP_FLAG_SYN \<noteq> 0 \<and> th_flags h AND TCP_FLAG_ACK = 0
     \<and> backup_find_tcb ip (ntohs (th_src_port h)) s = None \<and> ntohs (th_dst_port h) = 80"

lemma backup_handle_ok:
  assumes "segment_ok segment n src_ip dest_ip h hl"
  shows "backup_tcp_handle html apps segment n src_ip dest_ip s =
    (if opens_connection h src_ip s
     then backup_accept_syn src_ip (ntohs (th_src_port h)) (ntohs (th_dst_port h)) (ntohl (th_seq h)) s
     else case backup_find_tcb src_ip (ntohs (th_src_port h)) s of
            None \<Rightarrow> Some s
          | Some i \<Rightarrow> backup_tcb_input html apps i h (drop (unat hl) segment) (n - hl) src_ip (ntohs (th_src_port h)) s)"
  using assms unfolding segment_ok_def backup_tcp_handle_def opens_connection_def
  by (auto simp: Let_def not_less)

lemma backup_handle_cases:
  assumes "unat n \<le> length segment" and "unat n \<le> 65515"
  obtains (dropped) "backup_tcp_handle html apps segment n src_ip dest_ip s = Some s"
  | (checked) h hl where "segment_ok segment n src_ip dest_ip h hl"
proof (cases "n < 20")
  case True
  then show thesis by (intro dropped) (simp add: backup_tcp_handle_def)
next
  case False
  then have n: "20 \<le> n" "20 \<le> unat n" by (simp_all add: not_less word_le_nat_alt)
  then obtain h where h: "tcp_cast segment = Some h" using assms(1) by (auto simp: tcp_cast_def)
  define hl where "hl = (ucast (drop_bit 4 (th_offset_reserved h)) * 4 :: u32)"
  show thesis
  proof (cases "n < hl")
    case True
    then show thesis using n h by (intro dropped) (simp add: backup_tcp_handle_def hl_def [symmetric] not_less Let_def)
  next
    case False
    then have le: "hl \<le> n" by (simp add: not_less)
    then have u: "unat (n - hl) = unat n - unat hl" by (rule unat_sub)
    have "20 \<le> length segment" "unat (n - hl) \<le> length (drop (unat hl) segment)" "unat (n - hl) \<le> 65515"
      using assms n unfolding u by simp_all
    from backup_validate_total [OF this, of src_ip dest_ip "ucast n"] obtain ok where
      ok: "backup_validate_checksum (build_pseudo src_ip dest_ip (ucast n)) segment
        (Some (drop (unat hl) segment)) (n - hl) = Some ok" by blast
    show thesis
    proof (cases ok)
      case True
      then show thesis using n h hl_def le ok by (intro checked [of h hl]) (simp add: segment_ok_def)
    next
      case False
      then show thesis using n h le ok
        by (intro dropped) (simp add: backup_tcp_handle_def hl_def [symmetric] not_less Let_def)
    qed
  qed
qed

text \<open>The memory behind a segment holds a zero, so the portal's string search ends there.\<close>

definition segment_mem :: "bytes \<Rightarrow> u32 \<Rightarrow> bool" where
  "segment_mem segment n \<longleftrightarrow> unat n \<le> length segment \<and> unat n \<le> 65515 \<and> 0 \<in> set (drop (unat n) segment)"

lemma segment_mem_payload:
  assumes "segment_mem segment n" and "hl \<le> n"
  shows "0 \<in> set (drop (unat hl) segment)"
proof -
  have "unat hl \<le> unat n" using assms(2) by (simp add: word_le_nat_alt)
  then have "set (drop (unat n) segment) \<subseteq> set (drop (unat hl) segment)" by (rule set_drop_subset_set_drop)
  then show ?thesis using assms(1) by (auto simp: segment_mem_def)
qed

text \<open>Everything a segment can do to the stack.\<close>

lemma backup_handle_effect:
  assumes inv: "backup_inv s" and page: "page_ok html" and mem: "segment_mem segment n"
  obtains (kept) s' h where "backup_tcp_handle html apps segment n src_ip dest_ip s = Some s'"
      "kept (is_rst h) s s'" "tcp_cast segment = Some h \<or> s' = s"
  | (fresh) s' i port lp irs k' where "backup_tcp_handle html apps segment n src_ip dest_ip s = Some s'"
      "i < length (tcb_table s)" "b_state (tcb_table s ! i) = TCP_CLOSED" "backup_find_tcb src_ip port s = None"
      "sent_ok (bs_kernel s) k'" "s' = s\<lparr>bs_kernel := k',
         tcb_table := (tcb_table s)[i := syn_rcvd_tcb src_ip port lp irs (bs_uptime s)]\<rparr>"
proof -
  have tx: "tx_inv (bs_kernel s)" using inv by (simp add: backup_inv_def)
  from mem have "unat n \<le> length segment" "unat n \<le> 65515" by (simp_all add: segment_mem_def)
  then show thesis
  proof (cases rule: backup_handle_cases [where src_ip = src_ip and dest_ip = dest_ip and html = html and apps = apps and s = s])
    case dropped
    then show thesis using kept_refl [OF tx] by (intro kept [where s' = s]) auto
  next
    case (checked h hl)
    note run = backup_handle_ok [OF checked, of html apps s]
    have h: "tcp_cast segment = Some h" "hl \<le> n" using checked unfolding segment_ok_def by blast+
    show thesis
    proof (cases "opens_connection h src_ip s")
      case True
      from tx show thesis
      proof (cases rule: backup_accept_syn_cases [where ip = src_ip and port = "ntohs (th_src_port h)"
            and lp = "ntohs (th_dst_port h)" and irs = "ntohl (th_seq h)"])
        case full
        then show thesis using run True bs_puts_kept [OF tx] h(1) by (intro kept) auto
      next
        case (opened i k')
        then show thesis using run True
          by (intro fresh [where i = i and k' = k']) (auto simp: opens_connection_def)
      qed
    next
      case False
      show thesis
      proof (cases "backup_find_tcb src_ip (ntohs (th_src_port h)) s")
        case None
        then show thesis using run False kept_refl [OF tx] h(1) by (intro kept [where s' = s]) auto
      next
        case (Some i)
        have "i < length (tcb_table s)" using backup_find_SomeD [OF Some] by blast
        from backup_tcb_input_kept [OF inv this page segment_mem_payload [OF mem h(2)], of apps h "n - hl" src_ip "ntohs (th_src_port h)"]
        obtain s' where "backup_tcb_input html apps i h (drop (unat hl) segment) (n - hl) src_ip (ntohs (th_src_port h)) s = Some s'"
          "kept (is_rst h) s s'" by blast
        then show thesis using run False Some h(1) by (intro kept) auto
      qed
    qed
  qed
qed

section \<open>Boot\<close>

text \<open>The globals as C leaves them before any code runs, and after the two init functions.\<close>

definition backup_globals :: "kstate \<Rightarrow> backup_stack" where
  "backup_globals k = \<lparr>bs_kernel = k, bs_uptime = 0, tcb_table = replicate MAX_TCP_CONN zero_tcb,
     listeners = replicate MAX_LISTENERS \<lparr>sl_port = 0, sl_handler = None\<rparr>, listener_count = 0\<rparr>"

definition backup_init :: "kstate \<Rightarrow> backup_stack" where
  "backup_init k = backup_socket_init (backup_init_stack (backup_globals k))"

lemma backup_init_table [simp]: "tcb_table (backup_init k) = replicate MAX_TCP_CONN zero_tcb"
  by (simp add: backup_init_def backup_socket_init_def backup_socket_register_def backup_init_stack_def
      backup_globals_def MAX_LISTENERS_def bs_puts_def zero_tcb_def)

lemma backup_init_inv:
  assumes "tx_inv k"
  shows "backup_inv (backup_init k)"
proof -
  have "tx_inv (k_puts x k)" if "tx_inv k" for x k using that net_inv_cong [of "k_puts x k" k] by simp
  then have "tx_inv (bs_kernel (backup_init k))"
    using assms by (simp add: backup_init_def backup_socket_init_def backup_socket_register_def backup_init_stack_def
      backup_globals_def MAX_LISTENERS_def bs_puts_def)
  moreover have "endpoints_distinct (tcb_table (backup_init k))"
    by (simp add: endpoints_distinct_def zero_tcb_def)
  moreover have "listeners (backup_init k)
      = (replicate MAX_LISTENERS \<lparr>sl_port = 0, sl_handler = None\<rparr>)[0 := \<lparr>sl_port = 80, sl_handler = Some Portal_socket_wrapper\<rparr>]"
    by (simp add: backup_init_def backup_socket_init_def backup_socket_register_def backup_init_stack_def
      backup_globals_def MAX_LISTENERS_def bs_puts_def)
  ultimately show ?thesis
    by (simp add: backup_inv_def) (auto simp: MAX_LISTENERS_def dest!: set_update_subset_insert [THEN subsetD])
qed

lemma sample_backup_inv: "backup_inv (backup_init (boot_state (\<lambda>_. 0) 0))"
  using backup_init_inv boot_net_inv [of "\<lambda>_. 0" 0] by (simp add: net_inv_def)

section \<open>Properties\<close>



text \<open>What can happen to the stack: a segment, a timer interrupt, or a run of the SYN watchdog.\<close>

datatype backup_event = Segment_in bytes u32 u32 u32 | Timer_tick | Reap_syn u64

primrec backup_event_step :: "bytes \<Rightarrow> (nat \<Rightarrow> app) \<Rightarrow> backup_event \<Rightarrow> backup_stack \<Rightarrow> backup_stack option" where
  "backup_event_step html apps (Segment_in segment n src_ip dest_ip) s = backup_tcp_handle html apps segment n src_ip dest_ip s"
| "backup_event_step html apps Timer_tick s = Some (s\<lparr>bs_uptime := bs_uptime s + 10\<rparr>)"
| "backup_event_step html apps (Reap_syn timeout) s = backup_reap_syn_timeouts timeout s"

primrec backup_run :: "bytes \<Rightarrow> (nat \<Rightarrow> app) \<Rightarrow> backup_event list \<Rightarrow> backup_stack \<Rightarrow> backup_stack option" where
  "backup_run html apps [] s = Some s"
| "backup_run html apps (e # es) s = do { s \<leftarrow> backup_event_step html apps e s; backup_run html apps es s }"

text \<open>A segment without the RST flag.\<close>

primrec rst_free :: "backup_event \<Rightarrow> bool" where
  "rst_free (Segment_in segment n src_ip dest_ip) \<longleftrightarrow>
     segment_mem segment n \<and> (case tcp_cast segment of Some h \<Rightarrow> \<not> is_rst h | None \<Rightarrow> True)"
| "rst_free Timer_tick \<longleftrightarrow> True"
| "rst_free (Reap_syn timeout) \<longleftrightarrow> True"

definition endpoint_of :: "tcp_control_block \<Rightarrow> u32 \<times> u16" where
  "endpoint_of t = (b_remote_ip t, b_remote_port t)"

definition exhausted :: "backup_stack \<Rightarrow> bool" where
  "exhausted s \<longleftrightarrow> backup_inv s \<and> (\<forall>t \<in> set (tcb_table s). past_handshake t)"

lemma reap_syn_past:
  "\<forall>t \<in> set (tcb_table s). past_handshake t \<Longrightarrow> \<forall>i \<in> set js. i < length (tcb_table s)
    \<Longrightarrow> reap_syn_loop now timeout js s = Some s"
proof (induction js)
  case (Cons j js)
  then have "past_handshake (tcb_table s ! j)" by simp
  then have "b_state (tcb_table s ! j) \<noteq> TCP_SYN_RCVD" by (auto simp: past_handshake_def)
  then show ?case using Cons by (simp add: slot_def)
qed simp

lemma exhausted_step:
  assumes "exhausted s" and "page_ok html" and "rst_free e"
  shows "\<exists>s'. backup_event_step html apps e s = Some s' \<and> exhausted s'
    \<and> map endpoint_of (tcb_table s') = map endpoint_of (tcb_table s)"
proof (cases e)
  case (Segment_in segment n src_ip dest_ip)
  have inv: "backup_inv s" and past: "\<forall>t \<in> set (tcb_table s). past_handshake t"
    using assms(1) by (simp_all add: exhausted_def)
  have mem: "segment_mem segment n" using assms(3) Segment_in by simp
  from inv assms(2) mem show ?thesis
  proof (cases rule: backup_handle_effect [where src_ip = src_ip and dest_ip = dest_ip and apps = apps])
    case (kept s' h)
    have l: "list_all2 (slot_step False) (tcb_table s) (tcb_table s')"
    proof (cases "s' = s")
      case True
      then show ?thesis by (simp add: list.rel_refl)
    next
      case False
      then have "is_rst h = False" using kept(3) assms(3) Segment_in by auto
      then show ?thesis using kept(2) by (simp add: kept_def)
    qed
    have "map endpoint_of (tcb_table s') = map endpoint_of (tcb_table s)"
      using l by (intro nth_equalityI) (auto simp: endpoint_of_def slot_step_def list_all2_conv_all_nth)
    moreover have "past_handshake (tcb_table s' ! i)" if "i < length (tcb_table s')" for i
      using l past that by (auto simp: slot_step_def list_all2_conv_all_nth)
    then have "exhausted s'"
      using kept_inv [OF kept(2) inv] by (auto simp: exhausted_def in_set_conv_nth)
    ultimately show ?thesis using kept(1) Segment_in by auto
  next
    case (fresh s' i port lp irs k')
    then have "past_handshake (tcb_table s ! i)" using past by simp
    then show ?thesis using fresh(3) by (simp add: past_handshake_def)
  qed
next
  case Timer_tick
  then show ?thesis using assms(1) by (simp add: exhausted_def backup_inv_def)
next
  case (Reap_syn timeout)
  have "reap_syn_loop (bs_uptime s) timeout [0..<MAX_TCP_CONN] s = Some s"
    by (rule reap_syn_past) (use assms(1) in \<open>auto simp: exhausted_def backup_inv_def\<close>)
  then show ?thesis using assms(1) Reap_syn by (simp add: backup_reap_syn_timeouts_def)
qed

text \<open>
  C38: the earlier stack serves eight clients in its life. Once its eight slots are past their
  handshakes, no sequence of segments without RST, timer interrupts and watchdog runs ever frees
  one: the same eight endpoints hold the slots, closed or not, and no other client gets in.
\<close>

theorem eight_clients_hold_the_table_forever:
  assumes "exhausted s" and "page_ok html" and "\<forall>e \<in> set es. rst_free e"
  shows "\<exists>s'. backup_run html apps es s = Some s' \<and> exhausted s'
    \<and> map endpoint_of (tcb_table s') = map endpoint_of (tcb_table s)"
  using assms(1,3)
proof (induction es arbitrary: s)
  case Nil
  then show ?case by simp
next
  case (Cons e es)
  then obtain s1 where s1: "backup_event_step html apps e s = Some s1" "exhausted s1"
    "map endpoint_of (tcb_table s1) = map endpoint_of (tcb_table s)"
    using exhausted_step [OF Cons.prems(1) assms(2), of e apps] by auto
  from Cons.IH [OF s1(2)] Cons.prems(2) s1(1,3) show ?case by auto
qed

text \<open>Eight clients whose connections the server has closed.\<close>

definition served :: "nat \<Rightarrow> tcp_control_block" where
  "served i = zero_tcb\<lparr>b_remote_ip := 0x0A000202, b_remote_port := of_nat i, b_state := TCP_LAST_ACK\<rparr>"

lemma sample_exhausted:
  "exhausted ((backup_init (boot_state (\<lambda>_. 0) 0))\<lparr>tcb_table := map served [0..<8]\<rparr>)"
proof -
  have inj: "i = j" if "of_nat i = (of_nat j :: u16)" "i < 8" "j < 8" for i j
  proof -
    have "unat (of_nat i :: u16) = unat (of_nat j :: u16)" using that(1) by simp
    then show ?thesis using that(2,3) by (simp add: unat_of_nat)
  qed
  have "endpoints_distinct (map served [0..<8])"
    unfolding endpoints_distinct_def is_endpoint_def served_def by (auto intro!: inj)
  then show ?thesis using sample_backup_inv
    by (auto simp: exhausted_def backup_inv_def MAX_TCP_CONN_def served_def past_handshake_def)
qed

theorem eight_clients_hold_the_table_forever_witness:
  "\<exists>s'. backup_run [60, 0] (\<lambda>_ _ _ _ _. Some)
      [Segment_in (replicate 40 0) 39 1 2, Timer_tick, Reap_syn 0]
      ((backup_init (boot_state (\<lambda>_. 0) 0))\<lparr>tcb_table := map served [0..<8]\<rparr>) = Some s' \<and> exhausted s'
    \<and> map endpoint_of (tcb_table s') = map (\<lambda>i. (0x0A000202, of_nat i)) [0..<8]"
proof -
  have "page_ok [60, 0]" by (simp add: page_ok_def)
  moreover have "\<forall>e \<in> set [Segment_in (replicate 40 0) 39 1 2, Timer_tick, Reap_syn 0]. rst_free e"
    by (simp add: segment_mem_def tcp_cast_def is_rst_def split: option.splits)
  ultimately show ?thesis
    using eight_clients_hold_the_table_forever [OF sample_exhausted, of "[60, 0]"
      "[Segment_in (replicate 40 0) 39 1 2, Timer_tick, Reap_syn 0]" "\<lambda>_ _ _ _ _. Some"]
    by (simp add: served_def endpoint_of_def comp_def)
qed

text \<open>
  C39: the handshake of the earlier stack proves nothing about the client. A SYN to port 80 from an
  endpoint without a connection takes a free slot with sequence number 0, and the acknowledgement
  that establishes it is the constant 1: a client that never saw the answer can send it.
\<close>

theorem earlier_handshake_is_predictable:
  assumes "backup_inv s" and "t \<in> set (tcb_table s)" and "b_state t = TCP_CLOSED"
    and "segment_ok seg1 n1 ip dest_ip h1 hl1" and "opens_connection h1 ip s"
    and "segment_ok seg2 n2 ip dest_ip h2 hl2" and "th_src_port h2 = th_src_port h1"
    and "th_flags h2 AND TCP_FLAG_ACK \<noteq> 0" and "th_flags h2 AND TCP_FLAG_SYN = 0" and "ntohl (th_ack h2) = 1"
  shows "\<exists>s1 s2 i. backup_tcp_handle html apps seg1 n1 ip dest_ip s = Some s1
    \<and> backup_tcp_handle html apps seg2 n2 ip dest_ip s1 = Some s2
    \<and> i < MAX_TCP_CONN \<and> b_state (tcb_table s ! i) = TCP_CLOSED
    \<and> tcb_table s1 = (tcb_table s)[i := syn_rcvd_tcb ip (ntohs (th_src_port h1)) 80 (ntohl (th_seq h1)) (bs_uptime s)]
    \<and> tcb_table s2 = (tcb_table s)[i := (syn_rcvd_tcb ip (ntohs (th_src_port h1)) 80 (ntohl (th_seq h1)) (bs_uptime s))
        \<lparr>b_state := TCP_ESTABLISHED\<rparr>]"
proof -
  have tx: "tx_inv (bs_kernel s)" and len: "length (tcb_table s) = MAX_TCP_CONN" using assms(1) by (simp_all add: backup_inv_def)
  let ?p = "ntohs (th_src_port h1)" and ?irs = "ntohl (th_seq h1)"
  let ?new = "syn_rcvd_tcb ip ?p 80 ?irs (bs_uptime s)"
  have open1: "ntohs (th_dst_port h1) = 80" "backup_find_tcb ip ?p s = None" 
    using assms(5) by (simp_all add: opens_connection_def)
  from tx obtain i k' where i: "i < length (tcb_table s)" "b_state (tcb_table s ! i) = TCP_CLOSED" "sent_ok (bs_kernel s) k'"
    "backup_accept_syn ip ?p 80 ?irs s = Some (s\<lparr>bs_kernel := k', tcb_table := (tcb_table s)[i := ?new]\<rparr>)"
    using assms(2,3) by (cases rule: backup_accept_syn_cases [where ip = ip and port = ?p and lp = 80 and irs = ?irs]) auto
  let ?s1 = "s\<lparr>bs_kernel := k', tcb_table := (tcb_table s)[i := ?new]\<rparr>"
  have run1: "backup_tcp_handle html apps seg1 n1 ip dest_ip s = Some ?s1"
    using backup_handle_ok [OF assms(4), of html apps s] assms(5) i(4) open1(1) by simp
  have "\<forall>t \<in> set (tcb_table s). \<not> is_endpoint ip ?p t" using open1(2) by (simp add: backup_find_None)
  then have other: "\<not> is_endpoint ip ?p (tcb_table s ! j)" if "j < length (tcb_table s)" for j using that by simp
  have find: "backup_find_tcb ip ?p ?s1 = Some i"
  proof (cases "backup_find_tcb ip ?p ?s1")
    case None
    then have "\<not> is_endpoint ip ?p ?new" using i(1) by (simp add: backup_find_None set_update_memI)
    then show ?thesis by (simp add: is_endpoint_def syn_rcvd_tcb_def)
  next
    case (Some j)
    from backup_find_SomeD [OF Some] have "j < length (tcb_table s)" "is_endpoint ip ?p ((tcb_table s)[i := ?new] ! j)" by auto
    then show ?thesis using other [of j] Some by (cases "j = i") auto
  qed
  have "\<not> opens_connection h2 ip ?s1" using assms(8) by (simp add: opens_connection_def)
  then have "backup_tcp_handle html apps seg2 n2 ip dest_ip ?s1
      = backup_tcb_input html apps i h2 (drop (unat hl2) seg2) (n2 - hl2) ip ?p ?s1"
    using backup_handle_ok [OF assms(6), of html apps ?s1] find assms(7) by simp
  also have "\<dots> = Some (?s1\<lparr>tcb_table := (tcb_table s)[i := ?new\<lparr>b_state := TCP_ESTABLISHED\<rparr>]\<rparr>)"
    using i(1) assms(8-10)
    by (simp add: backup_tcb_input_def set_slot_def slot_def syn_rcvd_tcb_def)
  finally show ?thesis using run1 i(1,2) len by auto
qed

lemma sample_segments:
  "segment_ok [0x9C, 0x40, 0, 80, 0, 0, 0, 0, 0, 0, 0, 0, 0x50, 0x02, 0x20, 0, 226, 58, 0, 0] 20 0x0A000202 0x0A00020F
     \<lparr>th_src_port = 0x409C, th_dst_port = 0x5000, th_seq = 0, th_ack = 0, th_offset_reserved = 0x50, th_flags = 2,
      th_window = 0x20, th_checksum = 0x3AE2, th_urgent_ptr = 0\<rparr> 20"
  "segment_ok [0x9C, 0x40, 0, 80, 0, 0, 0, 0, 0, 0, 0, 1, 0x50, 0x10, 0x20, 0, 226, 43, 0, 0] 20 0x0A000202 0x0A00020F
     \<lparr>th_src_port = 0x409C, th_dst_port = 0x5000, th_seq = 0, th_ack = 0x01000000, th_offset_reserved = 0x50, th_flags = 16,
      th_window = 0x20, th_checksum = 0x2BE2, th_urgent_ptr = 0\<rparr> 20"
proof -
  have h: "ip_halves (htonl 0x0A00020F) = 3852" "ip_halves (htonl 0x0A000202) = 524"
    by (simp_all add: ip_halves_def htonl_def)
  show "segment_ok [0x9C, 0x40, 0, 80, 0, 0, 0, 0, 0, 0, 0, 0, 0x50, 0x02, 0x20, 0, 226, 58, 0, 0] 20 0x0A000202 0x0A00020F
     \<lparr>th_src_port = 0x409C, th_dst_port = 0x5000, th_seq = 0, th_ack = 0, th_offset_reserved = 0x50, th_flags = 2,
      th_window = 0x20, th_checksum = 0x3AE2, th_urgent_ptr = 0\<rparr> 20"
    by (simp add: segment_ok_def tcp_cast_def backup_validate_total backup_total_def h be16_def le16_def le32_def)
  show "segment_ok [0x9C, 0x40, 0, 80, 0, 0, 0, 0, 0, 0, 0, 1, 0x50, 0x10, 0x20, 0, 226, 43, 0, 0] 20 0x0A000202 0x0A00020F
     \<lparr>th_src_port = 0x409C, th_dst_port = 0x5000, th_seq = 0, th_ack = 0x01000000, th_offset_reserved = 0x50, th_flags = 16,
      th_window = 0x20, th_checksum = 0x2BE2, th_urgent_ptr = 0\<rparr> 20"
    by (simp add: segment_ok_def tcp_cast_def backup_validate_total backup_total_def h be16_def le16_def le32_def)
qed

theorem earlier_handshake_is_predictable_witness:
  "\<exists>s1 s2 i. backup_tcp_handle [0] (\<lambda>_ _ _ _ _. Some)
        [0x9C, 0x40, 0, 80, 0, 0, 0, 0, 0, 0, 0, 0, 0x50, 0x02, 0x20, 0, 226, 58, 0, 0] 20 0x0A000202 0x0A00020F
        (backup_init (boot_state (\<lambda>_. 0) 0)) = Some s1
    \<and> backup_tcp_handle [0] (\<lambda>_ _ _ _ _. Some)
        [0x9C, 0x40, 0, 80, 0, 0, 0, 0, 0, 0, 0, 1, 0x50, 0x10, 0x20, 0, 226, 43, 0, 0] 20 0x0A000202 0x0A00020F
        s1 = Some s2
    \<and> i < length (tcb_table s2) \<and> b_state (tcb_table s2 ! i) = TCP_ESTABLISHED"
proof -
  let ?s = "backup_init (boot_state (\<lambda>_. 0) 0)"
  have t: "zero_tcb \<in> set (tcb_table ?s)" "b_state zero_tcb = TCP_CLOSED"
    by (simp_all add: MAX_TCP_CONN_def) (simp add: zero_tcb_def)
  have "backup_find_tcb ip port ?s = None" for ip port
    by (simp add: backup_find_None is_endpoint_def zero_tcb_def)
  then have o: "opens_connection \<lparr>th_src_port = 0x409C, th_dst_port = 0x5000, th_seq = 0, th_ack = 0,
      th_offset_reserved = 0x50, th_flags = 2, th_window = 0x20, th_checksum = 0x3AE2, th_urgent_ptr = 0\<rparr> 0x0A000202 ?s"
    by (simp add: opens_connection_def tcp_flags ntohs_def htons_def)
  let ?c = "syn_rcvd_tcb 0x0A000202 (ntohs 0x409C) 80 0 (bs_uptime ?s)"
  obtain s1 s2 i where "backup_tcp_handle [0] (\<lambda>_ _ _ _ _. Some)
        [0x9C, 0x40, 0, 80, 0, 0, 0, 0, 0, 0, 0, 0, 0x50, 0x02, 0x20, 0, 226, 58, 0, 0] 20 0x0A000202 0x0A00020F ?s = Some s1"
      "backup_tcp_handle [0] (\<lambda>_ _ _ _ _. Some)
        [0x9C, 0x40, 0, 80, 0, 0, 0, 0, 0, 0, 0, 1, 0x50, 0x10, 0x20, 0, 226, 43, 0, 0] 20 0x0A000202 0x0A00020F s1 = Some s2"
      "i < MAX_TCP_CONN" "tcb_table s2 = (tcb_table ?s)[i := ?c\<lparr>b_state := TCP_ESTABLISHED\<rparr>]"
    using earlier_handshake_is_predictable [OF sample_backup_inv t sample_segments(1) o sample_segments(2),
        of "[0]" "\<lambda>_ _ _ _ _. Some"]
    by (auto simp: tcp_flags ntohl_def htonl_def)
  then show ?thesis by (intro exI [of _ s1] exI [of _ s2] exI [of _ i]) simp
qed



end
