(* ===== verification/Aethernxt.thy ===== *)
theory Aethernxt
  imports Vectors Gic
begin

text \<open>
  The second kernel of the repository, in Rust (aethernxt/src): its entry code, which differs from
  that of the C kernel in the loop over the BSS and in the vectors it installs, the serial console
  with the formats it uses, the report of an exception and \<open>kernel::init\<close>, which prints the
  start lines and then executes \<open>svc #0\<close>. The core is that of the theory Entry, the serial port
  that of the theory Gic.
\<close>

unbundle bit_operations_syntax

section \<open>Entry\<close>

record nxt_image =
  nxt_setup_fpu :: addr
  nxt_stack_top :: addr
  nxt_bss_start :: addr
  nxt_bss_end :: addr
  nxt_vectors :: addr

definition nxt_leave_el2 :: "nxt_image \<Rightarrow> core \<Rightarrow> core" where
  "nxt_leave_el2 im c =
     (let c = mov 0 (cnthctl_el2 c) c;
          c = mov 0 (xr c 0 OR 3) c;
          c = c\<lparr>cnthctl_el2 := xr c 0\<rparr>;
          c = c\<lparr>cntvoff_el2 := 0\<rparr>;
          c = mov 0 (push_bit 31 1) c;
          c = mov 0 (xr c 0 OR push_bit 1 1) c;
          c = c\<lparr>hcr_el2 := xr c 0\<rparr>;
          c = mov 0 0x3c5 c;
          c = c\<lparr>spsr_el2 := xr c 0\<rparr>;
          c = mov 0 (nxt_setup_fpu im) c;
          c = c\<lparr>elr_el2 := xr c 0\<rparr>
      in eret_el2 c)"

text \<open>The comparison of the two addresses is signed, and the loop has no other bound.\<close>

partial_function (option) clear_bss :: "core \<Rightarrow> core option" where
  "clear_bss c =
     (if word_sle (xr c 1) (xr c 0) then Some c
      else let c = c\<lparr>cmem := ram_write (cmem c) (xr c 0) (st64 0)\<rparr>;
               c = mov 0 (xr c 0 + 8) c
           in clear_bss c)"

definition nxt_setup :: "nxt_image \<Rightarrow> core \<Rightarrow> core option" where
  "nxt_setup im c =
     (let c = mov 0 (push_bit 20 3) c;
          c = c\<lparr>cpacr_el1 := xr c 0\<rparr>;
          c = mov 0 (nxt_stack_top im) c;
          c = c\<lparr>sp := xr c 0\<rparr>;
          c = mov 0 (nxt_vectors im) c;
          c = c\<lparr>vbar_el1 := xr c 0\<rparr>;
          c = mov 0 (nxt_bss_start im) c;
          c = mov 1 (nxt_bss_end im) c
      in clear_bss c)"

text \<open>The core that calls \<open>rust_main\<close>, if this one does and gets there.\<close>

definition nxt_start :: "nxt_image \<Rightarrow> core \<Rightarrow> core option" where
  "nxt_start im c =
     (let c = mov 0 (mpidr_el1 c) c;
          c = mov 0 (xr c 0 AND 0xFF) c
      in if xr c 0 \<noteq> 0 then None
         else let c = mov 0 (CurrentEL c) c;
                  c = mov 0 (xr c 0 AND 0xC) c;
                  c = mov 0 (drop_bit 2 (xr c 0)) c;
                  c = (if xr c 0 \<noteq> 2 then c else nxt_leave_el2 im c)
              in nxt_setup im c)"

section \<open>Console\<close>

definition NXT_UART_BASE :: addr where "NXT_UART_BASE = 0x09000000"
definition NXT_DR :: addr where "NXT_DR = 0x00"
definition NXT_FR :: addr where "NXT_FR = 0x18"

definition nxt_reg :: "addr \<Rightarrow> addr" where
  "nxt_reg offset = NXT_UART_BASE + offset"

partial_function (option) nxt_putc :: "'d hw \<Rightarrow> u8 \<Rightarrow> 'd \<Rightarrow> 'd option" where
  "nxt_putc hw c d =
     (let (v, d) = load32 hw (nxt_reg NXT_FR) d
      in if v AND push_bit 5 1 \<noteq> 0 then nxt_putc hw c d
         else Some (store32 hw (nxt_reg NXT_DR) (ucast c) d))"

primrec nxt_puts :: "'d hw \<Rightarrow> bytes \<Rightarrow> 'd \<Rightarrow> 'd option" where
  "nxt_puts hw [] d = Some d"
| "nxt_puts hw (byte # s) d =
     do { d \<leftarrow> (if byte = 0x0A then nxt_putc hw 0x0D d else Some d);
          d \<leftarrow> nxt_putc hw byte d;
          nxt_puts hw s d }"

definition nxt_panic :: "'d hw \<Rightarrow> 'd \<Rightarrow> 'd option" where
  "nxt_panic hw d = nxt_puts hw (str ''Kernel Panic!'' @ [0x0A]) d"

text \<open>
  The formats used: \<open>{}\<close>, \<open>{:#x}\<close> and \<open>{:#018x}\<close> of a number (the last with zeros up to
  eighteen characters). \<open>kprintln\<close> hands the pieces of its text, and a newline, to the console.
\<close>

function hex_digits_rev :: "nat \<Rightarrow> bytes" where
  "hex_digits_rev n =
     (if n = 0 then []
      else (if n mod 16 < 10 then 48 + of_nat (n mod 16) else 87 + of_nat (n mod 16)) # hex_digits_rev (n div 16))"
  by pat_completeness auto
termination
  by (relation "measure (\<lambda>n. n)") auto

declare hex_digits_rev.simps [simp del]

definition hex_str :: "nat \<Rightarrow> bytes" where
  "hex_str n = (if n = 0 then [48] else rev (hex_digits_rev n))"

definition fmt_hex :: "u64 \<Rightarrow> bytes" where
  "fmt_hex v = str ''0x'' @ hex_str (unat v)"

definition fmt_hex18 :: "u64 \<Rightarrow> bytes" where
  "fmt_hex18 v = (let s = hex_str (unat v) in str ''0x'' @ replicate (18 - (2 + length s)) 48 @ s)"

definition fmt_dec :: "u64 \<Rightarrow> bytes" where
  "fmt_dec v = dec_str (unat v)"

primrec kprint :: "'d hw \<Rightarrow> bytes list \<Rightarrow> 'd \<Rightarrow> 'd option" where
  "kprint hw [] d = Some d"
| "kprint hw (p # ps) d = do { d \<leftarrow> nxt_puts hw p d; kprint hw ps d }"

definition kprintln :: "'d hw \<Rightarrow> bytes list \<Rightarrow> 'd \<Rightarrow> 'd option" where
  "kprintln hw ps d = kprint hw (ps @ [[0x0A]]) d"

section \<open>Exceptions\<close>

datatype nxt_handler = Handle_sync | Handle_irq | Handle_fiq | Handle_serr

definition nxt_vector_table :: "nxt_handler list" where
  "nxt_vector_table =
     [Handle_sync, Handle_irq, Handle_fiq, Handle_serr]
     @ [Handle_sync, Handle_irq, Handle_fiq, Handle_serr]
     @ [Handle_sync, Handle_irq, Handle_fiq, Handle_serr]
     @ [Handle_sync, Handle_irq, Handle_fiq, Handle_serr]"

definition nxt_vector_label :: "nxt_image \<Rightarrow> core \<Rightarrow> nxt_handler option" where
  "nxt_vector_label im c =
     (let off = unat (pc c - nxt_vectors im)
      in if off mod 128 = 0 \<and> off div 128 < 16 then Some (nxt_vector_table ! (off div 128)) else None)"

definition decode_ec :: "u64 \<Rightarrow> bytes" where
  "decode_ec ec =
     (if ec = 0x15 then str ''SVC (Supervisor Call)''
      else if ec = 0x20 then str ''Instruction Abort (Lower EL)''
      else if ec = 0x21 then str ''Instruction Abort (Current EL)''
      else if ec = 0x24 then str ''Data Abort (Lower EL)''
      else if ec = 0x25 then str ''Data Abort (Current EL)''
      else str ''Unknown'')"

text \<open>The handler prints and spins; the result is the device at that point.\<close>

definition rust_exception_handler :: "'d hw \<Rightarrow> core \<Rightarrow> 'd \<Rightarrow> 'd option" where
  "rust_exception_handler hw c d =
     (let esr = esr_el1 c;
          elr = elr_el1 c;
          far = far_el1 c;
          ec = drop_bit 26 esr AND 0x3F;
          il = drop_bit 25 esr AND 1;
          iss = esr AND 0x1FFFFFF
      in do { d \<leftarrow> kprintln hw [[0x0A], str ''=== EXCEPTION ===''] d;
              d \<leftarrow> kprintln hw [str ''ESR_EL1 = '', fmt_hex18 esr] d;
              d \<leftarrow> kprintln hw [str ''  EC  = '', fmt_hex ec, str '' ('', decode_ec ec, str '')''] d;
              d \<leftarrow> kprintln hw [str ''  IL  = '', fmt_dec il] d;
              d \<leftarrow> kprintln hw [str ''  ISS = '', fmt_hex iss] d;
              d \<leftarrow> kprintln hw [str ''ELR_EL1 = '', fmt_hex18 elr] d;
              kprintln hw [str ''FAR_EL1 = '', fmt_hex18 far] d })"

text \<open>The four handlers do the same: they call \<open>rust_exception_handler\<close> and would wait after it.\<close>

primrec nxt_handle :: "nxt_handler \<Rightarrow> 'd hw \<Rightarrow> core \<Rightarrow> 'd \<Rightarrow> 'd option" where
  "nxt_handle Handle_sync hw c d = rust_exception_handler hw c d"
| "nxt_handle Handle_irq hw c d = rust_exception_handler hw c d"
| "nxt_handle Handle_fiq hw c d = rust_exception_handler hw c d"
| "nxt_handle Handle_serr hw c d = rust_exception_handler hw c d"

section \<open>The kernel\<close>

text \<open>
  \<open>svc #0\<close>, at the address \<open>svc_at\<close>: an exception of class 0x15 with a 32-bit instruction, whose
  return address is the next instruction.
\<close>

definition svc_0 :: "addr \<Rightarrow> core \<Rightarrow> core" where
  "svc_0 svc_at c = take_exception Synchronous (push_bit 26 0x15 OR push_bit 25 1) (far_el1 c) (c\<lparr>pc := svc_at + 4\<rparr>)"

definition nxt_init :: "'d hw \<Rightarrow> nxt_image \<Rightarrow> addr \<Rightarrow> core \<Rightarrow> 'd \<Rightarrow> 'd option" where
  "nxt_init hw im svc_at c d =
     do { d \<leftarrow> kprintln hw [str ''[OK] AetherNxt Booted''] d;
          d \<leftarrow> kprintln hw [str ''[OK] EL1 Online''] d;
          d \<leftarrow> kprintln hw [str ''[OK] UART Initialized''] d;
          let el = CurrentEL c;
          d \<leftarrow> kprintln hw [str ''CurrentEL = '', fmt_dec (drop_bit 2 el)] d;
          let c = svc_0 svc_at c;
          h \<leftarrow> nxt_vector_label im c;
          nxt_handle h hw c d }"

definition nxt_run :: "'d hw \<Rightarrow> nxt_image \<Rightarrow> addr \<Rightarrow> core \<Rightarrow> 'd \<Rightarrow> 'd option" where
  "nxt_run hw im svc_at c d = do { c \<leftarrow> nxt_start im c; nxt_init hw im svc_at c d }"

section \<open>What the console shows\<close>

lemma nxt_registers: "nxt_reg NXT_FR = UART0_FR" "nxt_reg NXT_DR = UART0_DR"
  by (simp_all add: nxt_reg_def NXT_UART_BASE_def NXT_FR_def NXT_DR_def UART0_FR_def UART0_DR_def UART0_BASE_def)

interpretation nxt: busy_wait "\<lambda>d. \<not> shows32 hw UART0_FR (push_bit 5 1) d" "poll32 hw UART0_FR"
    "\<lambda>d. store32 hw UART0_DR (ucast c) (poll32 hw UART0_FR d)" "nxt_putc hw c"
  for hw :: "'d hw" and c
proof unfold_locales
  show "nxt_putc hw c s = (if \<not> shows32 hw UART0_FR (push_bit 5 1) s then Some (store32 hw UART0_DR (ucast c) (poll32 hw UART0_FR s))
      else nxt_putc hw c (poll32 hw UART0_FR s))" for s
    by (subst nxt_putc.simps) (simp add: nxt_registers shows32_def poll32_def split_beta)
  show "nxt_putc hw c s = Some r \<Longrightarrow> \<exists>n. \<not> shows32 hw UART0_FR (push_bit 5 1) ((poll32 hw UART0_FR ^^ n) s)" for s r
  proof (induction rule: nxt_putc.raw_induct [rotated 1, consumes 1])
    case (1 putc hw c s r)
    show ?case
    proof (cases "shows32 hw UART0_FR (push_bit 5 1) s")
      case True
      then have "putc hw c (poll32 hw UART0_FR s) = Some r"
        using 1(2) by (simp add: nxt_registers shows32_def poll32_def split_beta)
      from 1(1) [OF this] obtain n where "\<not> shows32 hw UART0_FR (push_bit 5 1) ((poll32 hw UART0_FR ^^ n) (poll32 hw UART0_FR s))" by blast
      then show ?thesis by (rule stops_later [OF refl])
    qed (intro exI [of _ 0], simp)
  qed
qed

lemma nxt_putc_send: "nxt_putc hw c d = uart_send hw c d"
proof -
  have "nxt_putc hw c d = Some r \<longleftrightarrow> uart_send hw c d = Some r" for r
    by (rule trans [OF nxt.loop_returns sending.loop_returns [symmetric]])
  then show ?thesis by (metis not_None_eq)
qed

text \<open>A port that sends what it is given, sooner or later.\<close>

definition draining_port :: "'d hw \<Rightarrow> ('d \<Rightarrow> bytes) \<Rightarrow> bool" where
  "draining_port hw out \<longleftrightarrow>
     (\<forall>d. out (snd (load32 hw UART0_FR d)) = out d)
     \<and> (\<forall>v d. out (store32 hw UART0_DR v d) = out d @ [ucast v])
     \<and> (\<forall>d. \<exists>n. \<not> shows32 hw UART0_FR (push_bit 5 1) ((poll32 hw UART0_FR ^^ n) d))"

lemma nxt_putc_output:
  assumes "draining_port hw out"
  shows "\<exists>d'. nxt_putc hw c d = Some d' \<and> out d' = out d @ [c]"
proof -
  have "nxt_putc hw c d \<noteq> None"
    using assms by (simp add: nxt.loop_diverges draining_port_def del: not_None_eq)
  then obtain d' where d': "nxt_putc hw c d = Some d'" by blast
  moreover from d' have "out d' = out d @ [c]"
    unfolding nxt_putc_send by (rule uart_send_output [rotated 2]) (use assms in \<open>simp_all add: draining_port_def\<close>)
  ultimately show ?thesis by blast
qed

primrec nxt_cooked :: "bytes \<Rightarrow> bytes" where
  "nxt_cooked [] = []"
| "nxt_cooked (b # s) = (if b = 0x0A then [0x0D, 0x0A] else [b]) @ nxt_cooked s"

lemma nxt_cooked_append: "nxt_cooked (s @ t) = nxt_cooked s @ nxt_cooked t"
  by (induction s) simp_all

lemma nxt_puts_output:
  assumes "draining_port hw out"
  shows "\<exists>d'. nxt_puts hw s d = Some d' \<and> out d' = out d @ nxt_cooked s"
proof (induction s arbitrary: d)
  case (Cons b s)
  obtain d1 where 1: "(if b = 0x0A then nxt_putc hw 0x0D d else Some d) = Some d1"
      "out d1 = out d @ (if b = 0x0A then [0x0D] else [])"
    using nxt_putc_output [OF assms, of "0x0D" d] by (cases "b = 0x0A") auto
  obtain d2 where 2: "nxt_putc hw b d1 = Some d2" "out d2 = out d1 @ [b]"
    using nxt_putc_output [OF assms] by blast
  obtain d3 where 3: "nxt_puts hw s d2 = Some d3" "out d3 = out d2 @ nxt_cooked s"
    using Cons by blast
  show ?case using 1(2) 2(2) 3 by (intro exI [of _ d3]) (simp add: 1(1) 2(1))
qed simp

lemma kprint_output:
  assumes "draining_port hw out"
  shows "\<exists>d'. kprint hw ps d = Some d' \<and> out d' = out d @ nxt_cooked (concat ps)"
proof (induction ps arbitrary: d)
  case (Cons p ps)
  obtain d1 where 1: "nxt_puts hw p d = Some d1" "out d1 = out d @ nxt_cooked p"
    using nxt_puts_output [OF assms] by blast
  obtain d2 where "kprint hw ps d1 = Some d2" "out d2 = out d1 @ nxt_cooked (concat ps)"
    using Cons by blast
  with 1 show ?case by (intro exI [of _ d2]) (simp add: nxt_cooked_append)
qed simp

lemma kprintln_output:
  assumes "draining_port hw out"
  obtains d' where "kprintln hw ps d = Some d'" and "out d' = out d @ nxt_cooked (concat ps) @ crlf"
  using kprint_output [OF assms, of "ps @ [[0x0A]]" d] by (auto simp: kprintln_def nxt_cooked_append crlf_def)

lemma nxt_cooked_plain: "0x0A \<notin> set s \<Longrightarrow> nxt_cooked s = s"
  by (induction s) auto

lemma byte_of_char_lf: "byte_of_char c = 0x0A \<longleftrightarrow> c = CHR 0x0A"
proof
  assume "byte_of_char c = 0x0A"
  then have "unat (byte_of_char c) = 10" by simp
  moreover have "unat (byte_of_char c) = of_char c"
    using nat_of_char_less_256 [of c] unfolding byte_of_char_def by (simp add: unat_of_nat)
  ultimately have "of_char c = (of_char (CHR 0x0A) :: nat)" by simp
  then show "c = CHR 0x0A" by (simp only: of_char_eq_iff)
qed (simp add: byte_of_char_def)

lemma nxt_cooked_str: "CHR 0x0A \<notin> set cs \<Longrightarrow> nxt_cooked (str cs) = str cs"
  by (rule nxt_cooked_plain) (auto simp: str_def byte_of_char_lf dest: sym)

lemma hex_digit_plain: "(if k mod 16 < 10 then 48 + of_nat (k mod 16) else 87 + of_nat (k mod 16)) \<noteq> (0x0A :: u8)" for k :: nat
proof -
  have "\<forall>k \<in> set [0..<16]. (if k < 10 then 48 + of_nat k else 87 + of_nat k) \<noteq> (0x0A :: u8)"
    by (simp add: upt_conv_Cons)
  then show ?thesis by simp
qed

lemma hex_digits_plain: "0x0A \<notin> set (hex_digits_rev n)"
proof (induction n rule: hex_digits_rev.induct)
  case (1 n)
  then show ?case using hex_digit_plain [of n] by (subst hex_digits_rev.simps) (auto split: if_splits)
qed

lemma byte_of_char_x: "0x0A \<notin> set (str ''0x'')"
  by (simp add: str_def byte_of_char_lf)

lemma hex_str_plain: "0x0A \<notin> set (hex_str n)"
  using hex_digits_plain by (simp add: hex_str_def)

lemma fmt_plain [simp]:
  "nxt_cooked (fmt_hex v) = fmt_hex v" "nxt_cooked (fmt_hex18 v) = fmt_hex18 v" "nxt_cooked (fmt_dec v) = fmt_dec v"
proof -
  show "nxt_cooked (fmt_hex v) = fmt_hex v" "nxt_cooked (fmt_hex18 v) = fmt_hex18 v"
    using hex_str_plain byte_of_char_x
    by (auto intro!: nxt_cooked_plain simp: fmt_hex_def fmt_hex18_def Let_def)
  have "0x0A \<notin> set (dec_digits_rev n)" for n
    using dec_digits_are_digits [of "0x0A" n] by auto
  then show "nxt_cooked (fmt_dec v) = fmt_dec v"
    by (auto intro!: nxt_cooked_plain simp: fmt_dec_def dec_str_def)
qed

lemma decode_ec_plain [simp]: "nxt_cooked (decode_ec ec) = decode_ec ec"
  by (simp add: decode_ec_def nxt_cooked_str)

lemma exception_report:
  assumes port: "draining_port hw out"
  shows "\<exists>d'. rust_exception_handler hw c d = Some d' \<and> out d' = out d
     @ crlf @ str ''=== EXCEPTION ==='' @ crlf
     @ str ''ESR_EL1 = '' @ fmt_hex18 (esr_el1 c) @ crlf
     @ str ''  EC  = '' @ fmt_hex (drop_bit 26 (esr_el1 c) AND 0x3F) @ str '' (''
       @ decode_ec (drop_bit 26 (esr_el1 c) AND 0x3F) @ str '')'' @ crlf
     @ str ''  IL  = '' @ fmt_dec (drop_bit 25 (esr_el1 c) AND 1) @ crlf
     @ str ''  ISS = '' @ fmt_hex (esr_el1 c AND 0x1FFFFFF) @ crlf
     @ str ''ELR_EL1 = '' @ fmt_hex18 (elr_el1 c) @ crlf
     @ str ''FAR_EL1 = '' @ fmt_hex18 (far_el1 c) @ crlf"
proof -
  note p = kprintln_output [OF port]
  let ?ec = "drop_bit 26 (esr_el1 c) AND 0x3F"
  obtain d1 where 1: "kprintln hw [[0x0A], str ''=== EXCEPTION ===''] d = Some d1"
    "out d1 = out d @ crlf @ str ''=== EXCEPTION ==='' @ crlf"
    by (rule p [of "[[0x0A], str ''=== EXCEPTION ==='']" d]) (simp add: nxt_cooked_str crlf_def)
  obtain d2 where 2: "kprintln hw [str ''ESR_EL1 = '', fmt_hex18 (esr_el1 c)] d1 = Some d2"
    "out d2 = out d1 @ str ''ESR_EL1 = '' @ fmt_hex18 (esr_el1 c) @ crlf"
    by (rule p [of "[str ''ESR_EL1 = '', fmt_hex18 (esr_el1 c)]" d1]) (simp add: nxt_cooked_append nxt_cooked_str)
  obtain d3 where 3: "kprintln hw [str ''  EC  = '', fmt_hex ?ec, str '' ('', decode_ec ?ec, str '')''] d2 = Some d3"
    "out d3 = out d2 @ str ''  EC  = '' @ fmt_hex ?ec @ str '' ('' @ decode_ec ?ec @ str '')'' @ crlf"
    by (rule p [of "[str ''  EC  = '', fmt_hex ?ec, str '' ('', decode_ec ?ec, str '')'']" d2])
      (simp add: nxt_cooked_append nxt_cooked_str)
  obtain d4 where 4: "kprintln hw [str ''  IL  = '', fmt_dec (drop_bit 25 (esr_el1 c) AND 1)] d3 = Some d4"
    "out d4 = out d3 @ str ''  IL  = '' @ fmt_dec (drop_bit 25 (esr_el1 c) AND 1) @ crlf"
    by (rule p [of "[str ''  IL  = '', fmt_dec (drop_bit 25 (esr_el1 c) AND 1)]" d3]) (simp add: nxt_cooked_append nxt_cooked_str)
  obtain d5 where 5: "kprintln hw [str ''  ISS = '', fmt_hex (esr_el1 c AND 0x1FFFFFF)] d4 = Some d5"
    "out d5 = out d4 @ str ''  ISS = '' @ fmt_hex (esr_el1 c AND 0x1FFFFFF) @ crlf"
    by (rule p [of "[str ''  ISS = '', fmt_hex (esr_el1 c AND 0x1FFFFFF)]" d4]) (simp add: nxt_cooked_append nxt_cooked_str)
  obtain d6 where 6: "kprintln hw [str ''ELR_EL1 = '', fmt_hex18 (elr_el1 c)] d5 = Some d6"
    "out d6 = out d5 @ str ''ELR_EL1 = '' @ fmt_hex18 (elr_el1 c) @ crlf"
    by (rule p [of "[str ''ELR_EL1 = '', fmt_hex18 (elr_el1 c)]" d5]) (simp add: nxt_cooked_append nxt_cooked_str)
  obtain d7 where 7: "kprintln hw [str ''FAR_EL1 = '', fmt_hex18 (far_el1 c)] d6 = Some d7"
    "out d7 = out d6 @ str ''FAR_EL1 = '' @ fmt_hex18 (far_el1 c) @ crlf"
    by (rule p [of "[str ''FAR_EL1 = '', fmt_hex18 (far_el1 c)]" d6]) (simp add: nxt_cooked_append nxt_cooked_str)
  have "rust_exception_handler hw c d = Some d7"
    by (simp only: rust_exception_handler_def Let_def 1(1) 2(1) 3(1) 4(1) 5(1) 6(1) 7(1) Option.bind_lunit)
  then show ?thesis
    by (intro exI [of _ d7]) (simp only: 1(2) 2(2) 3(2) 4(2) 5(2) 6(2) 7(2) append_assoc)
qed

section \<open>The entry loop\<close>

lemma word_sle_unsigned:
  fixes a b :: u64
  assumes "unat a < 2 ^ 63" and "unat b < 2 ^ 63"
  shows "word_sle a b \<longleftrightarrow> unat a \<le> unat b"
proof -
  have "sint x = int (unat x)" if "unat x < 2 ^ 63" for x :: u64
  proof -
    have "int (unat x) < int (2 ^ 63)" using that by (simp only: of_nat_less_iff)
    then have "uint x < 2 ^ 63" by simp
    moreover have "- (2 ^ 63) \<le> uint x" by (rule order_trans [of _ 0]) simp_all
    ultimately have "signed_take_bit 63 (uint x) = uint x" by (intro signed_take_bit_int_eq_self)
    then show ?thesis by (simp add: sint_uint)
  qed
  then show ?thesis using assms by (simp add: word_sle_eq flip: word_le_def word_le_nat_alt)
qed

lemma clear_bss_closed:
  assumes "unat (xr c 0) \<le> unat (xr c 1) + 7" and "unat (xr c 1) + 8 \<le> 2 ^ 63"
    and "n = (unat (xr c 1) + 7 - unat (xr c 0)) div 8"
  shows "clear_bss c = Some (c\<lparr>xr := (xr c)(0 := xr c 0 + of_nat (8 * n)),
     cmem := ram_write (cmem c) (xr c 0) (replicate (8 * n) 0)\<rparr>)"
  using assms
proof (induction n arbitrary: c)
  case 0
  then have "unat (xr c 1) \<le> unat (xr c 0)" by linarith
  then have "word_sle (xr c 1) (xr c 0)" using 0 by (subst word_sle_unsigned) simp_all
  then show ?case by (subst clear_bss.simps) simp
next
  case (Suc n)
  have lt: "unat (xr c 0) < unat (xr c 1)" using Suc(4) by (auto simp: div_eq_dividend_iff not_less)
  then have more: "\<not> word_sle (xr c 1) (xr c 0)" using Suc(3) by (subst word_sle_unsigned) simp_all
  have nx: "unat (xr c 0 + 8) = unat (xr c 0) + 8"
    using lt Suc(3) by (simp add: unat_word_ariths)
  let ?d = "mov 0 (xr c 0 + 8) (c\<lparr>cmem := ram_write (cmem c) (xr c 0) (st64 0)\<rparr>)"
  have d: "xr ?d 0 = xr c 0 + 8" "xr ?d 1 = xr c 1" by (simp_all add: mov_def)
  have "8 * Suc n \<le> 2 ^ 64" using Suc(3,4) by simp
  then have w: "ram_write (ram_write (cmem c) (xr c 0) (st64 0)) (xr c 0 + 8) (replicate (8 * n) 0)
      = ram_write (cmem c) (xr c 0) (replicate (8 * Suc n) 0)"
    by (subst ram_write_append) (simp_all add: st64_0 replicate_add [symmetric])
  have "clear_bss ?d = Some (?d\<lparr>xr := (xr ?d)(0 := xr ?d 0 + of_nat (8 * n)),
     cmem := ram_write (cmem ?d) (xr ?d 0) (replicate (8 * n) 0)\<rparr>)"
  proof (rule Suc(1); unfold d nx)
    show "unat (xr c 0) + 8 \<le> unat (xr c 1) + 7" using lt by simp
    show "unat (xr c 1) + 8 \<le> 2 ^ 63" by (rule Suc(3))
    show "n = (unat (xr c 1) + 7 - (unat (xr c 0) + 8)) div 8" using Suc(4) by simp
  qed
  moreover have "clear_bss c = clear_bss ?d"
    using more by (subst clear_bss.simps) (simp add: mov_def)
  ultimately show ?case using w by (simp add: mov_def fun_upd_def algebra_simps cong: if_cong)
qed

lemma nxt_start_state:
  assumes "mpidr_el1 c AND 0xFF = 0" and "CurrentEL c = 4 \<or> CurrentEL c = 8"
    and "unat (nxt_bss_start im) \<le> unat (nxt_bss_end im)" and "unat (nxt_bss_end im) + 8 \<le> 2 ^ 63"
  obtains c' where "nxt_start im c = Some c'" and "CurrentEL c' = 4" and "cpacr_el1 c' = 0x300000"
    and "vbar_el1 c' = nxt_vectors im" and "far_el1 c' = far_el1 c" and "sp c' = nxt_stack_top im"
    and "cmem c' = ram_write (cmem c) (nxt_bss_start im)
      (replicate (8 * ((unat (nxt_bss_end im) + 7 - unat (nxt_bss_start im)) div 8)) 0)"
proof -
  define d where "d = mov 0 (drop_bit 2 (CurrentEL c AND 0xC)) c"
  define e where "e = (if CurrentEL c = 8 then nxt_leave_el2 im d else d)"
  have e: "CurrentEL e = 4" "far_el1 e = far_el1 c" "cmem e = cmem c"
    using assms(2) by (auto simp: e_def d_def nxt_leave_el2_def eret_el2_def mov_def Let_def CurrentEL_def)
  have "nxt_start im c = nxt_setup im e"
    using assms(1) level_bits [OF assms(2)] by (simp add: nxt_start_def mov_def Let_def e_def d_def CurrentEL_def)
  moreover have "\<exists>c'. nxt_setup im e = Some c' \<and> CurrentEL c' = 4 \<and> cpacr_el1 c' = 0x300000
      \<and> vbar_el1 c' = nxt_vectors im \<and> far_el1 c' = far_el1 c \<and> sp c' = nxt_stack_top im
      \<and> cmem c' = ram_write (cmem c) (nxt_bss_start im)
        (replicate (8 * ((unat (nxt_bss_end im) + 7 - unat (nxt_bss_start im)) div 8)) 0)"
    unfolding nxt_setup_def Let_def
    by (subst clear_bss_closed [OF _ _ refl]) (use assms(3,4) e in \<open>auto simp: mov_def CurrentEL_def\<close>)
  ultimately show ?thesis using that by auto
qed

lemma svc_0_taken:
  assumes "CurrentEL c = 4" and "vbar_el1 c = nxt_vectors im"
  shows "nxt_vector_label im (svc_0 svc_at c) = Some Handle_sync"
    and "esr_el1 (svc_0 svc_at c) = 0x56000000" and "elr_el1 (svc_0 svc_at c) = svc_at + 4"
    and "far_el1 (svc_0 svc_at c) = far_el1 c"
  using assms by (auto simp: svc_0_def take_exception_def nxt_vector_label_def vector_group_def CurrentEL_def
      nxt_vector_table_def Let_def)

lemma replicate_zeros:
  "replicate 8 x = [x, x, x, x, x, x, x, x]"
  "replicate 15 x = [x, x, x, x, x, x, x, x, x, x, x, x, x, x, x]"
  by (simp_all add: eval_nat_numeral)

lemma svc_texts:
  "fmt_hex18 0x56000000 = str ''0x0000000056000000''" "fmt_hex 0x15 = str ''0x15''" "fmt_hex 0 = str ''0x0''"
  "fmt_dec 1 = str ''1''"
  by (simp_all add: fmt_hex18_def fmt_hex_def fmt_dec_def hex_str_def hex_digits_rev.simps dec_str_def
      dec_digits_rev.simps str_def byte_of_char_def replicate_zeros Let_def)

section \<open>Properties\<close>

text \<open>
  C36: the run of the Rust kernel on core 0 started at level 1 or 2, over a serial port that drains: it
  enters \<open>rust_main\<close> at level 1 with its stack, having cleared the BSS up to the next multiple of
  eight bytes from its start, prints its lines with CR LF, and ends in the report of its own
  \<open>svc #0\<close>: class 0x15, 32-bit instruction, no syndrome, the address of the instruction after it.
\<close>

theorem aethernxt_runs_to_its_exception_report:
  assumes "mpidr_el1 c AND 0xFF = 0" and "CurrentEL c = 4 \<or> CurrentEL c = 8"
    and "unat (nxt_bss_start im) \<le> unat (nxt_bss_end im)" and "unat (nxt_bss_end im) + 8 \<le> 2 ^ 63"
    and port: "draining_port hw out"
  shows "\<exists>c' d'. nxt_start im c = Some c' \<and> CurrentEL c' = 4 \<and> sp c' = nxt_stack_top im
     \<and> cmem c' = ram_write (cmem c) (nxt_bss_start im)
          (replicate (8 * ((unat (nxt_bss_end im) + 7 - unat (nxt_bss_start im)) div 8)) 0)
     \<and> nxt_run hw im svc_at c d = Some d'
     \<and> out d' = out d @ str ''[OK] AetherNxt Booted'' @ crlf @ str ''[OK] EL1 Online'' @ crlf
         @ str ''[OK] UART Initialized'' @ crlf @ str ''CurrentEL = 1'' @ crlf
         @ crlf @ str ''=== EXCEPTION ==='' @ crlf @ str ''ESR_EL1 = 0x0000000056000000'' @ crlf
         @ str ''  EC  = 0x15 (SVC (Supervisor Call))'' @ crlf @ str ''  IL  = 1'' @ crlf @ str ''  ISS = 0x0'' @ crlf
         @ str ''ELR_EL1 = '' @ fmt_hex18 (svc_at + 4) @ crlf @ str ''FAR_EL1 = '' @ fmt_hex18 (far_el1 c) @ crlf"
proof -
  obtain c' where c': "nxt_start im c = Some c'" "CurrentEL c' = 4" "vbar_el1 c' = nxt_vectors im"
    "far_el1 c' = far_el1 c" "sp c' = nxt_stack_top im" "cmem c' = ram_write (cmem c) (nxt_bss_start im)
      (replicate (8 * ((unat (nxt_bss_end im) + 7 - unat (nxt_bss_start im)) div 8)) 0)"
    by (rule nxt_start_state [OF assms(1-4)])
  note p = kprintln_output [OF port]
  obtain d1 where 1: "kprintln hw [str ''[OK] AetherNxt Booted''] d = Some d1"
    "out d1 = out d @ str ''[OK] AetherNxt Booted'' @ crlf"
    by (rule p [of "[str ''[OK] AetherNxt Booted'']" d]) (simp add: nxt_cooked_str)
  obtain d2 where 2: "kprintln hw [str ''[OK] EL1 Online''] d1 = Some d2"
    "out d2 = out d1 @ str ''[OK] EL1 Online'' @ crlf"
    by (rule p [of "[str ''[OK] EL1 Online'']" d1]) (simp add: nxt_cooked_str)
  obtain d3 where 3: "kprintln hw [str ''[OK] UART Initialized''] d2 = Some d3"
    "out d3 = out d2 @ str ''[OK] UART Initialized'' @ crlf"
    by (rule p [of "[str ''[OK] UART Initialized'']" d2]) (simp add: nxt_cooked_str)
  obtain d4 where 4: "kprintln hw [str ''CurrentEL = '', fmt_dec 1] d3 = Some d4"
    "out d4 = out d3 @ str ''CurrentEL = '' @ fmt_dec 1 @ crlf"
    by (rule p [of "[str ''CurrentEL = '', fmt_dec 1]" d3]) (simp add: nxt_cooked_append nxt_cooked_str)
  note svc = svc_0_taken [OF c'(2,3), of svc_at]
  have ec: "decode_ec 0x15 = str ''SVC (Supervisor Call)''" by (simp add: decode_ec_def)
  obtain d5 where 5: "rust_exception_handler hw (svc_0 svc_at c') d4 = Some d5"
    "out d5 = out d4 @ crlf @ str ''=== EXCEPTION ==='' @ crlf
     @ str ''ESR_EL1 = '' @ str ''0x0000000056000000'' @ crlf
     @ str ''  EC  = '' @ str ''0x15'' @ str '' ('' @ str ''SVC (Supervisor Call)'' @ str '')'' @ crlf
     @ str ''  IL  = '' @ str ''1'' @ crlf @ str ''  ISS = '' @ str ''0x0'' @ crlf
     @ str ''ELR_EL1 = '' @ fmt_hex18 (svc_at + 4) @ crlf @ str ''FAR_EL1 = '' @ fmt_hex18 (far_el1 c) @ crlf"
    using exception_report [OF port, of "svc_0 svc_at c'" d4] svc c'(4) by (auto simp: svc_texts ec)
  have "nxt_run hw im svc_at c d = Some d5"
    using 1(1) 2(1) 3(1) 4(1) 5(1) svc(1) c'(1,2) by (simp add: nxt_run_def nxt_init_def Let_def)
  with c'(1,2,5,6) show ?thesis
    by (intro exI [of _ c'] exI [of _ d5] conjI)
      (simp_all only: 5(2) 4(2) 3(2) 2(2) 1(2) svc_texts append_assoc, simp_all add: str_def)
qed

definition nxt_sample_image :: nxt_image where
  "nxt_sample_image = \<lparr>nxt_setup_fpu = 0x40080060, nxt_stack_top = 0x40090000, nxt_bss_start = 0x40088000,
     nxt_bss_end = 0x4008800B, nxt_vectors = 0x40082000\<rparr>"

text \<open>Eleven bytes of BSS are cleared as sixteen.\<close>

theorem aethernxt_runs_to_its_exception_report_witness:
  "\<exists>c' d'. nxt_start nxt_sample_image started_core = Some c'
     \<and> cmem c' = ram_write (\<lambda>_. 0xAA) 0x40088000 (replicate 16 0)
     \<and> nxt_run slow_port nxt_sample_image 0x40081000 started_core (3, []) = Some d'
     \<and> snd d' = str ''[OK] AetherNxt Booted'' @ crlf @ str ''[OK] EL1 Online'' @ crlf
         @ str ''[OK] UART Initialized'' @ crlf @ str ''CurrentEL = 1'' @ crlf
         @ crlf @ str ''=== EXCEPTION ==='' @ crlf @ str ''ESR_EL1 = 0x0000000056000000'' @ crlf
         @ str ''  EC  = 0x15 (SVC (Supervisor Call))'' @ crlf @ str ''  IL  = 1'' @ crlf @ str ''  ISS = 0x0'' @ crlf
         @ str ''ELR_EL1 = '' @ str ''0x0000000040081004'' @ crlf
         @ str ''FAR_EL1 = '' @ str ''0x0000000000000000'' @ crlf"
proof -
  have fst: "fst ((poll32 slow_port UART0_FR ^^ n) d) = fst d - n" for n d
    by (induction n) (simp_all add: poll32_def slow_port_def split_beta)
  have "\<not> shows32 slow_port UART0_FR (push_bit 5 1) ((poll32 slow_port UART0_FR ^^ fst d) d)" for d
    using fst [of "fst d" d] by (simp add: shows32_def slow_port_def split_beta)
  moreover have "snd (snd (load32 slow_port UART0_FR d)) = snd d" for d
    by (cases d) (simp add: slow_port_def)
  moreover have "snd (store32 slow_port UART0_DR v d) = snd d @ [ucast v]" for v d
    by (cases d) (simp add: slow_port_def)
  ultimately have port: "draining_port slow_port snd" unfolding draining_port_def by blast
  have hex: "fmt_hex18 (0x40081000 + 4) = str ''0x0000000040081004''"
      "fmt_hex18 (far_el1 started_core) = str ''0x0000000000000000''"
    by (simp_all add: fmt_hex18_def hex_str_def hex_digits_rev.simps str_def byte_of_char_def replicate_zeros
        started_core_def Let_def)
  have pre: "mpidr_el1 started_core AND 0xFF = 0" "CurrentEL started_core = 4 \<or> CurrentEL started_core = 8"
      "unat (nxt_bss_start nxt_sample_image) \<le> unat (nxt_bss_end nxt_sample_image)"
      "unat (nxt_bss_end nxt_sample_image) + 8 \<le> 2 ^ 63"
    by (simp_all add: nxt_sample_image_def started_core_def CurrentEL_def)
  have im: "nxt_bss_start nxt_sample_image = 0x40088000" "cmem started_core = (\<lambda>_. 0xAA)"
      "nxt_bss_end nxt_sample_image = 0x4008800B"
    by (simp_all add: nxt_sample_image_def started_core_def)
  obtain c' d' where r: "nxt_start nxt_sample_image started_core = Some c'"
      "cmem c' = ram_write (cmem started_core) (nxt_bss_start nxt_sample_image)
        (replicate (8 * ((unat (nxt_bss_end nxt_sample_image) + 7 - unat (nxt_bss_start nxt_sample_image)) div 8)) 0)"
      "nxt_run slow_port nxt_sample_image 0x40081000 started_core (3, []) = Some d'"
      "snd d' = snd (3 :: nat, []) @ str ''[OK] AetherNxt Booted'' @ crlf @ str ''[OK] EL1 Online'' @ crlf
         @ str ''[OK] UART Initialized'' @ crlf @ str ''CurrentEL = 1'' @ crlf
         @ crlf @ str ''=== EXCEPTION ==='' @ crlf @ str ''ESR_EL1 = 0x0000000056000000'' @ crlf
         @ str ''  EC  = 0x15 (SVC (Supervisor Call))'' @ crlf @ str ''  IL  = 1'' @ crlf @ str ''  ISS = 0x0'' @ crlf
         @ str ''ELR_EL1 = '' @ fmt_hex18 (0x40081000 + 4) @ crlf
         @ str ''FAR_EL1 = '' @ fmt_hex18 (far_el1 started_core) @ crlf"
    using aethernxt_runs_to_its_exception_report [OF pre port, of "0x40081000" "(3, [])"]
    by (elim exE conjE) (rule that)
  show ?thesis
    using r(1-3) r(4) [unfolded hex] unfolding im by (intro exI [of _ c'] exI [of _ d'] conjI) simp_all
qed

end
